(* ===== verification/Xolotl_Prelude.thy ===== *)
theory Xolotl_Prelude
  imports Main "HOL-Library.Word"
begin

text \<open>
  Shared vocabulary of the development: Rust's \<open>Result\<close> and \<open>Option\<close> plumbing, computations
  that can return, raise an error value or panic, the bounds of the machine integers the
  sources use, and list lemmas that several components share.
\<close>

section \<open>Results and computations\<close>

text \<open>\<open>Result<T, E>\<close> of the source; the \<open>?\<close> operator is \<open>bind_result\<close>.\<close>

datatype ('a, 'e) result = Ok 'a | Err 'e

fun bind_result :: "('a, 'e) result \<Rightarrow> ('a \<Rightarrow> ('b, 'e) result) \<Rightarrow> ('b, 'e) result" where
  "bind_result (Ok a) f = f a"
| "bind_result (Err e) f = Err e"

fun map_err :: "('e \<Rightarrow> 'f) \<Rightarrow> ('a, 'e) result \<Rightarrow> ('a, 'f) result" where
  "map_err f (Ok a) = Ok a"
| "map_err f (Err e) = Err (f e)"

definition ok_or :: "'e \<Rightarrow> 'a option \<Rightarrow> ('a, 'e) result" where
  "ok_or e x = (case x of Some a \<Rightarrow> Ok a | None \<Rightarrow> Err e)"

text \<open>A fallible traversal that stops at the first error, as a \<open>for\<close> loop with \<open>?\<close> does.\<close>

fun try_each :: "('a \<Rightarrow> (unit, 'e) result) \<Rightarrow> 'a list \<Rightarrow> (unit, 'e) result" where
  "try_each f [] = Ok ()"
| "try_each f (x # xs) = bind_result (f x) (\<lambda>_. try_each f xs)"

text \<open>
  A computation over a mutable state returns, fails with an error value (the state keeps the
  changes made so far, as a \<open>&mut self\<close> method does), or panics (an index out of range, an
  integer underflow). \<open>and_then\<close> sequences them.
\<close>

datatype ('a, 'e) comp = Return 'a | Raise 'e | Panic

definition and_then ::
  "('a, 'e) comp \<times> 's \<Rightarrow> ('a \<Rightarrow> 's \<Rightarrow> ('b, 'e) comp \<times> 's) \<Rightarrow> ('b, 'e) comp \<times> 's" where
  "and_then r k =
     (case r of
        (Return a, s) \<Rightarrow> k a s
      | (Raise e, s) \<Rightarrow> (Raise e, s)
      | (Panic, s) \<Rightarrow> (Panic, s))"

section \<open>Machine integers\<close>

text \<open>
  Indices and counters are natural numbers; where the source's width matters the bound is
  written out with these constants. \<open>usize\<close> is 64 bits wide.
\<close>

type_synonym u32 = nat
type_synonym u64 = nat
type_synonym usize = nat

definition u32_max :: nat where "u32_max = 2 ^ 32 - 1"
definition u64_max :: nat where "u64_max = 2 ^ 64 - 1"
definition usize_max :: nat where "usize_max = 2 ^ 64 - 1"

definition checked_add :: "nat \<Rightarrow> nat \<Rightarrow> nat \<Rightarrow> nat option" where
  "checked_add bound a b = (if a + b \<le> bound then Some (a + b) else None)"

definition saturating_add :: "nat \<Rightarrow> nat \<Rightarrow> nat \<Rightarrow> nat" where
  "saturating_add bound a b = min bound (a + b)"

definition saturating_sub :: "nat \<Rightarrow> nat \<Rightarrow> nat" where
  "saturating_sub a b = a - b"

definition checked_sub :: "nat \<Rightarrow> nat \<Rightarrow> nat option" where
  "checked_sub a b = (if b \<le> a then Some (a - b) else None)"

definition get :: "'a list \<Rightarrow> nat \<Rightarrow> 'a option" where
  "get xs i = (if i < length xs then Some (xs ! i) else None)"

section \<open>Lemmas on results and computations\<close>

lemma bind_result_Ok_iff [simp]:
  "bind_result r f = Ok b \<longleftrightarrow> (\<exists>a. r = Ok a \<and> f a = Ok b)"
  by (cases r) auto

lemma bind_result_Err_iff [simp]:
  "bind_result r f = Err e \<longleftrightarrow> r = Err e \<or> (\<exists>a. r = Ok a \<and> f a = Err e)"
  by (cases r) auto

lemma map_err_Ok_iff [simp]: "map_err f r = Ok a \<longleftrightarrow> r = Ok a"
  by (cases r) auto

lemma map_err_Err_iff [simp]: "map_err f r = Err e \<longleftrightarrow> (\<exists>e'. r = Err e' \<and> e = f e')"
  by (cases r) auto

lemma ok_or_Ok_iff [simp]: "ok_or e x = Ok a \<longleftrightarrow> x = Some a"
  by (auto simp: ok_or_def split: option.splits)

lemma ok_or_Err_iff [simp]: "ok_or e x = Err e' \<longleftrightarrow> x = None \<and> e' = e"
  by (auto simp: ok_or_def split: option.splits)

lemma ok_or_simps [simp]: "ok_or e (Some a) = Ok a" "ok_or e None = Err e"
  by (simp_all add: ok_or_def)

lemma try_each_Ok_iff [simp]: "try_each f xs = Ok () \<longleftrightarrow> (\<forall>x \<in> set xs. f x = Ok ())"
  by (induction xs) auto

text \<open>The error of a traversal is the error of the first element that is refused.\<close>

lemma try_each_Err_iff:
  "try_each f xs = Err e \<longleftrightarrow>
     (\<exists>ys x zs. xs = ys @ x # zs \<and> (\<forall>y \<in> set ys. f y = Ok ()) \<and> f x = Err e)"
    (is "?L xs \<longleftrightarrow> ?R xs")
proof
  show "?L xs \<Longrightarrow> ?R xs"
  proof (induction xs)
    case (Cons a xs)
    then show ?case
    proof (cases "f a")
      case (Ok u)
      with Cons obtain ys x zs
        where "xs = ys @ x # zs" "\<forall>y \<in> set ys. f y = Ok ()" "f x = Err e"
        by auto
      with Ok have "a # xs = (a # ys) @ x # zs \<and> (\<forall>y \<in> set (a # ys). f y = Ok ()) \<and> f x = Err e"
        by simp
      then show ?thesis by blast
    next
      case (Err e')
      with Cons.prems have "a # xs = [] @ a # xs \<and> (\<forall>y \<in> set []. f y = Ok ()) \<and> f a = Err e"
        by simp
      then show ?thesis by blast
    qed
  qed simp
  show "?R xs \<Longrightarrow> ?L xs"
  proof (elim exE conjE)
    fix ys x zs
    assume "xs = ys @ x # zs" "\<forall>y \<in> set ys. f y = Ok ()" "f x = Err e"
    then show ?thesis by (induction ys arbitrary: xs) auto
  qed
qed

lemma and_then_simps [simp]:
  "and_then (Return a, s) k = k a s"
  "and_then (Raise e, s) k = (Raise e, s)"
  "and_then (Panic, s) k = (Panic, s)"
  by (simp_all add: and_then_def)

lemma and_then_split:
  "P (and_then r k) \<longleftrightarrow>
     (\<forall>a s. r = (Return a, s) \<longrightarrow> P (k a s)) \<and>
     (\<forall>e s. r = (Raise e, s) \<longrightarrow> P (Raise e, s)) \<and>
     (\<forall>s. r = (Panic, s) \<longrightarrow> P (Panic, s))"
  by (cases r; cases "fst r") (auto simp: and_then_def)

section \<open>Lemmas on integers and lists\<close>

lemma get_Some_iff [simp]: "get xs i = Some x \<longleftrightarrow> i < length xs \<and> xs ! i = x"
  by (auto simp: get_def)

lemma get_None_iff [simp]: "get xs i = None \<longleftrightarrow> length xs \<le> i"
  by (auto simp: get_def)

lemma checked_add_Some_iff [simp]:
  "checked_add bound a b = Some c \<longleftrightarrow> c = a + b \<and> a + b \<le> bound"
  by (auto simp: checked_add_def)

lemma checked_add_None_iff [simp]: "checked_add bound a b = None \<longleftrightarrow> bound < a + b"
  by (auto simp: checked_add_def)

lemma nth_update_outside: "i \<notin> A \<Longrightarrow> j \<in> A \<Longrightarrow> xs[i := x] ! j = xs ! j"
  by (cases "i = j") auto

end
