(* ===== verification/Stream_Channel.thy ===== *)
theory Stream_Channel
  imports Xolotl_Prelude
begin

text \<open>
  The bounded channel of \<open>xolotl-core/src/stream.rs\<close>: a ring buffer over caller-owned slots with
  explicit backpressure and a terminal result. The interface \<open>bounded_fifo\<close> states what a client
  relies on (first in, first out, nothing dropped, a terminal result only after the buffer is
  drained); the ring buffer is an interpretation of it.
\<close>

section \<open>Model\<close>

datatype 't send_error = Full 't | Closed 't

datatype ('t, 'e) received = Item 't | Pending | End "(unit, 'e) result"

record ('t, 'e) channel =
  ch_slots :: "'t option list"
  ch_head :: usize
  ch_len :: usize
  ch_end :: "(unit, 'e) result option"

definition channel_new :: "'t option list \<Rightarrow> ('t, 'e) channel" where
  "channel_new slots =
     \<lparr>ch_slots = map (\<lambda>_. None) slots, ch_head = 0, ch_len = 0, ch_end = None\<rparr>"

text \<open>The remainder by \<open>slots.len()\<close> panics on empty storage.\<close>

definition try_send ::
  "('t, 'e) channel \<Rightarrow> 't \<Rightarrow> (unit, 't send_error) comp \<times> ('t, 'e) channel" where
  "try_send c x =
     (if ch_end c \<noteq> None then (Raise (Closed x), c)
      else if ch_len c = length (ch_slots c) then (Raise (Full x), c)
      else if length (ch_slots c) = 0 then (Panic, c)
      else (Return (),
        c\<lparr>ch_slots := (ch_slots c)[(ch_head c + ch_len c) mod length (ch_slots c) := Some x],
          ch_len := ch_len c + 1\<rparr>))"

definition channel_terminal :: "('t, 'e) channel \<Rightarrow> ('t, 'e) received" where
  "channel_terminal c = (case ch_end c of Some r \<Rightarrow> End r | None \<Rightarrow> Pending)"

definition receive ::
  "('t, 'e) channel \<Rightarrow> (('t, 'e) received, unit) comp \<times> ('t, 'e) channel" where
  "receive c =
     (if 0 < ch_len c then
        (if length (ch_slots c) \<le> ch_head c then (Panic, c)
         else
           let v = ch_slots c ! ch_head c;
               c' = c\<lparr>ch_slots := (ch_slots c)[ch_head c := None],
                      ch_head := (ch_head c + 1) mod length (ch_slots c),
                      ch_len := ch_len c - 1\<rparr>
           in (case v of
                 Some x \<Rightarrow> (Return (Item x), c')
               | None \<Rightarrow> (Return (channel_terminal c'), c')))
      else (Return (channel_terminal c), c))"

definition close :: "('t, 'e) channel \<Rightarrow> (unit, 'e) result \<Rightarrow> ('t, 'e) channel" where
  "close c r = (if ch_end c = None then c\<lparr>ch_end := Some r\<rparr> else c)"

definition channel_len :: "('t, 'e) channel \<Rightarrow> usize" where
  "channel_len c = ch_len c"

definition channel_is_empty :: "('t, 'e) channel \<Rightarrow> bool" where
  "channel_is_empty c \<longleftrightarrow> ch_len c = 0"

definition channel_capacity :: "('t, 'e) channel \<Rightarrow> usize" where
  "channel_capacity c = length (ch_slots c)"

section \<open>Representation invariant and abstraction\<close>

definition ring_index :: "('t, 'e) channel \<Rightarrow> nat \<Rightarrow> nat" where
  "ring_index c k = (ch_head c + k) mod length (ch_slots c)"

definition channel_items :: "('t, 'e) channel \<Rightarrow> 't list" where
  "channel_items c = map (\<lambda>k. the (ch_slots c ! ring_index c k)) [0..<ch_len c]"

definition channel_inv :: "('t, 'e) channel \<Rightarrow> bool" where
  "channel_inv c \<longleftrightarrow>
     ch_len c \<le> length (ch_slots c) \<and>
     (ch_slots c \<noteq> [] \<longrightarrow> ch_head c < length (ch_slots c)) \<and>
     (\<forall>k < ch_len c. ch_slots c ! ring_index c k \<noteq> None)"

lemma ring_index_less: "ch_slots c \<noteq> [] \<Longrightarrow> ring_index c k < length (ch_slots c)"
  by (simp add: ring_index_def)

lemma mod_add_left_inj:
  fixes h i j n :: nat
  assumes "(h + i) mod n = (h + j) mod n" "i < n" "j < n"
  shows "i = j"
  using assms
proof (induction i j rule: linorder_wlog)
  case (le i j)
  then have "n dvd (h + j) - (h + i)"
    by (metis add_le_cancel_left mod_eq_dvd_iff_nat)
  then have "n dvd j - i" by simp
  with le show ?case by (auto dest: dvd_imp_le)
qed auto

lemma ring_index_inj:
  assumes "i < length (ch_slots c)" "j < length (ch_slots c)" "ring_index c i = ring_index c j"
  shows "i = j"
  using assms mod_add_left_inj [of "ch_head c" i "length (ch_slots c)" j]
  by (simp add: ring_index_def)

lemma ring_index_0: "ch_head c < length (ch_slots c) \<Longrightarrow> ring_index c 0 = ch_head c"
  by (simp add: ring_index_def)

text \<open>Writing the slot one past the buffered items keeps every buffered item.\<close>

lemma channel_items_push:
  fixes c :: "('t, 'e) channel" and x :: 't
  assumes inv: "channel_inv c" and room: "ch_len c < length (ch_slots c)"
    and c': "c' = c\<lparr>ch_slots := (ch_slots c)[ring_index c (ch_len c) := Some x],
                    ch_len := ch_len c + 1\<rparr>"
  shows "channel_inv c'" "channel_items c' = channel_items c @ [x]"
proof -
  have idx: "ring_index c' k = ring_index c k" for k
    by (simp add: c' ring_index_def)
  have len: "ch_len c' = Suc (ch_len c)" "length (ch_slots c') = length (ch_slots c)"
    "ch_head c' = ch_head c"
    by (simp_all add: c')
  have ne: "ch_slots c \<noteq> []" using room by auto
  have old: "ch_slots c' ! ring_index c k = ch_slots c ! ring_index c k" if "k < ch_len c" for k
  proof -
    have "ring_index c (ch_len c) \<noteq> ring_index c k"
      using ring_index_inj [of k c "ch_len c"] that room by auto
    then show ?thesis by (simp add: c')
  qed
  have new: "ch_slots c' ! ring_index c (ch_len c) = Some x"
    using ring_index_less [OF ne] by (simp add: c')
  show "channel_inv c'"
    unfolding channel_inv_def
  proof (intro conjI allI impI)
    show "ch_len c' \<le> length (ch_slots c')" using room by (simp add: len)
    show "ch_head c' < length (ch_slots c')" using inv ne by (simp add: channel_inv_def len)
    fix k assume "k < ch_len c'"
    then consider "k < ch_len c" | "k = ch_len c" by (fastforce simp: len less_Suc_eq)
    then show "ch_slots c' ! ring_index c' k \<noteq> None"
      using inv old new by cases (auto simp: channel_inv_def idx)
  qed
  show "channel_items c' = channel_items c @ [x]"
    using new by (simp add: channel_items_def idx len old)
qed

lemma channel_items_pop:
  fixes c :: "('t, 'e) channel"
  assumes inv: "channel_inv c" and some: "0 < ch_len c"
    and c': "c' = c\<lparr>ch_slots := (ch_slots c)[ch_head c := None],
                    ch_head := (ch_head c + 1) mod length (ch_slots c), ch_len := ch_len c - 1\<rparr>"
  shows "channel_inv c'" "ch_slots c ! ch_head c \<noteq> None"
    "channel_items c = the (ch_slots c ! ch_head c) # channel_items c'"
proof -
  have ne: "ch_slots c \<noteq> []" and hd: "ch_head c < length (ch_slots c)"
    using inv some by (auto simp: channel_inv_def)
  have idx: "ring_index c' k = ring_index c (Suc k)" for k
    by (simp add: c' ring_index_def mod_add_left_eq)
  have len: "ch_len c' = ch_len c - 1" "length (ch_slots c') = length (ch_slots c)"
    "ch_head c' = (ch_head c + 1) mod length (ch_slots c)"
    by (simp_all add: c')
  have old: "ch_slots c' ! ring_index c (Suc k) = ch_slots c ! ring_index c (Suc k)"
    if "Suc k < ch_len c" for k
  proof -
    have "Suc k < length (ch_slots c)" using that inv by (simp add: channel_inv_def)
    then have "ch_head c \<noteq> ring_index c (Suc k)"
      using ring_index_0 [OF hd] ring_index_inj [of "Suc k" c 0] ne by auto
    then show ?thesis by (simp add: c')
  qed
  show "channel_inv c'"
    unfolding channel_inv_def
  proof (intro conjI allI impI)
    show "ch_len c' \<le> length (ch_slots c')" using inv by (auto simp: channel_inv_def len)
    show "ch_head c' < length (ch_slots c')" using ne by (simp add: len)
    fix k assume "k < ch_len c'"
    then have "Suc k < ch_len c" by (simp add: len)
    then show "ch_slots c' ! ring_index c' k \<noteq> None"
      using inv old by (simp add: channel_inv_def idx)
  qed
  show "ch_slots c ! ch_head c \<noteq> None"
  proof -
    have "ch_slots c ! ring_index c 0 \<noteq> None"
      using inv some unfolding channel_inv_def by blast
    then show ?thesis using ring_index_0 [OF hd] by simp
  qed
  have "[0..<ch_len c] = 0 # map Suc [0..<ch_len c']"
    using some by (simp add: len upt_conv_Cons map_Suc_upt del: upt_Suc)
  then have "channel_items c = the (ch_slots c ! ch_head c) #
      map (\<lambda>k. the (ch_slots c ! ring_index c (Suc k))) [0..<ch_len c']"
    by (simp add: channel_items_def ring_index_0 [OF hd] comp_def del: upt_Suc)
  also have "map (\<lambda>k. the (ch_slots c ! ring_index c (Suc k))) [0..<ch_len c'] = channel_items c'"
    unfolding channel_items_def
    by (rule map_cong) (simp_all add: idx old len)
  finally show "channel_items c = the (ch_slots c ! ch_head c) # channel_items c'" .
qed

section \<open>The interface a producer and a consumer rely on\<close>

text \<open>The calls a client makes, the answers it sees, and the queue it may think of.\<close>

datatype ('t, 'e) chan_call = Call_send 't | Call_receive | Call_close "(unit, 'e) result"

datatype ('t, 'e) chan_answer =
    Answer_send "(unit, 't send_error) comp"
  | Answer_receive "(('t, 'e) received, unit) comp"
  | Answer_close

fun fifo_call :: "nat \<Rightarrow> ('t, 'e) chan_call \<Rightarrow> 't list \<times> (unit, 'e) result option \<Rightarrow>
    ('t, 'e) chan_answer \<times> 't list \<times> (unit, 'e) result option" where
  "fifo_call n (Call_send x) (xs, ending) =
     (if ending \<noteq> None then (Answer_send (Raise (Closed x)), xs, ending)
      else if length xs = n then (Answer_send (Raise (Full x)), xs, ending)
      else (Answer_send (Return ()), xs @ [x], ending))"
| "fifo_call n Call_receive (xs, ending) =
     (case xs of
        y # ys \<Rightarrow> (Answer_receive (Return (Item y)), ys, ending)
      | [] \<Rightarrow> (Answer_receive (Return (case ending of Some r \<Rightarrow> End r | None \<Rightarrow> Pending)), xs, ending))"
| "fifo_call n (Call_close r) (xs, ending) =
     (Answer_close, xs, (case ending of None \<Rightarrow> Some r | Some _ \<Rightarrow> ending))"

fun run_calls :: "('a \<Rightarrow> 's \<Rightarrow> 'b \<times> 's) \<Rightarrow> 'a list \<Rightarrow> 's \<Rightarrow> 'b list \<times> 's" where
  "run_calls f [] s = ([], s)"
| "run_calls f (a # as) s =
     (let (b, s') = f a s; (bs, s'') = run_calls f as s' in (b # bs, s''))"

locale bounded_fifo =
  fixes inv :: "'c \<Rightarrow> bool"
    and items :: "'c \<Rightarrow> 't list"
    and capacity :: "'c \<Rightarrow> nat"
    and ending :: "'c \<Rightarrow> (unit, 'e) result option"
    and send :: "'c \<Rightarrow> 't \<Rightarrow> (unit, 't send_error) comp \<times> 'c"
    and recv :: "'c \<Rightarrow> (('t, 'e) received, unit) comp \<times> 'c"
    and finish :: "'c \<Rightarrow> (unit, 'e) result \<Rightarrow> 'c"
  assumes send_closed: "inv c \<Longrightarrow> ending c \<noteq> None \<Longrightarrow> send c x = (Raise (Closed x), c)"
    and send_full: "inv c \<Longrightarrow> ending c = None \<Longrightarrow> length (items c) = capacity c \<Longrightarrow>
      send c x = (Raise (Full x), c)"
    and send_room: "inv c \<Longrightarrow> ending c = None \<Longrightarrow> length (items c) < capacity c \<Longrightarrow>
      \<exists>c'. send c x = (Return (), c') \<and> inv c' \<and> items c' = items c @ [x] \<and>
        capacity c' = capacity c \<and> ending c' = None"
    and recv_item: "inv c \<Longrightarrow> items c = x # xs \<Longrightarrow>
      \<exists>c'. recv c = (Return (Item x), c') \<and> inv c' \<and> items c' = xs \<and>
        capacity c' = capacity c \<and> ending c' = ending c"
    and recv_empty: "inv c \<Longrightarrow> items c = [] \<Longrightarrow>
      recv c = (Return (case ending c of Some r \<Rightarrow> End r | None \<Rightarrow> Pending), c)"
    and finish_first: "inv c \<Longrightarrow> ending c = None \<Longrightarrow>
      inv (finish c r) \<and> items (finish c r) = items c \<and> capacity (finish c r) = capacity c \<and>
        ending (finish c r) = Some r"
    and finish_again: "inv c \<Longrightarrow> ending c \<noteq> None \<Longrightarrow> finish c r = c"
    and bounded: "inv c \<Longrightarrow> length (items c) \<le> capacity c"
begin

text \<open>A producer that sends a list, stopping at the first rejection, and a consumer that polls.\<close>

fun send_all :: "'c \<Rightarrow> 't list \<Rightarrow> (unit, 't send_error) comp \<times> 'c" where
  "send_all c [] = (Return (), c)"
| "send_all c (x # xs) = and_then (send c x) (\<lambda>_ c. send_all c xs)"

fun poll :: "nat \<Rightarrow> 'c \<Rightarrow> ('t, 'e) received list \<times> 'c" where
  "poll 0 c = ([], c)"
| "poll (Suc n) c =
     (case recv c of
        (Return r, c') \<Rightarrow> (let (rs, c'') = poll n c' in (r # rs, c''))
      | (_, c') \<Rightarrow> ([], c'))"

lemma send_all_room:
  assumes "inv c" "ending c = None" "length (items c) + length xs \<le> capacity c"
  shows "\<exists>c'. send_all c xs = (Return (), c') \<and> inv c' \<and> items c' = items c @ xs \<and>
    capacity c' = capacity c \<and> ending c' = None"
  using assms
proof (induction xs arbitrary: c)
  case Nil
  then show ?case by simp
next
  case (Cons x xs)
  then obtain c' where "send c x = (Return (), c')" "inv c'" "items c' = items c @ [x]"
    "capacity c' = capacity c" "ending c' = None"
    using send_room [of c x] by auto
  with Cons.IH [of c'] Cons.prems show ?case by simp
qed

lemma poll_terminal:
  assumes "inv c" "items c = []" "ending c = Some r"
  shows "poll k c = (replicate k (End r), c)"
  using recv_empty [OF assms(1,2)] assms(3) by (induction k) auto

lemma poll_drains:
  assumes "inv c" "ending c = Some r"
  shows "\<exists>c'. poll (length (items c) + k) c = (map Item (items c) @ replicate k (End r), c') \<and>
    inv c' \<and> items c' = [] \<and> ending c' = Some r"
  using assms
proof (induction "items c" arbitrary: c)
  case Nil
  then show ?case using poll_terminal [of c r k] by auto
next
  case (Cons x xs)
  from recv_item [of c x xs] Cons obtain c' where c':
    "recv c = (Return (Item x), c')" "inv c'" "items c' = xs" "ending c' = Some r"
    by metis
  with Cons.hyps(1) [of c'] obtain c'' where
    "poll (length xs + k) c' = (map Item xs @ replicate k (End r), c'')"
    "inv c''" "items c'' = []" "ending c'' = Some r"
    by auto
  with c' Cons.hyps(2) [symmetric] show ?case by simp
qed

lemma produce_then_drain:
  assumes "inv c" "ending c = None" "length (items c) + length xs \<le> capacity c"
  shows "\<exists>c' c''. send_all c xs = (Return (), c') \<and>
    poll (length (items c) + length xs + k) (finish c' r) =
      (map Item (items c @ xs) @ replicate k (End r), c'')"
proof -
  from send_all_room [OF assms] obtain c' where c': "send_all c xs = (Return (), c')"
    "inv c'" "items c' = items c @ xs" "ending c' = None"
    by blast
  with finish_first [of c' r] have "inv (finish c' r)" "items (finish c' r) = items c @ xs"
    "ending (finish c' r) = Some r"
    by auto
  with poll_drains [of "finish c' r" r k] c'(1) show ?thesis by auto
qed

text \<open>Any program of calls, against the implementation and against the abstract queue.\<close>

fun call :: "('t, 'e) chan_call \<Rightarrow> 'c \<Rightarrow> ('t, 'e) chan_answer \<times> 'c" where
  "call (Call_send x) c = (let (r, c') = send c x in (Answer_send r, c'))"
| "call Call_receive c = (let (r, c') = recv c in (Answer_receive r, c'))"
| "call (Call_close r) c = (Answer_close, finish c r)"

lemma call_simulates:
  assumes "inv c" "call a c = (ans, c')" "fifo_call (capacity c) a (items c, ending c) = (ans', q')"
  shows "ans = ans'" "inv c'" "capacity c' = capacity c" "q' = (items c', ending c')"
proof -
  have "ans = ans' \<and> inv c' \<and> capacity c' = capacity c \<and> q' = (items c', ending c')"
  proof (cases a)
    case (Call_send x)
    consider "ending c \<noteq> None" | "ending c = None" "length (items c) = capacity c"
      | "ending c = None" "length (items c) < capacity c"
      using bounded [OF assms(1)] by linarith
    then show ?thesis
    proof cases
      case 1
      then show ?thesis using send_closed [OF assms(1)] assms Call_send by auto
    next
      case 2
      then show ?thesis using send_full [OF assms(1)] assms Call_send by auto
    next
      case 3
      then show ?thesis using send_room [OF assms(1) 3, of x] assms Call_send by auto
    qed
  next
    case Call_receive
    show ?thesis
    proof (cases "items c")
      case Nil
      then show ?thesis using recv_empty [OF assms(1)] assms Call_receive by auto
    next
      case (Cons x xs)
      then show ?thesis using recv_item [OF assms(1) Cons] assms Call_receive by auto
    qed
  next
    case (Call_close r)
    then show ?thesis
      using finish_first [OF assms(1), of r] finish_again [OF assms(1), of r] assms
      by (cases "ending c") auto
  qed
  then show "ans = ans'" "inv c'" "capacity c' = capacity c" "q' = (items c', ending c')" by auto
qed

lemma calls_simulate:
  "inv c \<Longrightarrow> fst (run_calls call as c) =
     fst (run_calls (fifo_call (capacity c)) as (items c, ending c))"
proof (induction as arbitrary: c)
  case (Cons a as)
  obtain ans c' where c: "call a c = (ans, c')" by (cases "call a c") auto
  obtain ans' q' where q: "fifo_call (capacity c) a (items c, ending c) = (ans', q')"
    by (cases "fifo_call (capacity c) a (items c, ending c)") auto
  note sim = call_simulates [OF Cons.prems c q]
  show ?case using Cons.IH [OF sim(2)] sim by (simp add: c q case_prod_beta)
qed simp

end

section \<open>The ring buffer implements the interface\<close>

lemma channel_items_length [simp]: "length (channel_items c) = ch_len c"
  by (simp add: channel_items_def)

interpretation ring: bounded_fifo channel_inv channel_items channel_capacity ch_end
  try_send receive close
proof (unfold_locales, goal_cases)
  case (1 c x)
  then show ?case by (simp add: try_send_def)
next
  case (2 c x)
  then show ?case by (simp add: try_send_def channel_capacity_def)
next
  case (3 c x)
  then have room: "ch_len c < length (ch_slots c)" by (simp add: channel_capacity_def)
  then have "ch_slots c \<noteq> []" by auto
  with room 3 show ?case
    using channel_items_push [OF 3(1) room refl, of x]
    by (auto simp: try_send_def channel_capacity_def ring_index_def)
next
  case (4 c x xs)
  then have some: "0 < ch_len c" using channel_items_length [of c] by auto
  have "ch_head c < length (ch_slots c)" using 4(1) some by (auto simp: channel_inv_def)
  with channel_items_pop [OF 4(1) some refl] 4(2) some show ?case
    by (auto simp: receive_def Let_def channel_capacity_def)
next
  case (5 c)
  then have "ch_len c = 0" using channel_items_length [of c] by auto
  then show ?case by (simp add: receive_def channel_terminal_def)
next
  case (6 c r)
  then show ?case
    by (auto simp: close_def channel_inv_def channel_items_def ring_index_def channel_capacity_def)
next
  case (7 c r)
  then show ?case by (simp add: close_def)
next
  case (8 c)
  then show ?case by (simp add: channel_inv_def channel_capacity_def)
qed

lemma channel_new_inv:
  "channel_inv (channel_new slots)" "channel_items (channel_new slots) = []"
  "ch_end (channel_new slots) = None" "channel_capacity (channel_new slots) = length slots"
  by (auto simp: channel_new_def channel_inv_def channel_items_def channel_capacity_def)

fun channel_call :: "('t, 'e) chan_call \<Rightarrow> ('t, 'e) channel \<Rightarrow>
    ('t, 'e) chan_answer \<times> ('t, 'e) channel" where
  "channel_call (Call_send x) c = (let (r, c') = try_send c x in (Answer_send r, c'))"
| "channel_call Call_receive c = (let (r, c') = receive c in (Answer_receive r, c'))"
| "channel_call (Call_close r) c = (Answer_close, close c r)"

lemma channel_call_ring: "channel_call = ring.call"
proof (intro ext)
  fix a :: "('t, 'e) chan_call" and c
  show "channel_call a c = ring.call a c" by (cases a) simp_all
qed

text \<open>
  C39: whatever sequence of \<open>try_send\<close>, \<open>receive\<close> and \<open>close\<close> calls is made on a new channel, the
  caller sees the answers of a queue bounded by the number of slots: first in first out, full
  and closed sends hand the value back, the first close wins, buffered items are delivered
  before the end is reported, and no call panics.
\<close>

theorem channel_refines_queue:
  "fst (run_calls channel_call calls (channel_new slots)) =
     fst (run_calls (fifo_call (length slots)) calls ([], None))"
  using ring.calls_simulate [OF channel_new_inv(1), of calls slots]
  by (simp add: channel_new_inv channel_call_ring)

end
