(* ===== verification/Program_Image.thy ===== *)
theory Program_Image
  imports Xolotl_Prelude
begin

text \<open>
  The instruction image of \<open>xolotl-core\<close> (\<open>program.rs\<close>, \<open>program/indices.rs\<close>): faults, node
  kinds and nodes, images, the index visitor, admission (\<open>validate\<close>), the structure-preserving
  maps over nodes, and the host's value algebra (the trait \<open>Values\<close>).
\<close>

section \<open>Data\<close>

datatype fault =
    Fault_Version | Fault_InvalidNode | Fault_InvalidImport | Fault_InvalidBinding
  | Fault_MissingBinding | Fault_Tasks | Fault_Frames | Fault_AnalysisCapacity | Fault_Fuel
  | Fault_Iterations | Fault_Type | Fault_Cancelled | Fault_StaleEvent
  | Fault_SequenceExhausted | Fault_ImageMismatch | Fault_InvalidState | Fault_Authority

datatype join = Join_All | Join_Race

text \<open>
  The fields of each kind are in the source's order: \<open>N_Then first then\<close>, \<open>N_Catch body
  recover\<close>, \<open>N_Finally body cleanup\<close>, \<open>N_If yes no\<close>, \<open>N_Branch condition yes no\<close>,
  \<open>N_Let slot value body\<close>, \<open>N_While condition body max\<close>, \<open>N_Fork left right join\<close>,
  \<open>N_Scope import body\<close>.
\<close>

datatype ('v, 'e) node_kind =
    N_Literal 'v
  | N_Input
  | N_Load u32
  | N_Fail 'e
  | N_Request u32
  | N_Then u32 u32
  | N_Catch u32 u32
  | N_Finally u32 u32
  | N_If u32 u32
  | N_Branch u32 u32 u32
  | N_Let u32 u32 u32
  | N_While u32 u32 u64
  | N_Fork u32 u32 join
  | N_Call u32
  | N_Scope u32 u32

record ('v, 'e) node =
  nd_kind :: "('v, 'e) node_kind"
  nd_next :: "u32 option"
  nd_position :: u64

record ('v, 'e) image =
  img_version :: u32
  img_id :: "8 word list"
  img_nodes :: "('v, 'e) node list"
  img_entry :: u32
  img_bindings :: usize
  img_imports :: usize

definition image_version_1 :: u32 where "image_version_1 = 1"

text \<open>
  The trait \<open>Values\<close>: the host supplies a value algebra. The three last operations have default
  bodies in the trait.
\<close>

record ('v, 'e) vals =
  v_unit :: 'v
  v_truth :: "'v \<Rightarrow> (bool, 'e) result"
  v_pair :: "'v \<Rightarrow> 'v \<Rightarrow> ('v, 'e) result"
  v_error :: "fault \<Rightarrow> 'e"
  v_error_value :: "'e \<Rightarrow> 'v"
  v_influence :: "'v \<Rightarrow> 'v \<Rightarrow> 'v"
  v_influence_result :: "('v, 'e) result \<Rightarrow> 'v \<Rightarrow> ('v, 'e) result"
  v_retain_result :: "('v, 'e) result \<Rightarrow> 'v"
  v_retain_control :: "'v \<Rightarrow> 'v"

definition default_influence :: "'v \<Rightarrow> 'v \<Rightarrow> 'v" where
  "default_influence v control = v"

fun default_influence_result ::
  "('v \<Rightarrow> 'v \<Rightarrow> 'v) \<Rightarrow> ('v, 'e) result \<Rightarrow> 'v \<Rightarrow> ('v, 'e) result" where
  "default_influence_result influence (Ok v) control = Ok (influence v control)"
| "default_influence_result influence (Err e) control = Err e"

fun default_retain_result ::
  "('e \<Rightarrow> 'v) \<Rightarrow> ('v \<Rightarrow> 'v) \<Rightarrow> ('v, 'e) result \<Rightarrow> 'v" where
  "default_retain_result error_value retain_control (Ok v) = retain_control v"
| "default_retain_result error_value retain_control (Err e) = retain_control (error_value e)"

definition default_retain_control :: "'v \<Rightarrow> 'v" where
  "default_retain_control v = v"

section \<open>Operations\<close>

definition node_new :: "('v, 'e) node_kind \<Rightarrow> u64 \<Rightarrow> ('v, 'e) node" where
  "node_new k p = \<lparr>nd_kind = k, nd_next = None, nd_position = p\<rparr>"

text \<open>
  \<open>try_map_ref\<close> and \<open>try_map_owned\<close> have the same text up to borrowing; both stop at the first
  error of the callback they call.
\<close>

fun try_map_kind ::
  "('v \<Rightarrow> ('w, 'x) result) \<Rightarrow> ('e \<Rightarrow> ('f, 'x) result) \<Rightarrow>
   ('v, 'e) node_kind \<Rightarrow> (('w, 'f) node_kind, 'x) result" where
  "try_map_kind mv me (N_Literal v) = bind_result (mv v) (\<lambda>w. Ok (N_Literal w))"
| "try_map_kind mv me N_Input = Ok N_Input"
| "try_map_kind mv me (N_Load slot) = Ok (N_Load slot)"
| "try_map_kind mv me (N_Fail e) = bind_result (me e) (\<lambda>f. Ok (N_Fail f))"
| "try_map_kind mv me (N_Request import) = Ok (N_Request import)"
| "try_map_kind mv me (N_Then a b) = Ok (N_Then a b)"
| "try_map_kind mv me (N_Catch a b) = Ok (N_Catch a b)"
| "try_map_kind mv me (N_Finally a b) = Ok (N_Finally a b)"
| "try_map_kind mv me (N_If a b) = Ok (N_If a b)"
| "try_map_kind mv me (N_Branch c a b) = Ok (N_Branch c a b)"
| "try_map_kind mv me (N_Let slot a b) = Ok (N_Let slot a b)"
| "try_map_kind mv me (N_While c b m) = Ok (N_While c b m)"
| "try_map_kind mv me (N_Fork a b j) = Ok (N_Fork a b j)"
| "try_map_kind mv me (N_Call a) = Ok (N_Call a)"
| "try_map_kind mv me (N_Scope import b) = Ok (N_Scope import b)"

definition try_map_ref ::
  "('v \<Rightarrow> ('w, 'x) result) \<Rightarrow> ('e \<Rightarrow> ('f, 'x) result) \<Rightarrow>
   ('v, 'e) node \<Rightarrow> (('w, 'f) node, 'x) result" where
  "try_map_ref mv me n =
     bind_result (try_map_kind mv me (nd_kind n))
       (\<lambda>k. Ok \<lparr>nd_kind = k, nd_next = nd_next n, nd_position = nd_position n\<rparr>)"

definition try_map_owned ::
  "('v \<Rightarrow> ('w, 'x) result) \<Rightarrow> ('e \<Rightarrow> ('f, 'x) result) \<Rightarrow>
   ('v, 'e) node \<Rightarrow> (('w, 'f) node, 'x) result" where
  "try_map_owned mv me n =
     bind_result (try_map_kind mv me (nd_kind n))
       (\<lambda>k. Ok \<lparr>nd_kind = k, nd_next = nd_next n, nd_position = nd_position n\<rparr>)"

text \<open>The error type of the total maps is uninhabited in the source (\<open>Infallible\<close>); the model
  keeps the unmapped node's \<open>Ok\<close> and never takes the other branch.\<close>

definition map_owned :: "('v \<Rightarrow> 'w) \<Rightarrow> ('e \<Rightarrow> 'f) \<Rightarrow> ('v, 'e) node \<Rightarrow> ('w, 'f) node" where
  "map_owned mv me n =
     (case try_map_owned (\<lambda>v. Ok (mv v) :: ('w, unit) result) (\<lambda>e. Ok (me e)) n of
        Ok m \<Rightarrow> m
      | Err _ \<Rightarrow> undefined)"

definition map_value :: "('v \<Rightarrow> 'w) \<Rightarrow> ('v, 'e) node \<Rightarrow> ('w, 'e) node" where
  "map_value mv n =
     (case try_map_ref (\<lambda>v. Ok (mv v) :: ('w, unit) result) Ok n of
        Ok m \<Rightarrow> m
      | Err _ \<Rightarrow> undefined)"

definition visit_indices ::
  "(u32 \<Rightarrow> (unit, 'f) result) \<Rightarrow> (u32 \<Rightarrow> (unit, 'f) result) \<Rightarrow> (u32 \<Rightarrow> (unit, 'f) result) \<Rightarrow>
   ('v, 'e) node \<Rightarrow> (unit, 'f) result" where
  "visit_indices node import binding n =
     bind_result (case nd_next n of Some x \<Rightarrow> node x | None \<Rightarrow> Ok ()) (\<lambda>_.
       case nd_kind n of
         N_Literal _ \<Rightarrow> Ok ()
       | N_Input \<Rightarrow> Ok ()
       | N_Fail _ \<Rightarrow> Ok ()
       | N_Load slot \<Rightarrow> binding slot
       | N_Request index \<Rightarrow> import index
       | N_Call entry \<Rightarrow> node entry
       | N_Then a b \<Rightarrow> bind_result (node a) (\<lambda>_. node b)
       | N_Catch a b \<Rightarrow> bind_result (node a) (\<lambda>_. node b)
       | N_Finally a b \<Rightarrow> bind_result (node a) (\<lambda>_. node b)
       | N_If a b \<Rightarrow> bind_result (node a) (\<lambda>_. node b)
       | N_While a b _ \<Rightarrow> bind_result (node a) (\<lambda>_. node b)
       | N_Fork a b _ \<Rightarrow> bind_result (node a) (\<lambda>_. node b)
       | N_Branch c a b \<Rightarrow> bind_result (node c) (\<lambda>_. bind_result (node a) (\<lambda>_. node b))
       | N_Let slot a b \<Rightarrow> bind_result (binding slot) (\<lambda>_. bind_result (node a) (\<lambda>_. node b))
       | N_Scope index b \<Rightarrow> bind_result (import index) (\<lambda>_. node b))"

definition image_node :: "('v, 'e) image \<Rightarrow> u32 \<Rightarrow> (('v, 'e) node, fault) result" where
  "image_node img i = ok_or Fault_InvalidNode (get (img_nodes img) i)"

definition validate_node :: "('v, 'e) image \<Rightarrow> ('v, 'e) node \<Rightarrow> (unit, fault) result" where
  "validate_node img =
     visit_indices
       (\<lambda>i. bind_result (image_node img i) (\<lambda>_. Ok ()))
       (\<lambda>i. if i < img_imports img then Ok () else Err Fault_InvalidImport)
       (\<lambda>i. if i < img_bindings img then Ok () else Err Fault_InvalidBinding)"

definition validate :: "('v, 'e) image \<Rightarrow> (unit, fault) result" where
  "validate img =
     (if img_version img \<noteq> image_version_1 then Err Fault_Version
      else bind_result (image_node img (img_entry img)) (\<lambda>_.
        try_each (validate_node img) (img_nodes img)))"

section \<open>Specification of admission\<close>

text \<open>The code, import and binding addresses a node mentions, in the order they are visited.\<close>

fun kind_nodes :: "('v, 'e) node_kind \<Rightarrow> u32 list" where
  "kind_nodes (N_Then a b) = [a, b]"
| "kind_nodes (N_Catch a b) = [a, b]"
| "kind_nodes (N_Finally a b) = [a, b]"
| "kind_nodes (N_If a b) = [a, b]"
| "kind_nodes (N_Branch c a b) = [c, a, b]"
| "kind_nodes (N_Let _ a b) = [a, b]"
| "kind_nodes (N_While a b _) = [a, b]"
| "kind_nodes (N_Fork a b _) = [a, b]"
| "kind_nodes (N_Call a) = [a]"
| "kind_nodes (N_Scope _ b) = [b]"
| "kind_nodes _ = []"

fun kind_imports :: "('v, 'e) node_kind \<Rightarrow> u32 list" where
  "kind_imports (N_Request i) = [i]"
| "kind_imports (N_Scope i _) = [i]"
| "kind_imports _ = []"

fun kind_bindings :: "('v, 'e) node_kind \<Rightarrow> u32 list" where
  "kind_bindings (N_Load s) = [s]"
| "kind_bindings (N_Let s _ _) = [s]"
| "kind_bindings _ = []"

definition node_targets :: "('v, 'e) node \<Rightarrow> u32 list" where
  "node_targets n = (case nd_next n of Some x \<Rightarrow> [x] | None \<Rightarrow> []) @ kind_nodes (nd_kind n)"

definition node_closed :: "usize \<Rightarrow> usize \<Rightarrow> usize \<Rightarrow> ('v, 'e) node \<Rightarrow> bool" where
  "node_closed code imports bindings n \<longleftrightarrow>
     (\<forall>i \<in> set (node_targets n). i < code) \<and>
     (\<forall>i \<in> set (kind_imports (nd_kind n)). i < imports) \<and>
     (\<forall>i \<in> set (kind_bindings (nd_kind n)). i < bindings)"

definition image_closed :: "('v, 'e) image \<Rightarrow> bool" where
  "image_closed img \<longleftrightarrow>
     img_version img = image_version_1 \<and> img_entry img < length (img_nodes img) \<and>
     (\<forall>n \<in> set (img_nodes img).
        node_closed (length (img_nodes img)) (img_imports img) (img_bindings img) n)"

section \<open>Lemmas\<close>

lemma image_node_Ok_iff [simp]:
  "image_node img i = Ok n \<longleftrightarrow> i < length (img_nodes img) \<and> img_nodes img ! i = n"
  by (simp add: image_node_def)

lemma image_node_Err_iff [simp]:
  "image_node img i = Err f \<longleftrightarrow> length (img_nodes img) \<le> i \<and> f = Fault_InvalidNode"
  by (auto simp: image_node_def)

lemma visit_indices_Ok_iff:
  "visit_indices node import binding n = Ok () \<longleftrightarrow>
     (\<forall>i \<in> set (node_targets n). node i = Ok ()) \<and>
     (\<forall>i \<in> set (kind_imports (nd_kind n)). import i = Ok ()) \<and>
     (\<forall>i \<in> set (kind_bindings (nd_kind n)). binding i = Ok ())"
  by (cases "nd_kind n")
    (auto simp: visit_indices_def node_targets_def split: option.splits)

lemma visit_indices_total:
  "visit_indices node import binding n = Ok () \<or>
   (\<exists>f. visit_indices node import binding n = Err f \<and>
     ((\<exists>i. node i = Err f) \<or> (\<exists>i. import i = Err f) \<or> (\<exists>i. binding i = Err f)))"
  by (cases "visit_indices node import binding n")
    (auto simp: visit_indices_def split: option.splits node_kind.splits)

lemma validate_node_Ok_iff:
  "validate_node img n = Ok () \<longleftrightarrow>
     node_closed (length (img_nodes img)) (img_imports img) (img_bindings img) n"
  by (auto simp: validate_node_def visit_indices_Ok_iff node_closed_def)

lemma validate_Ok_iff: "validate img = Ok () \<longleftrightarrow> image_closed img"
  by (auto simp: validate_def image_closed_def validate_node_Ok_iff)

lemma image_closed_node:
  assumes "image_closed img" "i < length (img_nodes img)" "j \<in> set (node_targets (img_nodes img ! i))"
  shows "j < length (img_nodes img)"
  using assms by (auto simp: image_closed_def node_closed_def)

lemma try_map_kind_pure:
  "try_map_kind (\<lambda>v. Ok (mv v)) (\<lambda>e. Ok (me e)) k = Ok (map_node_kind mv me k)"
  by (cases k) auto

lemma map_owned_alt:
  "map_owned mv me n =
     \<lparr>nd_kind = map_node_kind mv me (nd_kind n), nd_next = nd_next n, nd_position = nd_position n\<rparr>"
  by (simp add: map_owned_def try_map_owned_def try_map_kind_pure)

lemma try_map_kind_value: "try_map_kind (\<lambda>v. Ok (mv v)) Ok k = Ok (map_node_kind mv id k)"
  by (cases k) auto

lemma map_value_alt: "map_value mv n = map_owned mv id n"
  by (simp add: map_value_def try_map_ref_def map_owned_alt try_map_kind_value)

lemma kind_addresses_map [simp]:
  "kind_nodes (map_node_kind mv me k) = kind_nodes k"
  "kind_imports (map_node_kind mv me k) = kind_imports k"
  "kind_bindings (map_node_kind mv me k) = kind_bindings k"
  by (cases k; simp)+

lemma try_map_kind_addresses:
  assumes "try_map_kind mv me k = Ok k'"
  shows "kind_nodes k' = kind_nodes k \<and> kind_imports k' = kind_imports k \<and>
    kind_bindings k' = kind_bindings k"
  using assms by (cases k) auto

section \<open>Property\<close>

text \<open>
  C40: \<open>validate\<close> admits exactly the closed images: version 1, an entry inside the code, and every
  node's continuation, code, import and binding addresses in range.
\<close>

theorem validate_admits_closed:
  "validate img = Ok () \<longleftrightarrow>
     img_version img = 1 \<and> img_entry img < length (img_nodes img) \<and>
     list_all (\<lambda>n. list_all (\<lambda>i. i < length (img_nodes img)) (node_targets n) \<and>
       list_all (\<lambda>i. i < img_imports img) (kind_imports (nd_kind n)) \<and>
       list_all (\<lambda>i. i < img_bindings img) (kind_bindings (nd_kind n))) (img_nodes img)"
  by (auto simp: validate_Ok_iff image_closed_def node_closed_def image_version_1_def list_all_iff)

end
