(* ===== verification/Frame_Pool.thy ===== *)
theory Frame_Pool
  imports Program_Image "HOL-Library.Multiset"
begin

text \<open>
  The shared continuation arena of \<open>xolotl-core/src/frame.rs\<close>: every task's stack is a linked list
  threaded through one array of slots, and slots given back form a free list. The interface
  \<open>frame_store\<close> states what the machine relies on (each stack behaves as its own list of frames);
  the linked pool is an interpretation of it.
\<close>

section \<open>Model\<close>

text \<open>
  The fields of the frame kinds are in the source's order: \<open>K_Finally cleanup input\<close>,
  \<open>K_Condition condition body left value\<close>, \<open>K_Iteration condition body left\<close>,
  \<open>K_Choose yes no input\<close>, \<open>K_Bind slot body\<close>, \<open>K_Unbind slot previous\<close>,
  \<open>K_Continuation node entry\<close>.
\<close>

datatype ('v, 'e) frame_kind =
    K_Vacant
  | K_Finish u32
  | K_Then u32
  | K_Catch u32
  | K_Finally u32 'v
  | K_Cleaned "('v, 'e) result"
  | K_Condition u32 u32 u64 'v
  | K_Iteration u32 u32 u64
  | K_Context u64
  | K_Choose u32 u32 'v
  | K_Bind u32 u32
  | K_Unbind u32 "'v option"
  | K_Continuation u32 u32

record ('v, 'e) frame =
  fr_kind :: "('v, 'e) frame_kind"
  fr_previous :: u32

definition saved_context :: "('v, 'e) frame \<Rightarrow> u64 option" where
  "saved_context f = (case fr_kind f of K_Context c \<Rightarrow> Some c | _ \<Rightarrow> None)"

text \<open>The sentinel \<open>NONE\<close> of the links.\<close>

definition no_frame :: u32 where "no_frame = u32_max"

record stack =
  st_top :: u32
  st_depth :: u32

definition stack_default :: stack where
  "stack_default = \<lparr>st_top = no_frame, st_depth = 0\<rparr>"

record pool_meta =
  pm_next_unused :: u32
  pm_free_head :: u32
  pm_free_count :: u32

definition pool_meta_default :: pool_meta where
  "pool_meta_default = \<lparr>pm_next_unused = 0, pm_free_head = no_frame, pm_free_count = 0\<rparr>"

record ('v, 'e) pool =
  pl_slots :: "('v, 'e) frame option list"
  pl_meta :: pool_meta

definition pool_new :: "('v, 'e) frame option list \<Rightarrow> ('v, 'e) pool" where
  "pool_new slots = \<lparr>pl_slots = map (\<lambda>_. None) slots, pl_meta = pool_meta_default\<rparr>"

text \<open>The subtraction of \<open>next_unused\<close> panics when it would be negative.\<close>

definition pool_check ::
  "('v, 'e) pool \<Rightarrow> stack \<Rightarrow> usize \<Rightarrow> usize \<Rightarrow> (unit, fault) comp" where
  "pool_check p st n max_depth =
     (case checked_add usize_max (st_depth st) n of
        None \<Rightarrow> Raise Fault_Frames
      | Some depth \<Rightarrow>
          if length (pl_slots p) < pm_next_unused (pl_meta p) then Panic
          else let available = length (pl_slots p) - pm_next_unused (pl_meta p) +
                     pm_free_count (pl_meta p)
               in if max_depth < depth \<or> available < n then Raise Fault_Frames else Return ())"

text \<open>The part of \<open>push\<close> that finds a slot: the next unused one, or the head of the free list.\<close>

definition pool_allocate :: "('v, 'e) pool \<Rightarrow> (u32, fault) comp \<times> ('v, 'e) pool" where
  "pool_allocate p =
     (let m = pl_meta p in
      if pm_free_head m = no_frame then
        (if length (pl_slots p) \<le> pm_next_unused m then (Raise Fault_Frames, p)
         else (Return (pm_next_unused m),
               p\<lparr>pl_meta := m\<lparr>pm_next_unused := pm_next_unused m + 1\<rparr>\<rparr>))
      else if length (pl_slots p) \<le> pm_free_head m then (Panic, p)
      else (case pl_slots p ! pm_free_head m of
              None \<Rightarrow> (Raise Fault_InvalidState, p)
            | Some f \<Rightarrow>
                if pm_free_count m = 0
                then (Panic, p\<lparr>pl_meta := m\<lparr>pm_free_head := fr_previous f\<rparr>\<rparr>)
                else (Return (pm_free_head m),
                      p\<lparr>pl_meta := m\<lparr>pm_free_head := fr_previous f,
                                      pm_free_count := pm_free_count m - 1\<rparr>\<rparr>)))"

definition pool_push ::
  "('v, 'e) pool \<times> stack \<Rightarrow> ('v, 'e) frame_kind \<Rightarrow> usize \<Rightarrow>
   (unit, fault) comp \<times> ('v, 'e) pool \<times> stack" where
  "pool_push ps kind max_depth =
     (case ps of (p, st) \<Rightarrow>
      if max_depth \<le> st_depth st then (Raise Fault_Frames, p, st)
      else (case pool_allocate p of
              (Raise f, p') \<Rightarrow> (Raise f, p', st)
            | (Panic, p') \<Rightarrow> (Panic, p', st)
            | (Return i, p') \<Rightarrow>
                if length (pl_slots p') \<le> i then (Panic, p', st)
                else (Return (),
                      p'\<lparr>pl_slots := (pl_slots p')[i := Some \<lparr>fr_kind = kind, fr_previous = st_top st\<rparr>]\<rparr>,
                      \<lparr>st_top = i, st_depth = st_depth st + 1\<rparr>)))"

definition pool_pop ::
  "('v, 'e) pool \<times> stack \<Rightarrow>
   (('v, 'e) frame_kind option, fault) comp \<times> ('v, 'e) pool \<times> stack" where
  "pool_pop ps =
     (case ps of (p, st) \<Rightarrow>
      if st_depth st = 0 then (Return None, p, st)
      else let i = st_top st in
        if length (pl_slots p) \<le> i then (Panic, p, st)
        else (case pl_slots p ! i of
                None \<Rightarrow> (Return None, p, st)
              | Some f \<Rightarrow>
                  let st' = \<lparr>st_top = fr_previous f, st_depth = st_depth st - 1\<rparr>; m = pl_meta p
                  in if i + 1 = pm_next_unused m
                     then (Return (Some (fr_kind f)),
                           p\<lparr>pl_slots := (pl_slots p)[i := None],
                             pl_meta := m\<lparr>pm_next_unused := pm_next_unused m - 1\<rparr>\<rparr>, st')
                     else (Return (Some (fr_kind f)),
                           p\<lparr>pl_slots := (pl_slots p)
                               [i := Some \<lparr>fr_kind = K_Vacant, fr_previous = pm_free_head m\<rparr>],
                             pl_meta := m\<lparr>pm_free_head := i,
                                            pm_free_count := pm_free_count m + 1\<rparr>\<rparr>, st')))"

section \<open>Linked lists in the pool\<close>

fun linked :: "('v, 'e) frame option list \<Rightarrow> u32 \<Rightarrow> nat list \<Rightarrow> bool" where
  "linked slots link [] \<longleftrightarrow> link = no_frame"
| "linked slots link (i # js) \<longleftrightarrow>
     link = i \<and> i < length slots \<and> slots ! i \<noteq> None \<and> linked slots (fr_previous (the (slots ! i))) js"

text \<open>The frames of a stack, read by following its links.\<close>

fun frames_from :: "('v, 'e) frame option list \<Rightarrow> u32 \<Rightarrow> nat \<Rightarrow> ('v, 'e) frame_kind list" where
  "frames_from slots link 0 = []"
| "frames_from slots link (Suc n) =
     (case get slots link of
        Some (Some f) \<Rightarrow> fr_kind f # frames_from slots (fr_previous f) n
      | _ \<Rightarrow> [])"

definition frames_of :: "('v, 'e) pool \<Rightarrow> stack \<Rightarrow> ('v, 'e) frame_kind list" where
  "frames_of p st = frames_from (pl_slots p) (st_top st) (st_depth st)"

definition stack_links :: "('v, 'e) pool \<Rightarrow> stack \<Rightarrow> nat list \<Rightarrow> bool" where
  "stack_links p st js \<longleftrightarrow> linked (pl_slots p) (st_top st) js \<and> st_depth st = length js"

definition pool_inv :: "('v, 'e) pool \<Rightarrow> stack list \<Rightarrow> bool" where
  "pool_inv p sts \<longleftrightarrow>
     length (pl_slots p) \<le> u32_max \<and> pm_next_unused (pl_meta p) \<le> length (pl_slots p) \<and>
     (\<exists>free links.
        linked (pl_slots p) (pm_free_head (pl_meta p)) free \<and>
        pm_free_count (pl_meta p) = length free \<and>
        list_all2 (stack_links p) sts links \<and>
        mset (free @ concat links) = mset [0..<pm_next_unused (pl_meta p)])"

definition pool_available :: "('v, 'e) pool \<Rightarrow> nat" where
  "pool_available p =
     length (pl_slots p) - pm_next_unused (pl_meta p) + pm_free_count (pl_meta p)"

lemma linked_unique: "linked slots link js \<Longrightarrow> linked slots link ks \<Longrightarrow>
    length slots \<le> u32_max \<Longrightarrow> js = ks"
proof (induction js arbitrary: link ks)
  case Nil
  then show ?case by (cases ks) (auto simp: no_frame_def)
next
  case (Cons j js)
  then show ?case by (cases ks) (auto simp: no_frame_def)
qed

lemma linked_cong:
  assumes "linked slots link js" "length slots' = length slots"
    and "\<And>j. j \<in> set js \<Longrightarrow> slots' ! j = slots ! j"
  shows "linked slots' link js"
  using assms by (induction js arbitrary: link) auto

lemma linked_update:
  assumes "linked slots link js" "i \<notin> set js"
  shows "linked (slots[i := f]) link js"
proof (rule linked_cong [OF assms(1)])
  show "slots[i := f] ! j = slots ! j" if "j \<in> set js" for j
    using assms(2) that by (rule nth_update_outside)
qed simp

lemma frames_from_linked:
  "linked slots link js \<Longrightarrow>
   frames_from slots link (length js) = map (\<lambda>j. fr_kind (the (slots ! j))) js"
  by (induction js arbitrary: link) (auto simp: get_def)

lemma frames_of_links:
  "stack_links p st js \<Longrightarrow> frames_of p st = map (\<lambda>j. fr_kind (the (pl_slots p ! j))) js"
  by (simp add: stack_links_def frames_of_def frames_from_linked)

lemma frames_of_empty [simp]: "st_depth st = 0 \<Longrightarrow> frames_of p st = []"
  by (simp add: frames_of_def)

lemma mset_concat_update:
  "i < length xss \<Longrightarrow>
   mset (concat (xss[i := x # xs])) = add_mset x (mset (concat (xss[i := xs])))"
proof (induction xss arbitrary: i)
  case (Cons ys xss)
  then show ?case by (cases i) auto
qed simp

lemma stack_links_cong:
  assumes "stack_links p st js" "length (pl_slots p') = length (pl_slots p)"
    and "\<And>j. j \<in> set js \<Longrightarrow> pl_slots p' ! j = pl_slots p ! j"
  shows "stack_links p' st js" "frames_of p' st = frames_of p st"
proof -
  show links: "stack_links p' st js"
    using assms linked_cong [of "pl_slots p"] by (auto simp: stack_links_def)
  show "frames_of p' st = frames_of p st"
    using assms(3) by (simp add: frames_of_links [OF links] frames_of_links [OF assms(1)])
qed

text \<open>Writing one slot \<open>x\<close> that is in no other list changes stack \<open>i\<close> only.\<close>

lemma pool_write:
  assumes links: "list_all2 (stack_links p) sts links" and i: "i < length sts"
    and rest: "x \<notin> set (concat (links[i := xs]))"
    and slots: "pl_slots p' = (pl_slots p)[x := f]"
    and own: "stack_links p' st' ys"
  shows "list_all2 (stack_links p') (sts[i := st']) (links[i := ys])"
    "j < length sts \<Longrightarrow> j \<noteq> i \<Longrightarrow> frames_of p' (sts ! j) = frames_of p (sts ! j)"
proof -
  have len: "length links = length sts" using links by (simp add: list_all2_lengthD)
  have other: "stack_links p' (sts ! j) (links ! j) \<and> frames_of p' (sts ! j) = frames_of p (sts ! j)"
    if j: "j < length sts" "j \<noteq> i" for j
  proof -
    have "links ! j \<in> set (links[i := xs])"
      using j len by (metis length_list_update nth_list_update_neq nth_mem)
    then have "x \<notin> set (links ! j)" using rest by auto
    then have "pl_slots p' ! y = pl_slots p ! y" if "y \<in> set (links ! j)" for y
      unfolding slots using that by (rule nth_update_outside)
    moreover have "stack_links p (sts ! j) (links ! j)"
      using links j(1) by (simp add: list_all2_conv_all_nth)
    ultimately show ?thesis
      using stack_links_cong [of p "sts ! j" "links ! j" p'] slots by simp
  qed
  then show "j < length sts \<Longrightarrow> j \<noteq> i \<Longrightarrow> frames_of p' (sts ! j) = frames_of p (sts ! j)" by simp
  show "list_all2 (stack_links p') (sts[i := st']) (links[i := ys])"
    using other own len i by (auto simp: list_all2_conv_all_nth nth_list_update)
qed

lemma pool_invE:
  assumes "pool_inv p sts"
  obtains free links where
    "linked (pl_slots p) (pm_free_head (pl_meta p)) free"
    "pm_free_count (pl_meta p) = length free"
    "list_all2 (stack_links p) sts links" "length links = length sts"
    "mset (free @ concat links) = mset [0..<pm_next_unused (pl_meta p)]"
    "length (pl_slots p) \<le> u32_max" "pm_next_unused (pl_meta p) \<le> length (pl_slots p)"
  using assms unfolding pool_inv_def by (metis list_all2_lengthD)

lemma pool_inv_depth:
  assumes "pool_inv p sts" "i < length sts"
  shows "st_depth (sts ! i) = length (frames_of p (sts ! i))"
proof -
  from assms obtain js where "stack_links p (sts ! i) js"
    by (metis pool_invE list_all2_nthD)
  then show ?thesis using frames_of_links by (fastforce simp: stack_links_def)
qed

lemma pool_allocate_spec:
  assumes free: "linked (pl_slots p) (pm_free_head (pl_meta p)) free"
    and cnt: "pm_free_count (pl_meta p) = length free"
    and mset: "mset (free @ rest) = mset [0..<pm_next_unused (pl_meta p)]"
    and bound: "length (pl_slots p) \<le> u32_max" "pm_next_unused (pl_meta p) \<le> length (pl_slots p)"
  shows "pool_available p = 0 \<Longrightarrow> pool_allocate p = (Raise Fault_Frames, p)"
    "0 < pool_available p \<Longrightarrow> \<exists>x m free'. pool_allocate p = (Return x, p\<lparr>pl_meta := m\<rparr>) \<and>
       x < length (pl_slots p) \<and> linked (pl_slots p) (pm_free_head m) free' \<and>
       pm_free_count m = length free' \<and> mset (x # free' @ rest) = mset [0..<pm_next_unused m] \<and>
       pm_next_unused m \<le> length (pl_slots p) \<and>
       pool_available (p\<lparr>pl_meta := m\<rparr>) = pool_available p - 1"
proof -
  let ?m = "pl_meta p"
  show "pool_available p = 0 \<Longrightarrow> pool_allocate p = (Raise Fault_Frames, p)"
    using free cnt bound by (cases free) (auto simp: pool_available_def pool_allocate_def Let_def)
  assume room: "0 < pool_available p"
  show "\<exists>x m free'. pool_allocate p = (Return x, p\<lparr>pl_meta := m\<rparr>) \<and>
       x < length (pl_slots p) \<and> linked (pl_slots p) (pm_free_head m) free' \<and>
       pm_free_count m = length free' \<and> mset (x # free' @ rest) = mset [0..<pm_next_unused m] \<and>
       pm_next_unused m \<le> length (pl_slots p) \<and>
       pool_available (p\<lparr>pl_meta := m\<rparr>) = pool_available p - 1"
  proof (cases free)
    case Nil
    then show ?thesis
      using free cnt mset bound room
      by (intro exI [of _ "pm_next_unused ?m"]
          exI [of _ "?m\<lparr>pm_next_unused := pm_next_unused ?m + 1\<rparr>"] exI [of _ "[]"])
        (auto simp: pool_available_def pool_allocate_def Let_def)
  next
    case (Cons x fs)
    moreover have "x \<noteq> no_frame" using free bound Cons by (auto simp: no_frame_def)
    ultimately show ?thesis
      using free cnt mset bound
      by (intro exI [of _ x] exI [of _ "?m\<lparr>pm_free_head := fr_previous (the (pl_slots p ! x)),
              pm_free_count := pm_free_count ?m - 1\<rparr>"] exI [of _ fs])
        (auto simp: pool_available_def pool_allocate_def Let_def)
  qed
qed

lemma pool_push_full:
  assumes "pool_inv p sts" "i < length sts"
    and "m \<le> length (frames_of p (sts ! i)) \<or> pool_available p = 0"
  shows "pool_push (p, sts ! i) k m = (Raise Fault_Frames, p, sts ! i)"
proof -
  from assms(1) obtain free links where "linked (pl_slots p) (pm_free_head (pl_meta p)) free"
    "pm_free_count (pl_meta p) = length free"
    "mset (free @ concat links) = mset [0..<pm_next_unused (pl_meta p)]"
    "length (pl_slots p) \<le> u32_max" "pm_next_unused (pl_meta p) \<le> length (pl_slots p)"
    by (rule pool_invE)
  from pool_allocate_spec(1) [OF this] show ?thesis
    using assms(3) pool_inv_depth [OF assms(1,2)] by (auto simp: pool_push_def)
qed

lemma distinct_upt_mset: "mset xs = mset [0..<n] \<Longrightarrow> distinct xs"
  using mset_eq_imp_distinct_iff by fastforce

lemma pool_push_room:
  assumes inv: "pool_inv p sts" and i: "i < length sts"
    and room: "length (frames_of p (sts ! i)) < m" "0 < pool_available p"
  shows "\<exists>p' st'. pool_push (p, sts ! i) k m = (Return (), p', st') \<and>
    pool_inv p' (sts[i := st']) \<and> frames_of p' st' = k # frames_of p (sts ! i) \<and>
    pool_available p' = pool_available p - 1 \<and> length (pl_slots p') = length (pl_slots p) \<and>
    (\<forall>j < length sts. j \<noteq> i \<longrightarrow> frames_of p' (sts ! j) = frames_of p (sts ! j))"
proof -
  from inv obtain free links where free: "linked (pl_slots p) (pm_free_head (pl_meta p)) free"
    "pm_free_count (pl_meta p) = length free"
    "mset (free @ concat links) = mset [0..<pm_next_unused (pl_meta p)]"
    "length (pl_slots p) \<le> u32_max" "pm_next_unused (pl_meta p) \<le> length (pl_slots p)"
    and links: "list_all2 (stack_links p) sts links" "length links = length sts"
    by (rule pool_invE)
  from pool_allocate_spec(2) [OF free room(2)] obtain x mt free' where
    alloc: "pool_allocate p = (Return x, p\<lparr>pl_meta := mt\<rparr>)" and x: "x < length (pl_slots p)"
    and free': "linked (pl_slots p) (pm_free_head mt) free'" "pm_free_count mt = length free'"
    "mset (x # free' @ concat links) = mset [0..<pm_next_unused mt]"
    "pm_next_unused mt \<le> length (pl_slots p)"
    and avail: "pool_available (p\<lparr>pl_meta := mt\<rparr>) = pool_available p - 1"
    by blast
  define f where "f = \<lparr>fr_kind = k, fr_previous = st_top (sts ! i)\<rparr>"
  define p' where "p' = p\<lparr>pl_meta := mt, pl_slots := (pl_slots p)[x := Some f]\<rparr>"
  define st' where "st' = \<lparr>st_top = x, st_depth = st_depth (sts ! i) + 1\<rparr>"
  have "distinct (x # free' @ concat links)" using distinct_upt_mset [OF free'(3)] .
  then have new: "x \<notin> set free'" "x \<notin> set (concat (links[i := links ! i]))"
    and new_i: "x \<notin> set (links ! i)"
    using i links(2) by auto
  have st: "stack_links p (sts ! i) (links ! i)" using links i by (simp add: list_all2_conv_all_nth)
  then have st'_links: "stack_links p' st' (x # links ! i)"
    using x new_i by (simp add: stack_links_def p'_def st'_def f_def linked_update)
  have slots: "pl_slots p' = (pl_slots p)[x := Some f]" by (simp add: p'_def)
  note wr = pool_write [OF links(1) i new(2) slots st'_links]
  have "pool_push (p, sts ! i) k m = (Return (), p', st')"
    using alloc x room(1) pool_inv_depth [OF inv i]
    by (simp add: pool_push_def p'_def st'_def f_def)
  moreover have "pool_inv p' (sts[i := st'])"
    unfolding pool_inv_def
  proof (intro conjI exI)
    show "length (pl_slots p') \<le> u32_max" using free(4) by (simp add: p'_def)
    show "pm_next_unused (pl_meta p') \<le> length (pl_slots p')" using free'(4) by (simp add: p'_def)
    show "linked (pl_slots p') (pm_free_head (pl_meta p')) free'"
      using free'(1) new(1) by (simp add: p'_def linked_update)
    show "pm_free_count (pl_meta p') = length free'" using free'(2) by (simp add: p'_def)
    show "list_all2 (stack_links p') (sts[i := st']) (links[i := x # links ! i])" by (rule wr(1))
    show "mset (free' @ concat (links[i := x # links ! i])) = mset [0..<pm_next_unused (pl_meta p')]"
      using free'(3) i links(2) by (simp add: p'_def mset_concat_update)
  qed
  moreover have "frames_of p' st' = k # frames_of p (sts ! i)"
  proof -
    have "map (\<lambda>j. fr_kind (the (pl_slots p' ! j))) (links ! i) =
        map (\<lambda>j. fr_kind (the (pl_slots p ! j))) (links ! i)"
      by (simp add: slots nth_update_outside [OF new_i])
    then show ?thesis
      using x by (simp add: frames_of_links [OF st'_links] frames_of_links [OF st])
        (simp add: slots f_def)
  qed
  moreover have "pool_available p' = pool_available p - 1"
    using avail by (simp add: pool_available_def p'_def)
  moreover have "length (pl_slots p') = length (pl_slots p)" by (simp add: p'_def)
  ultimately show ?thesis using wr(2) by blast
qed

lemma pool_pop_empty:
  "pool_inv p sts \<Longrightarrow> i < length sts \<Longrightarrow> frames_of p (sts ! i) = [] \<Longrightarrow>
   pool_pop (p, sts ! i) = (Return None, p, sts ! i)"
  by (simp add: pool_pop_def pool_inv_depth)

text \<open>What a pop does to the slot \<open>x\<close> it takes from stack \<open>i\<close>, in either of its two branches.\<close>

lemma pool_pop_top:
  assumes inv: "pool_inv p sts" and i: "i < length sts" and top: "frames_of p (sts ! i) = k # ks"
  shows "\<exists>p' st'. pool_pop (p, sts ! i) = (Return (Some k), p', st') \<and>
    pool_inv p' (sts[i := st']) \<and> frames_of p' st' = ks \<and>
    pool_available p' = pool_available p + 1 \<and> length (pl_slots p') = length (pl_slots p) \<and>
    (\<forall>j < length sts. j \<noteq> i \<longrightarrow> frames_of p' (sts ! j) = frames_of p (sts ! j))"
proof -
  let ?m = "pl_meta p"
  from inv obtain free links where free: "linked (pl_slots p) (pm_free_head ?m) free"
    "pm_free_count ?m = length free"
    "mset (free @ concat links) = mset [0..<pm_next_unused ?m]"
    "length (pl_slots p) \<le> u32_max" "pm_next_unused ?m \<le> length (pl_slots p)"
    and links: "list_all2 (stack_links p) sts links" "length links = length sts"
    by (rule pool_invE)
  have st: "stack_links p (sts ! i) (links ! i)" using links i by (simp add: list_all2_conv_all_nth)
  obtain x xs where x: "links ! i = x # xs" "k = fr_kind (the (pl_slots p ! x))"
    "ks = map (\<lambda>j. fr_kind (the (pl_slots p ! j))) xs"
    using top frames_of_links [OF st] by (cases "links ! i") auto
  define links' where "links' = links[i := xs]"
  have upd: "links'[i := xs] = links'" "links[i := xs] = links'" by (simp_all add: links'_def)
  have m: "mset (x # free @ concat links') = mset [0..<pm_next_unused ?m]"
    using free(3) mset_concat_update [of i links x xs] i links(2) x(1)
    by (simp add: links'_def list_update_same_conv [THEN iffD2])
  then have "distinct (x # free @ concat links')" by (rule distinct_upt_mset)
  then have new: "x \<notin> set free" "x \<notin> set (concat (links[i := xs]))" by (simp_all add: upd)
  have "xs \<in> set links'" using i links(2) by (simp add: links'_def set_update_memI)
  with new(2) have new_i: "x \<notin> set xs" by (auto simp: upd)
  have x_less: "x < pm_next_unused ?m" using arg_cong [OF m, of set_mset] by auto
  obtain f where f: "pl_slots p ! x = Some f" "st_top (sts ! i) = x" "x < length (pl_slots p)"
    "linked (pl_slots p) (fr_previous f) xs" "st_depth (sts ! i) = Suc (length xs)"
    using st x(1) by (auto simp: stack_links_def)
  define st' where "st' = \<lparr>st_top = fr_previous f, st_depth = length xs\<rparr>"
  define last where "last \<longleftrightarrow> x + 1 = pm_next_unused ?m"
  define mt where "mt = (if last then ?m\<lparr>pm_next_unused := pm_next_unused ?m - 1\<rparr>
      else ?m\<lparr>pm_free_head := x, pm_free_count := pm_free_count ?m + 1\<rparr>)"
  define g where "g = (if last then None
      else Some \<lparr>fr_kind = (K_Vacant :: ('a, 'b) frame_kind), fr_previous = pm_free_head ?m\<rparr>)"
  define p' where "p' = p\<lparr>pl_slots := (pl_slots p)[x := g], pl_meta := mt\<rparr>"
  define free' where "free' = (if last then free else x # free)"
  have slots: "pl_slots p' = (pl_slots p)[x := g]" by (simp add: p'_def)
  have st'_links: "stack_links p' st' xs"
    using f(4) new_i by (simp add: stack_links_def st'_def slots linked_update)
  note wr = pool_write [OF links(1) i new(2) slots st'_links]
  have "pool_pop (p, sts ! i) = (Return (Some k), p', st')"
    using f x(2) by (simp add: pool_pop_def Let_def p'_def g_def mt_def st'_def last_def)
  moreover have "pool_inv p' (sts[i := st'])"
    unfolding pool_inv_def
  proof (intro conjI exI)
    show "length (pl_slots p') \<le> u32_max" using free(4) by (simp add: p'_def)
    show "pm_next_unused (pl_meta p') \<le> length (pl_slots p')"
      using free(5) by (auto simp: p'_def mt_def)
    show "linked (pl_slots p') (pm_free_head (pl_meta p')) free'"
      using free(1) new(1) f(3)
      by (cases last) (simp_all add: p'_def mt_def free'_def g_def linked_update)
    show "pm_free_count (pl_meta p') = length free'"
      using free(2) by (simp add: p'_def mt_def free'_def)
    show "list_all2 (stack_links p') (sts[i := st']) (links[i := xs])" by (rule wr(1))
    show "mset (free' @ concat (links[i := xs])) = mset [0..<pm_next_unused (pl_meta p')]"
    proof (cases last)
      case True
      then have "pm_next_unused ?m = Suc x" by (simp add: last_def)
      with m True show ?thesis by (simp add: upd p'_def mt_def free'_def)
    qed (use m in \<open>simp add: upd p'_def mt_def free'_def\<close>)
  qed
  moreover have "frames_of p' st' = ks"
    by (simp add: frames_of_links [OF st'_links] slots x(3) nth_update_outside [OF new_i])
  moreover have "pool_available p' = pool_available p + 1"
    using free(5) x_less by (auto simp: pool_available_def p'_def mt_def)
  moreover have "length (pl_slots p') = length (pl_slots p)" by (simp add: p'_def)
  ultimately show ?thesis using wr(2) by blast
qed

text \<open>Every slot is available or holds one frame of one stack.\<close>

lemma pool_inv_used:
  assumes "pool_inv p sts"
  shows "pool_available p + (\<Sum>st\<leftarrow>sts. length (frames_of p st)) = length (pl_slots p)"
proof -
  from assms obtain free links where free: "pm_free_count (pl_meta p) = length free"
    "mset (free @ concat links) = mset [0..<pm_next_unused (pl_meta p)]"
    "pm_next_unused (pl_meta p) \<le> length (pl_slots p)"
    and links: "list_all2 (stack_links p) sts links"
    by (rule pool_invE)
  have "map (\<lambda>st. length (frames_of p st)) sts = map length links"
    using links frames_of_links by (induction rule: list_all2_induct) (fastforce)+
  then have "(\<Sum>st\<leftarrow>sts. length (frames_of p st)) = length (concat links)"
    by (simp add: length_concat)
  moreover have "length free + length (concat links) = pm_next_unused (pl_meta p)"
    using arg_cong [OF free(2), of size] by simp
  ultimately show ?thesis using free(1,3) by (simp add: pool_available_def)
qed

lemma pool_check_iff:
  assumes inv: "pool_inv p sts" and i: "i < length sts" and n: "n \<le> u32_max"
  shows "pool_check p (sts ! i) n m =
    (if length (frames_of p (sts ! i)) + n \<le> m \<and> n \<le> pool_available p then Return ()
     else Raise Fault_Frames)"
proof -
  have len: "pm_next_unused (pl_meta p) \<le> length (pl_slots p)" "length (pl_slots p) \<le> u32_max"
    using inv by (simp_all add: pool_inv_def)
  have "length (frames_of p (sts ! i)) \<le> (\<Sum>st\<leftarrow>sts. length (frames_of p st))"
    using i by (intro member_le_sum_list) auto
  then have "length (frames_of p (sts ! i)) + n \<le> usize_max"
    using pool_inv_used [OF inv] len(2) n by (simp add: u32_max_def usize_max_def)
  then show ?thesis
    using len(1) pool_inv_depth [OF inv i]
    by (auto simp: pool_check_def checked_add_def Let_def pool_available_def)
qed

lemma pool_new_inv:
  "length slots \<le> u32_max \<Longrightarrow> pool_inv (pool_new slots) (replicate n stack_default)"
  "pool_available (pool_new slots) = length slots"
proof -
  show "pool_inv (pool_new slots) (replicate n stack_default)" if "length slots \<le> u32_max"
    unfolding pool_inv_def
    by (intro conjI exI [of _ "[]"] exI [of _ "replicate n []"])
      (use that in \<open>auto simp: pool_new_def pool_meta_default_def stack_default_def stack_links_def
        list_all2_conv_all_nth\<close>)
  show "pool_available (pool_new slots) = length slots"
    by (simp add: pool_available_def pool_new_def pool_meta_default_def)
qed

section \<open>The interface the machine relies on\<close>

text \<open>
  Calls on a family of stacks, and what independent lists sharing a capacity would answer.
\<close>

datatype 'k stack_call = Call_push nat 'k | Call_pop nat

datatype 'k stack_answer =
    Answer_push "(unit, fault) comp"
  | Answer_pop "('k option, fault) comp"

fun call_stack :: "'k stack_call \<Rightarrow> nat" where
  "call_stack (Call_push i k) = i"
| "call_stack (Call_pop i) = i"

fun lists_call :: "nat \<Rightarrow> nat \<Rightarrow> 'k stack_call \<Rightarrow> 'k list list \<Rightarrow> 'k stack_answer \<times> 'k list list" where
  "lists_call cap m (Call_push i k) xss =
     (if m \<le> length (xss ! i) \<or> cap \<le> (\<Sum>xs\<leftarrow>xss. length xs)
      then (Answer_push (Raise Fault_Frames), xss)
      else (Answer_push (Return ()), xss[i := k # xss ! i]))"
| "lists_call cap m (Call_pop i) xss =
     (case xss ! i of
        [] \<Rightarrow> (Answer_pop (Return None), xss)
      | k # ks \<Rightarrow> (Answer_pop (Return (Some k)), xss[i := ks]))"

fun run_stacks :: "('c \<Rightarrow> 's \<Rightarrow> 'a \<times> 's) \<Rightarrow> 'c list \<Rightarrow> 's \<Rightarrow> 'a list \<times> 's" where
  "run_stacks f [] s = ([], s)"
| "run_stacks f (c # cs) s =
     (let (a, s') = f c s; (as, s'') = run_stacks f cs s' in (a # as, s''))"

locale frame_store =
  fixes inv :: "'p \<Rightarrow> 's list \<Rightarrow> bool"
    and frames :: "'p \<Rightarrow> 's \<Rightarrow> 'k list"
    and room :: "'p \<Rightarrow> nat"
    and capacity :: "'p \<Rightarrow> nat"
    and push :: "'p \<times> 's \<Rightarrow> 'k \<Rightarrow> nat \<Rightarrow> (unit, fault) comp \<times> 'p \<times> 's"
    and pop :: "'p \<times> 's \<Rightarrow> ('k option, fault) comp \<times> 'p \<times> 's"
    and check :: "'p \<Rightarrow> 's \<Rightarrow> nat \<Rightarrow> nat \<Rightarrow> (unit, fault) comp"
  assumes push_full: "inv p sts \<Longrightarrow> i < length sts \<Longrightarrow> m \<le> length (frames p (sts ! i)) \<or> room p = 0 \<Longrightarrow>
      push (p, sts ! i) k m = (Raise Fault_Frames, p, sts ! i)"
    and push_room: "inv p sts \<Longrightarrow> i < length sts \<Longrightarrow> length (frames p (sts ! i)) < m \<Longrightarrow> 0 < room p \<Longrightarrow>
      \<exists>p' st'. push (p, sts ! i) k m = (Return (), p', st') \<and> inv p' (sts[i := st']) \<and>
        frames p' st' = k # frames p (sts ! i) \<and> room p' = room p - 1 \<and>
        capacity p' = capacity p \<and>
        (\<forall>j < length sts. j \<noteq> i \<longrightarrow> frames p' (sts ! j) = frames p (sts ! j))"
    and pop_empty: "inv p sts \<Longrightarrow> i < length sts \<Longrightarrow> frames p (sts ! i) = [] \<Longrightarrow>
      pop (p, sts ! i) = (Return None, p, sts ! i)"
    and pop_top: "inv p sts \<Longrightarrow> i < length sts \<Longrightarrow> frames p (sts ! i) = k # ks \<Longrightarrow>
      \<exists>p' st'. pop (p, sts ! i) = (Return (Some k), p', st') \<and> inv p' (sts[i := st']) \<and>
        frames p' st' = ks \<and> room p' = room p + 1 \<and> capacity p' = capacity p \<and>
        (\<forall>j < length sts. j \<noteq> i \<longrightarrow> frames p' (sts ! j) = frames p (sts ! j))"
    and check_iff: "inv p sts \<Longrightarrow> i < length sts \<Longrightarrow> n \<le> u32_max \<Longrightarrow>
      check p (sts ! i) n m =
        (if length (frames p (sts ! i)) + n \<le> m \<and> n \<le> room p then Return ()
         else Raise Fault_Frames)"
    and used: "inv p sts \<Longrightarrow> room p + (\<Sum>st\<leftarrow>sts. length (frames p st)) = capacity p"
begin

text \<open>Pushing several frames in a row: a passed \<open>check\<close> is enough.\<close>

fun push_all :: "'p \<times> 's \<Rightarrow> 'k list \<Rightarrow> nat \<Rightarrow> (unit, fault) comp \<times> 'p \<times> 's" where
  "push_all ps [] m = (Return (), ps)"
| "push_all ps (k # ks) m = and_then (push ps k m) (\<lambda>_ ps. push_all ps ks m)"

lemma push_all_room:
  assumes "inv p sts" "i < length sts" "length (frames p (sts ! i)) + length ks \<le> m"
    and "length ks \<le> room p"
  shows "\<exists>p' st'. push_all (p, sts ! i) ks m = (Return (), p', st') \<and> inv p' (sts[i := st']) \<and>
    frames p' st' = rev ks @ frames p (sts ! i) \<and>
    (\<forall>j < length sts. j \<noteq> i \<longrightarrow> frames p' (sts ! j) = frames p (sts ! j))"
  using assms
proof (induction ks arbitrary: p sts)
  case (Cons k ks)
  from push_room [OF Cons.prems(1,2), of m k] Cons.prems(3,4) obtain q st where q:
    "push (p, sts ! i) k m = (Return (), q, st)" "inv q (sts[i := st])"
    "frames q st = k # frames p (sts ! i)" "room q = room p - 1"
    "\<forall>j < length sts. j \<noteq> i \<longrightarrow> frames q (sts ! j) = frames p (sts ! j)"
    by auto
  have "length (frames q (sts[i := st] ! i)) + length ks \<le> m" "length ks \<le> room q"
    using q Cons.prems by simp_all
  from Cons.IH [OF q(2) _ this] Cons.prems(2) obtain p' st' where
    "push_all (q, st) ks m = (Return (), p', st')" "inv p' (sts[i := st'])"
    "frames p' st' = rev ks @ frames q st"
    "\<forall>j < length sts. j \<noteq> i \<longrightarrow> frames p' (sts ! j) = frames q (sts ! j)"
    by auto
  then show ?case using q by (intro exI [of _ p'] exI [of _ st']) simp
qed (auto simp: list_update_same_conv)

lemma check_then_push_all:
  assumes "inv p sts" "i < length sts" "length ks \<le> u32_max"
    and "check p (sts ! i) (length ks) m = Return ()"
  shows "\<exists>p' st'. push_all (p, sts ! i) ks m = (Return (), p', st') \<and> inv p' (sts[i := st']) \<and>
    frames p' st' = rev ks @ frames p (sts ! i)"
proof -
  have "length (frames p (sts ! i)) + length ks \<le> m" "length ks \<le> room p"
    using check_iff [OF assms(1-3), of m] assms(4) by (auto split: if_splits)
  from push_all_room [OF assms(1,2) this] show ?thesis by blast
qed

text \<open>A frame just popped leaves room for one: a frame can always be replaced.\<close>

lemma pop_then_push:
  assumes inv: "inv p sts" "i < length sts" and top: "frames p (sts ! i) = k # ks"
    and m: "length (frames p (sts ! i)) \<le> m"
  shows "\<exists>q st p' st'. pop (p, sts ! i) = (Return (Some k), q, st) \<and>
    push (q, st) k' m = (Return (), p', st') \<and> inv p' (sts[i := st']) \<and> frames p' st' = k' # ks"
proof -
  from pop_top [OF inv top] obtain q st where q: "pop (p, sts ! i) = (Return (Some k), q, st)"
    "inv q (sts[i := st])" "frames q st = ks" "room q = room p + 1"
    by blast
  have "length (frames q (sts[i := st] ! i)) < m" "0 < room q" using q inv(2) top m by simp_all
  from push_room [OF q(2) _ this, of k'] inv(2) obtain p' st' where
    "push (q, st) k' m = (Return (), p', st')" "inv p' (sts[i := st'])" "frames p' st' = k' # ks"
    by (auto simp: q(3))
  then show ?thesis using q(1) by blast
qed

fun call :: "nat \<Rightarrow> 'k stack_call \<Rightarrow> 'p \<times> 's list \<Rightarrow> 'k stack_answer \<times> 'p \<times> 's list" where
  "call m (Call_push i k) (p, sts) =
     (let (r, p', st') = push (p, sts ! i) k m in (Answer_push r, p', sts[i := st']))"
| "call m (Call_pop i) (p, sts) =
     (let (r, p', st') = pop (p, sts ! i) in (Answer_pop r, p', sts[i := st']))"

lemma map_frames_update:
  assumes "i < length sts"
    and "\<forall>j < length sts. j \<noteq> i \<longrightarrow> frames p' (sts ! j) = frames p (sts ! j)"
  shows "map (frames p') (sts[i := st']) = (map (frames p) sts)[i := frames p' st']"
  using assms by (intro nth_equalityI) (auto simp: nth_list_update)

lemma call_simulates:
  assumes inv: "inv p sts" and i: "call_stack c < length sts"
  obtains a p' sts' where "call m c (p, sts) = (a, p', sts')"
    "lists_call (capacity p) m c (map (frames p) sts) = (a, map (frames p') sts')"
    "inv p' sts'" "capacity p' = capacity p" "length sts' = length sts"
proof (cases c)
  case (Call_push i k)
  have len: "i < length sts" using i Call_push by simp
  have sum: "capacity p \<le> (\<Sum>xs\<leftarrow>map (frames p) sts. length xs) \<longleftrightarrow> room p = 0"
    using used [OF inv] by (auto simp: comp_def)
  show thesis
  proof (cases "m \<le> length (frames p (sts ! i)) \<or> room p = 0")
    case True
    then show thesis
      using that [of _ p sts] push_full [OF inv len True] inv len Call_push sum
      by (simp add: list_update_same_conv)
  next
    case False
    then obtain p' st' where "push (p, sts ! i) k m = (Return (), p', st')"
      "inv p' (sts[i := st'])" "frames p' st' = k # frames p (sts ! i)"
      "capacity p' = capacity p"
      "\<forall>j < length sts. j \<noteq> i \<longrightarrow> frames p' (sts ! j) = frames p (sts ! j)"
      using push_room [OF inv len, of m k] by auto
    then show thesis
      using that [of _ p' "sts[i := st']"] False len Call_push sum
        map_frames_update [of i sts p' p st'] by simp
  qed
next
  case (Call_pop i)
  have len: "i < length sts" using i Call_pop by simp
  show thesis
  proof (cases "frames p (sts ! i)")
    case Nil
    then show thesis
      using that [of _ p sts] pop_empty [OF inv len Nil] inv len Call_pop
      by (simp add: list_update_same_conv)
  next
    case (Cons k ks)
    with pop_top [OF inv len Cons] obtain p' st' where
      "pop (p, sts ! i) = (Return (Some k), p', st')" "inv p' (sts[i := st'])"
      "frames p' st' = ks" "capacity p' = capacity p"
      "\<forall>j < length sts. j \<noteq> i \<longrightarrow> frames p' (sts ! j) = frames p (sts ! j)"
      by auto
    then show thesis
      using that [of _ p' "sts[i := st']"] len Call_pop Cons map_frames_update [of i sts p' p st']
      by simp
  qed
qed

lemma calls_simulate:
  "inv p sts \<Longrightarrow> list_all (\<lambda>c. call_stack c < length sts) cs \<Longrightarrow>
   fst (run_stacks (call m) cs (p, sts)) =
     fst (run_stacks (lists_call (capacity p) m) cs (map (frames p) sts))"
proof (induction cs arbitrary: p sts)
  case (Cons c cs)
  then have "call_stack c < length sts" by simp
  from call_simulates [OF Cons.prems(1) this, of m] obtain a p' sts' where
    "call m c (p, sts) = (a, p', sts')"
    "lists_call (capacity p) m c (map (frames p) sts) = (a, map (frames p') sts')"
    "inv p' sts'" "capacity p' = capacity p" "length sts' = length sts"
    by metis
  then show ?case using Cons by (simp add: case_prod_beta)
qed simp

end

interpretation frames: frame_store pool_inv frames_of pool_available "\<lambda>p. length (pl_slots p)"
  pool_push pool_pop pool_check
  by unfold_locales
    (rule pool_push_full pool_push_room pool_pop_empty pool_pop_top pool_check_iff pool_inv_used;
     assumption)+

section \<open>Property\<close>

fun pool_call :: "nat \<Rightarrow> ('v, 'e) frame_kind stack_call \<Rightarrow> ('v, 'e) pool \<times> stack list \<Rightarrow>
    ('v, 'e) frame_kind stack_answer \<times> ('v, 'e) pool \<times> stack list" where
  "pool_call m (Call_push i k) (p, sts) =
     (let (r, p', st') = pool_push (p, sts ! i) k m in (Answer_push r, p', sts[i := st']))"
| "pool_call m (Call_pop i) (p, sts) =
     (let (r, p', st') = pool_pop (p, sts ! i) in (Answer_pop r, p', sts[i := st']))"

lemma pool_call_frames: "pool_call = frames.call"
proof (intro ext)
  fix m and c :: "('v, 'e) frame_kind stack_call" and s :: "('v, 'e) pool \<times> stack list"
  show "pool_call m c s = frames.call m c s" by (cases c; cases s) simp_all
qed

lemma frames_of_default [simp]: "frames_of p stack_default = []"
  by (simp add: stack_default_def)

text \<open>
  C38: however pushes and pops of different stacks are interleaved, the linked pool answers like
  independent lists that share its capacity: each pop returns the last frame pushed on that stack,
  a push is refused exactly at the depth limit or when the slots are used up, and no call panics
  or meets an inconsistent link.
\<close>

theorem frame_pool_refines_stacks:
  assumes "length slots \<le> u32_max" "list_all (\<lambda>c. call_stack c < n) calls"
  shows "fst (run_stacks (pool_call m) calls (pool_new slots, replicate n stack_default)) =
    fst (run_stacks (lists_call (length slots) m) calls (replicate n []))"
  using frames.calls_simulate [OF pool_new_inv(1) [OF assms(1)], of n calls m] assms(2)
  by (simp add: pool_call_frames pool_new_def)

theorem frame_pool_refines_stacks_witness:
  "fst (run_stacks (pool_call 4) [Call_push 0 (K_Finish 1), Call_push 1 (K_Then 2),
      Call_pop 0, Call_push 1 (K_Catch 3), Call_pop 1, Call_pop 1, Call_pop 0]
    (pool_new [None, None] :: (unit, unit) pool, replicate 2 stack_default)) =
   [Answer_push (Return ()), Answer_push (Return ()), Answer_pop (Return (Some (K_Finish 1))),
    Answer_push (Return ()), Answer_pop (Return (Some (K_Catch 3))),
    Answer_pop (Return (Some (K_Then 2))), Answer_pop (Return None)]"
proof -
  have small: "length [None, None] \<le> u32_max" by (simp add: u32_max_def)
  show ?thesis
    by (subst frame_pool_refines_stacks [OF small]) (simp_all add: numeral_2_eq_2)
qed

end
