(* ===== verification/Machine.thy ===== *)
theory Machine
  imports Frame_Pool
begin

text \<open>
  The execution machine of \<open>xolotl-core/src/machine.rs\<close> and \<open>machine/references.rs\<close>: tasks over
  shared frame and binding storage, the cooperative scheduler, structured concurrency,
  cancellation with bounded cleanup, host events, inspection, suspension and resumption.

  A task index out of range, an underflow or a loop that does not end is the outcome \<open>Panic\<close>.
  Methods that do not index a task before changing it (\<open>start\<close>, \<open>set_state\<close>) are called on an index
  their caller has just read.
\<close>

section \<open>Data\<close>

record limits =
  lm_frames_per_task :: usize
  lm_bindings_per_task :: usize
  lm_max_steps :: "u64 option"
  lm_cleanup_steps :: u64

definition limits_default :: limits where
  "limits_default = \<lparr>lm_frames_per_task = 64, lm_bindings_per_task = 64, lm_max_steps = None,
     lm_cleanup_steps = 4096\<rparr>"

record join_state =
  js_left :: usize
  js_right :: usize
  js_join :: join
  js_node :: u32

datatype ('v, 'e) state =
    S_Free
  | S_Ready
  | S_Waiting u64 u32
  | S_Joining join_state
  | S_Returning "('v, 'e) result"
  | S_Done "('v, 'e) result"
  | S_Halted "('v, 'e) result" "join_state option"

fun terminal_result :: "('v, 'e) state \<Rightarrow> ('v, 'e) result option" where
  "terminal_result (S_Done r) = Some r"
| "terminal_result (S_Halted r _) = Some r"
| "terminal_result _ = None"

fun state_join :: "('v, 'e) state \<Rightarrow> join_state option" where
  "state_join (S_Joining j) = Some j"
| "state_join (S_Halted _ j) = j"
| "state_join _ = None"

fun is_done :: "('v, 'e) state \<Rightarrow> bool" where
  "is_done (S_Done _) = True"
| "is_done _ = False"

fun is_free :: "('v, 'e) state \<Rightarrow> bool" where
  "is_free S_Free = True"
| "is_free _ = False"

record ('v, 'e) task =
  tk_state :: "('v, 'e) state"
  tk_pc :: u32
  tk_input :: "'v option"
  tk_stack :: stack
  tk_context :: u64
  tk_parent :: "usize option"
  tk_cleaning :: usize
  tk_cancelled :: bool

definition task_default :: "('v, 'e) task" where
  "task_default = \<lparr>tk_state = S_Free, tk_pc = 0, tk_input = None, tk_stack = stack_default,
     tk_context = 0, tk_parent = None, tk_cleaning = 0, tk_cancelled = False\<rparr>"

record 'v request =
  rq_task :: usize
  rq_ticket :: u64
  rq_import :: u32
  rq_input :: 'v
  rq_context :: u64
  rq_position :: u64
  rq_cleanup :: bool

datatype ('v, 'e) advance =
    A_Request "'v request"
  | A_Cancel usize u64
  | A_Yielded
  | A_Waiting
  | A_Done "('v, 'e) result"

datatype ('v, 'e) host_event =
    HE_Complete "('v, 'e) result"
  | HE_Enter u64
  | HE_Continue u32 'v

record ('v, 'e) exec =
  ex_tasks :: "('v, 'e) task list"
  ex_frames :: "('v, 'e) pool"
  ex_bindings :: "'v option list"
  ex_limits :: limits
  ex_steps :: u64
  ex_cleanup_steps :: u64
  ex_ticket :: u64
  ex_cursor :: usize
  ex_aborting :: bool
  ex_image_id :: "8 word list"

record suspended =
  su_task_count :: usize
  su_frame_count :: usize
  su_image_id :: "8 word list"
  su_limits :: limits
  su_frame_pool :: pool_meta
  su_steps :: u64
  su_cleanup_steps :: u64
  su_ticket :: u64
  su_cursor :: usize
  su_aborting :: bool

record ('v, 'e) exec_view =
  vw_meta :: suspended
  vw_tasks :: "('v, 'e) task list"
  vw_frames :: "('v, 'e) frame option list"
  vw_bindings :: "'v option list"

section \<open>Inspection\<close>

definition view_result :: "('v, 'e) exec_view \<Rightarrow> ('v, 'e) result option" where
  "view_result w =
     (case vw_tasks w of [] \<Rightarrow> None | t # _ \<Rightarrow> terminal_result (tk_state t))"

definition pending_tickets :: "('v, 'e) exec_view \<Rightarrow> u64 list" where
  "pending_tickets w =
     List.map_filter (\<lambda>t. case tk_state t of S_Waiting k _ \<Rightarrow> Some k | _ \<Rightarrow> None) (vw_tasks w)"

definition view_contexts :: "('v, 'e) exec_view \<Rightarrow> u64 list" where
  "view_contexts w =
     map tk_context (filter (\<lambda>t. \<not> is_free (tk_state t)) (vw_tasks w)) @
     List.map_filter (\<lambda>f. Option.bind f saved_context) (vw_frames w)"

definition pending_request ::
  "('v, 'e) image \<Rightarrow> nat \<times> ('v, 'e) task \<Rightarrow> 'v request option" where
  "pending_request img = (\<lambda>(i, t).
     case tk_state t of
       S_Waiting ticket node \<Rightarrow>
         (case image_node img node of
            Err _ \<Rightarrow> None
          | Ok n \<Rightarrow>
              Option.bind (case nd_kind n of N_Request im \<Rightarrow> Some im | N_Scope im _ \<Rightarrow> Some im | _ \<Rightarrow> None)
                (\<lambda>im. map_option
                  (\<lambda>v. \<lparr>rq_task = i, rq_ticket = ticket, rq_import = im, rq_input = v,
                        rq_context = tk_context t, rq_position = nd_position n,
                        rq_cleanup = 0 < tk_cleaning t\<rparr>)
                  (tk_input t)))
     | _ \<Rightarrow> None)"

definition pending_requests :: "('v, 'e) image \<Rightarrow> ('v, 'e) task list \<Rightarrow> 'v request list" where
  "pending_requests img tasks = List.map_filter (pending_request img) (enumerate 0 tasks)"

fun task_index :: "('v, 'e) task \<Rightarrow> u32 option" where
  "task_index t =
     (case tk_state t of
        S_Ready \<Rightarrow> Some (tk_pc t)
      | S_Waiting _ node \<Rightarrow> Some node
      | S_Joining j \<Rightarrow> Some (js_node j)
      | S_Halted _ (Some j) \<Rightarrow> Some (js_node j)
      | _ \<Rightarrow> None)"

fun frame_indices :: "('v, 'e) frame_kind \<Rightarrow> u32 list" where
  "frame_indices (K_Continuation node entry) = [node, entry]"
| "frame_indices (K_Finish node) = [node]"
| "frame_indices (K_Then node) = [node]"
| "frame_indices (K_Catch node) = [node]"
| "frame_indices (K_Finally cleanup _) = [cleanup]"
| "frame_indices (K_Bind _ body) = [body]"
| "frame_indices (K_Condition condition body _ _) = [condition, body]"
| "frame_indices (K_Iteration condition body _) = [condition, body]"
| "frame_indices (K_Choose yes no _) = [yes, no]"
| "frame_indices _ = []"

definition instruction_indices :: "('v, 'e) exec_view \<Rightarrow> u32 list" where
  "instruction_indices w =
     List.map_filter task_index (vw_tasks w) @
     concat (map (\<lambda>f. case f of None \<Rightarrow> [] | Some f \<Rightarrow> frame_indices (fr_kind f)) (vw_frames w))"

definition continuations :: "('v, 'e) frame option list \<Rightarrow> (u32 \<times> u32) list" where
  "continuations frames =
     List.map_filter
       (\<lambda>f. case f of
          Some f \<Rightarrow> (case fr_kind f of K_Continuation node entry \<Rightarrow> Some (node, entry) | _ \<Rightarrow> None)
        | None \<Rightarrow> None)
       frames"

section \<open>Construction, suspension and resumption\<close>

definition exec_new ::
  "('v, 'e) image \<Rightarrow> ('v, 'e) task list \<Rightarrow> ('v, 'e) frame option list \<Rightarrow> 'v option list \<Rightarrow>
   limits \<Rightarrow> 'v \<Rightarrow> u64 \<Rightarrow> (('v, 'e) exec, fault) result" where
  "exec_new img tasks frames bindings lim input context =
     bind_result (validate img) (\<lambda>_.
       if tasks = [] \<or> u32_max < length tasks then Err Fault_Tasks
       else if u32_max < length frames then Err Fault_Frames
       else if lm_bindings_per_task lim < img_bindings img \<or>
               length bindings div length tasks < lm_bindings_per_task lim
       then Err Fault_InvalidBinding
       else Ok
         \<lparr>ex_tasks = (map (\<lambda>_. task_default) tasks)
            [0 := task_default\<lparr>tk_state := S_Ready, tk_pc := img_entry img, tk_input := Some input,
                               tk_context := context\<rparr>],
          ex_frames = pool_new frames,
          ex_bindings = map (\<lambda>_. None) bindings,
          ex_limits = lim, ex_steps = 0, ex_cleanup_steps = 0, ex_ticket = 0, ex_cursor = 0,
          ex_aborting = False, ex_image_id = img_id img\<rparr>)"

definition exec_view_of :: "('v, 'e) exec \<Rightarrow> ('v, 'e) exec_view" where
  "exec_view_of e =
     \<lparr>vw_meta = \<lparr>su_task_count = length (ex_tasks e), su_frame_count = length (pl_slots (ex_frames e)),
                 su_image_id = ex_image_id e, su_limits = ex_limits e,
                 su_frame_pool = pl_meta (ex_frames e), su_steps = ex_steps e,
                 su_cleanup_steps = ex_cleanup_steps e, su_ticket = ex_ticket e,
                 su_cursor = ex_cursor e, su_aborting = ex_aborting e\<rparr>,
      vw_tasks = ex_tasks e, vw_frames = pl_slots (ex_frames e), vw_bindings = ex_bindings e\<rparr>"

definition suspend :: "('v, 'e) exec \<Rightarrow> suspended" where
  "suspend e = vw_meta (exec_view_of e)"

definition from_view ::
  "suspended \<Rightarrow> ('v, 'e) task list \<Rightarrow> ('v, 'e) frame option list \<Rightarrow> 'v option list \<Rightarrow> ('v, 'e) exec" where
  "from_view m tasks frames bindings =
     \<lparr>ex_tasks = tasks, ex_frames = \<lparr>pl_slots = frames, pl_meta = su_frame_pool m\<rparr>,
      ex_bindings = bindings, ex_limits = su_limits m, ex_steps = su_steps m,
      ex_cleanup_steps = su_cleanup_steps m, ex_ticket = su_ticket m, ex_cursor = su_cursor m,
      ex_aborting = su_aborting m, ex_image_id = su_image_id m\<rparr>"

text \<open>\<open>bindings.len() / tasks.len()\<close> panics for no tasks.\<close>

definition resume ::
  "('v, 'e) image \<Rightarrow> suspended \<Rightarrow> ('v, 'e) task list \<Rightarrow> ('v, 'e) frame option list \<Rightarrow> 'v option list \<Rightarrow>
   (('v, 'e) exec, fault) comp" where
  "resume img m tasks frames bindings =
     (if img_id img \<noteq> su_image_id m then Raise Fault_ImageMismatch
      else if length tasks < su_task_count m \<or> u32_max < length tasks then Raise Fault_Tasks
      else if length frames < su_frame_count m \<or> u32_max < length frames then Raise Fault_Frames
      else if lm_bindings_per_task (su_limits m) < img_bindings img then Raise Fault_InvalidBinding
      else if tasks = [] then Panic
      else if length bindings div length tasks < lm_bindings_per_task (su_limits m)
      then Raise Fault_InvalidBinding
      else Return (from_view m tasks frames bindings))"

definition continuation_entries :: "('v, 'e) exec \<Rightarrow> u32 list" where
  "continuation_entries e = map snd (continuations (pl_slots (ex_frames e)))"

text \<open>\<open>fill_none\<close>: the range \<open>base .. base + n\<close> of a slice filled with \<open>None\<close>.\<close>

definition fill_none :: "'v option list \<Rightarrow> nat \<Rightarrow> nat \<Rightarrow> 'v option list" where
  "fill_none bs base n = take base bs @ replicate n None @ drop (base + n) bs"

fun clear_rows ::
  "'v option list \<Rightarrow> usize \<Rightarrow> usize \<Rightarrow> usize \<Rightarrow> nat list \<Rightarrow> (unit, fault) comp \<times> 'v option list" where
  "clear_rows bs stride start stop [] = (Return (), bs)"
| "clear_rows bs stride start stop (i # is) =
     (if length bs < i * stride + stop then (Panic, bs)
      else clear_rows (fill_none bs (i * stride + start) (stop - start)) stride start stop is)"

definition clear_bindings ::
  "('v, 'e) exec \<Rightarrow> usize \<Rightarrow> usize \<Rightarrow> (unit, fault) comp \<times> ('v, 'e) exec" where
  "clear_bindings e start stop =
     (if stop < start \<or> lm_bindings_per_task (ex_limits e) < stop
      then (Raise Fault_InvalidBinding, e)
      else if start = stop then (Return (), e)
      else let (r, bs) = clear_rows (ex_bindings e) (lm_bindings_per_task (ex_limits e)) start stop
                 [0..<length (ex_tasks e)]
           in (r, e\<lparr>ex_bindings := bs\<rparr>))"

definition is_pending :: "('v, 'e) exec \<Rightarrow> usize \<Rightarrow> u64 \<Rightarrow> (bool, fault) comp" where
  "is_pending e i ticket =
     (if ex_tasks e = [] then Panic
      else Return
        (terminal_result (tk_state (ex_tasks e ! 0)) = None \<and>
         (case get (ex_tasks e) i of
            Some t \<Rightarrow> (case tk_state t of S_Waiting live _ \<Rightarrow> live = ticket | _ \<Rightarrow> False)
          | None \<Rightarrow> False)))"

section \<open>Provenance and cancellation\<close>

definition retain_task :: "('v, 'e) vals \<Rightarrow> ('v, 'e) task \<Rightarrow> 'v \<Rightarrow> 'v" where
  "retain_task vs t control =
     (if is_free (tk_state t) then control
      else
        let control = (case tk_input t of
              Some input \<Rightarrow> v_influence vs control input | None \<Rightarrow> control)
        in (case tk_state t of
              S_Returning r \<Rightarrow> v_influence vs control (v_retain_result vs r)
            | S_Done r \<Rightarrow> v_influence vs control (v_retain_result vs r)
            | S_Halted r _ \<Rightarrow> v_influence vs control (v_retain_result vs r)
            | _ \<Rightarrow> control))"

fun retain_frame :: "('v, 'e) vals \<Rightarrow> ('v, 'e) frame_kind \<Rightarrow> 'v \<Rightarrow> 'v" where
  "retain_frame vs (K_Finally _ input) control = v_influence vs control input"
| "retain_frame vs (K_Choose _ _ input) control = v_influence vs control input"
| "retain_frame vs (K_Condition _ _ _ input) control = v_influence vs control input"
| "retain_frame vs (K_Cleaned r) control = v_influence vs control (v_retain_result vs r)"
| "retain_frame vs _ control = control"

definition retain_control :: "('v, 'e) vals \<Rightarrow> ('v, 'e) exec \<Rightarrow> 'v" where
  "retain_control vs e =
     fold (\<lambda>f control. case f of None \<Rightarrow> control | Some f \<Rightarrow> retain_frame vs (fr_kind f) control)
       (pl_slots (ex_frames e))
       (fold (retain_task vs) (ex_tasks e) (v_unit vs))"

fun cancel_skips :: "('v, 'e) state \<Rightarrow> bool" where
  "cancel_skips S_Free = True"
| "cancel_skips (S_Done _) = True"
| "cancel_skips (S_Halted _ _) = True"
| "cancel_skips _ = False"

definition cancel :: "('v, 'e) exec \<Rightarrow> (unit, fault) comp \<times> ('v, 'e) exec" where
  "cancel e =
     (if ex_tasks e = [] then (Panic, e)
      else if terminal_result (tk_state (ex_tasks e ! 0)) \<noteq> None then (Return (), e)
      else (Return (),
        e\<lparr>ex_aborting := True,
          ex_tasks := map (\<lambda>t. if cancel_skips (tk_state t) then t else t\<lparr>tk_cancelled := True\<rparr>)
            (ex_tasks e)\<rparr>))"

section \<open>Primitive steps\<close>

definition update_task ::
  "('v, 'e) exec \<Rightarrow> usize \<Rightarrow> (('v, 'e) task \<Rightarrow> ('v, 'e) task) \<Rightarrow> ('v, 'e) exec" where
  "update_task e i f = e\<lparr>ex_tasks := (ex_tasks e)[i := f (ex_tasks e ! i)]\<rparr>"

definition set_state :: "('v, 'e) exec \<Rightarrow> usize \<Rightarrow> ('v, 'e) state \<Rightarrow> ('v, 'e) exec" where
  "set_state e i s = update_task e i (\<lambda>t. t\<lparr>tk_state := s\<rparr>)"

definition set_input :: "('v, 'e) exec \<Rightarrow> usize \<Rightarrow> 'v option \<Rightarrow> ('v, 'e) exec" where
  "set_input e i v = update_task e i (\<lambda>t. t\<lparr>tk_input := v\<rparr>)"

definition exec_push ::
  "('v, 'e) exec \<Rightarrow> usize \<Rightarrow> ('v, 'e) frame_kind \<Rightarrow> (unit, fault) comp \<times> ('v, 'e) exec" where
  "exec_push e i k =
     (if length (ex_tasks e) \<le> i then (Panic, e)
      else let (r, p, st) = pool_push (ex_frames e, tk_stack (ex_tasks e ! i)) k
                 (lm_frames_per_task (ex_limits e))
           in (r, update_task (e\<lparr>ex_frames := p\<rparr>) i (\<lambda>t. t\<lparr>tk_stack := st\<rparr>)))"

definition exec_pop ::
  "('v, 'e) exec \<Rightarrow> usize \<Rightarrow> (('v, 'e) frame_kind option, fault) comp \<times> ('v, 'e) exec" where
  "exec_pop e i =
     (if length (ex_tasks e) \<le> i then (Panic, e)
      else let (r, p, st) = pool_pop (ex_frames e, tk_stack (ex_tasks e ! i))
           in (r, update_task (e\<lparr>ex_frames := p\<rparr>) i (\<lambda>t. t\<lparr>tk_stack := st\<rparr>)))"

definition exec_check ::
  "('v, 'e) exec \<Rightarrow> usize \<Rightarrow> usize \<Rightarrow> (unit, fault) comp \<times> ('v, 'e) exec" where
  "exec_check e i n =
     (pool_check (ex_frames e) (tk_stack (ex_tasks e ! i)) n (lm_frames_per_task (ex_limits e)), e)"

definition start :: "('v, 'e) exec \<Rightarrow> usize \<Rightarrow> u32 \<Rightarrow> 'v \<Rightarrow> ('v, 'e) exec" where
  "start e i pc v = update_task e i (\<lambda>t. t\<lparr>tk_pc := pc, tk_input := Some v, tk_state := S_Ready\<rparr>)"

definition influence_result ::
  "('v, 'e) vals \<Rightarrow> ('v, 'e) exec \<Rightarrow> usize \<Rightarrow> ('v, 'e) result \<Rightarrow> ('v, 'e) result" where
  "influence_result vs e i r =
     (case Option.bind (get (ex_tasks e) i) tk_input of
        Some control \<Rightarrow> v_influence_result vs r control
      | None \<Rightarrow> r)"

definition fault_result ::
  "('v, 'e) vals \<Rightarrow> ('v, 'e) exec \<Rightarrow> usize \<Rightarrow> fault \<Rightarrow> ('v, 'e) result" where
  "fault_result vs e i f =
     (let result = influence_result vs e i (Err (v_error vs f)) in
      case map_option tk_state (get (ex_tasks e) i) of
        Some (S_Returning previous) \<Rightarrow> v_influence_result vs result (v_retain_result vs previous)
      | Some (S_Done previous) \<Rightarrow> v_influence_result vs result (v_retain_result vs previous)
      | _ \<Rightarrow> result)"

definition terminal_fault :: "('v, 'e) vals \<Rightarrow> ('v, 'e) exec \<Rightarrow> fault \<Rightarrow> ('v, 'e) result" where
  "terminal_fault vs e f = v_influence_result vs (Err (v_error vs f)) (retain_control vs e)"

definition finish ::
  "('v, 'e) vals \<Rightarrow> ('v, 'e) image \<Rightarrow> ('v, 'e) exec \<Rightarrow> usize \<Rightarrow> u32 \<Rightarrow> ('v, 'e) result \<Rightarrow>
   (unit, fault) comp \<times> ('v, 'e) exec" where
  "finish vs img e i node r =
     (case image_node img node of
        Err f \<Rightarrow> (Raise f, e)
      | Ok instruction \<Rightarrow>
          (case influence_result vs e i r of
             Ok v \<Rightarrow>
               (case nd_next instruction of
                  Some next \<Rightarrow> (Return (), start e i next v)
                | None \<Rightarrow> (Return (), set_state e i (S_Returning (Ok v))))
           | Err x \<Rightarrow> (Return (), set_state e i (S_Returning (Err x)))))"

section \<open>Host events\<close>

text \<open>The control kept of a matching response, or the error that refuses it.\<close>

definition event_control ::
  "('v, 'e) vals \<Rightarrow> ('v, 'e) image \<Rightarrow> u32 \<Rightarrow> ('v, 'e) host_event \<Rightarrow> ('v option, fault) result" where
  "event_control vs img node ev =
     (case ev of
        HE_Complete r \<Rightarrow> Ok (Some (v_retain_result vs r))
      | HE_Continue _ input \<Rightarrow>
          bind_result (image_node img node) (\<lambda>n.
            case nd_kind n of
              N_Request _ \<Rightarrow> Ok (Some (v_retain_control vs input))
            | _ \<Rightarrow> Err Fault_StaleEvent)
      | HE_Enter _ \<Rightarrow> Ok None)"

definition keep_control ::
  "('v, 'e) vals \<Rightarrow> ('v, 'e) exec \<Rightarrow> usize \<Rightarrow> 'v option \<Rightarrow> ('v, 'e) exec" where
  "keep_control vs e i control =
     (case control of
        None \<Rightarrow> e
      | Some c \<Rightarrow>
          set_input e i (Some (case tk_input (ex_tasks e ! i) of
             Some input \<Rightarrow> v_influence vs input c
           | None \<Rightarrow> c)))"

definition enter_scope ::
  "('v, 'e) image \<Rightarrow> ('v, 'e) exec \<Rightarrow> usize \<Rightarrow> u32 \<Rightarrow> u64 \<Rightarrow> (unit, fault) comp \<times> ('v, 'e) exec" where
  "enter_scope img e i node context =
     (case image_node img node of
        Err f \<Rightarrow> (Raise f, e)
      | Ok n \<Rightarrow>
          (case nd_kind n of
             N_Scope _ body \<Rightarrow>
               and_then (exec_check e i 2) (\<lambda>_ e.
               and_then (exec_push e i (K_Finish node)) (\<lambda>_ e.
               and_then (exec_push e i (K_Context (tk_context (ex_tasks e ! i)))) (\<lambda>_ e.
                 let e = update_task e i (\<lambda>t. t\<lparr>tk_context := context\<rparr>) in
                 case tk_input (ex_tasks e ! i) of
                   None \<Rightarrow> (Raise Fault_Type, e)
                 | Some v \<Rightarrow> (Return (), start (set_input e i None) i body v))))
           | _ \<Rightarrow> (Raise Fault_StaleEvent, e)))"

definition enter_continuation ::
  "('v, 'e) vals \<Rightarrow> ('v, 'e) image \<Rightarrow> ('v, 'e) exec \<Rightarrow> usize \<Rightarrow> u32 \<Rightarrow> u32 \<Rightarrow> 'v \<Rightarrow>
   (unit, fault) comp \<times> ('v, 'e) exec" where
  "enter_continuation vs img e i node entry input =
     (case image_node img entry of
        Err f \<Rightarrow> (Raise f, e)
      | Ok _ \<Rightarrow>
          and_then (exec_push e i (K_Continuation node entry)) (\<lambda>_ e.
            (Return (), start e i entry
              (case tk_input (ex_tasks e ! i) of
                 Some control \<Rightarrow> v_influence vs input control
               | None \<Rightarrow> input))))"

definition complete ::
  "('v, 'e) vals \<Rightarrow> ('v, 'e) image \<Rightarrow> ('v, 'e) exec \<Rightarrow> usize \<Rightarrow> u64 \<Rightarrow> ('v, 'e) host_event \<Rightarrow>
   (unit, fault) comp \<times> ('v, 'e) exec" where
  "complete vs img e i ticket ev =
     (if img_id img \<noteq> ex_image_id e then (Raise Fault_ImageMismatch, e)
      else if ex_tasks e = [] then (Panic, e)
      else if terminal_result (tk_state (ex_tasks e ! 0)) \<noteq> None then (Raise Fault_StaleEvent, e)
      else (case map_option tk_state (get (ex_tasks e) i) of
              Some (S_Waiting live node) \<Rightarrow>
                if live \<noteq> ticket then (Raise Fault_StaleEvent, e)
                else (case event_control vs img node ev of
                        Err f \<Rightarrow> (Raise f, e)
                      | Ok control \<Rightarrow>
                          let e = keep_control vs e i control in
                          (case ev of
                             HE_Complete r \<Rightarrow> finish vs img e i node r
                           | HE_Enter context \<Rightarrow> enter_scope img e i node context
                           | HE_Continue entry input \<Rightarrow>
                               enter_continuation vs img e i node entry input))
            | _ \<Rightarrow> (Raise Fault_StaleEvent, e)))"

end
