(* ===== verification/Scheduler.thy ===== *)
theory Scheduler
  imports Machine
begin

text \<open>
  The transitions of the machine (\<open>machine.rs\<close>: \<open>transition\<close>, \<open>cancel_tree\<close>, \<open>free\<close>) and the
  cooperative scheduler (\<open>advance\<close>). The three live arms of \<open>transition\<close> are \<open>return_step\<close>,
  \<open>join_step\<close> and \<open>ready_step\<close>.
\<close>

section \<open>Releasing and cancelling tasks\<close>

lemma pool_pop_depth:
  "pool_pop (p, st) = (Return (Some k), p', st') \<Longrightarrow> st_depth st' < st_depth st"
  by (auto simp: pool_pop_def Let_def split: if_splits option.splits)

text \<open>The loop \<open>while self.pop(task).is_some() {}\<close>.\<close>

function pool_drain ::
  "('v, 'e) pool \<times> stack \<Rightarrow> (unit, fault) comp \<times> ('v, 'e) pool \<times> stack" where
  "pool_drain ps =
     (case pool_pop ps of
        (Return (Some _), ps') \<Rightarrow> pool_drain ps'
      | (Return None, ps') \<Rightarrow> (Return (), ps')
      | (Raise f, ps') \<Rightarrow> (Raise f, ps')
      | (Panic, ps') \<Rightarrow> (Panic, ps'))"
  by pat_completeness auto
termination
proof (relation "measure (\<lambda>(p, st). st_depth st)", goal_cases)
  case (2 ps r ps' k kind)
  then show ?case using pool_pop_depth [of "fst ps" "snd ps" kind "fst ps'" "snd ps'"]
    by (auto simp: case_prod_beta)
qed simp

declare pool_drain.simps [simp del]

definition free_task :: "('v, 'e) exec \<Rightarrow> usize \<Rightarrow> (unit, fault) comp \<times> ('v, 'e) exec" where
  "free_task e i =
     (if length (ex_tasks e) \<le> i then (Panic, e)
      else
        let (r, p, st) = pool_drain (ex_frames e, tk_stack (ex_tasks e ! i));
            e = update_task (e\<lparr>ex_frames := p\<rparr>) i (\<lambda>t. t\<lparr>tk_stack := st\<rparr>);
            stride = lm_bindings_per_task (ex_limits e)
        in and_then (r, e) (\<lambda>_ e.
             if 0 < stride \<and> length (ex_bindings e) < i * stride + stride then (Panic, e)
             else (Return (),
               update_task (e\<lparr>ex_bindings := fill_none (ex_bindings e) (i * stride) stride\<rparr>) i
                 (\<lambda>_. task_default))))"

text \<open>
  The walk up the parents of one candidate in \<open>cancel_tree\<close>: does it meet \<open>root\<close>? \<open>None\<close> when an
  index is out of range or the walk does not end.
\<close>

partial_function (option) meets_root ::
  "('v, 'e) task list \<Rightarrow> usize \<Rightarrow> usize option \<Rightarrow> bool option" where
  "meets_root tasks root parent =
     (case parent of
        None \<Rightarrow> Some False
      | Some i \<Rightarrow>
          if i = root then Some True
          else if length tasks \<le> i then None
          else meets_root tasks root (tk_parent (tasks ! i)))"

definition cancel_tree :: "('v, 'e) exec \<Rightarrow> usize \<Rightarrow> (unit, fault) comp \<times> ('v, 'e) exec" where
  "cancel_tree e root =
     (if length (ex_tasks e) \<le> root then (Panic, e)
      else
        let e = update_task e root (\<lambda>t. t\<lparr>tk_cancelled := True\<rparr>);
            walk = (\<lambda>t. meets_root (ex_tasks e) root (tk_parent t))
        in if list_ex (\<lambda>t. walk t = None) (ex_tasks e) then (Panic, e)
           else (Return (),
             e\<lparr>ex_tasks := map (\<lambda>t. if walk t = Some True then t\<lparr>tk_cancelled := True\<rparr> else t)
                 (ex_tasks e)\<rparr>))"

section \<open>The \<open>Returning\<close> arm\<close>

definition return_bind ::
  "('v, 'e) exec \<Rightarrow> usize \<Rightarrow> u32 \<Rightarrow> u32 \<Rightarrow> 'v \<Rightarrow> (unit, fault) comp \<times> ('v, 'e) exec" where
  "return_bind e i slot body v =
     (let stride = lm_bindings_per_task (ex_limits e) in
      if stride \<le> slot then (Raise Fault_InvalidBinding, e)
      else let index = i * stride + slot in
        and_then (exec_check e i 1) (\<lambda>_ e.
          if length (ex_bindings e) \<le> index then (Panic, e)
          else
            let previous = ex_bindings e ! index;
                e = e\<lparr>ex_bindings := (ex_bindings e)[index := None]\<rparr>
            in and_then (exec_push e i (K_Unbind slot previous)) (\<lambda>_ e.
                 (Return (),
                  start (e\<lparr>ex_bindings := (ex_bindings e)[index := Some v]\<rparr>) i body v))))"

fun return_frame ::
  "('v, 'e) vals \<Rightarrow> ('v, 'e) image \<Rightarrow> ('v, 'e) exec \<Rightarrow> usize \<Rightarrow> ('v, 'e) result \<Rightarrow>
   ('v, 'e) frame_kind \<Rightarrow> (unit, fault) comp \<times> ('v, 'e) exec" where
  "return_frame vs img e i outcome K_Vacant = (Raise Fault_InvalidState, e)"
| "return_frame vs img e i outcome (K_Finish node) = finish vs img e i node outcome"
| "return_frame vs img e i outcome (K_Continuation node _) = finish vs img e i node outcome"
| "return_frame vs img e i outcome (K_Then next) =
     (case outcome of
        Ok v \<Rightarrow> (Return (), start e i next v)
      | Err x \<Rightarrow> (Return (), set_state e i (S_Returning (Err x))))"
| "return_frame vs img e i outcome (K_Catch recover) =
     (case outcome of
        Err x \<Rightarrow>
          if \<not> tk_cancelled (ex_tasks e ! i) \<or> 0 < tk_cleaning (ex_tasks e ! i) then
            let v = v_error_value vs x;
                v = (case tk_input (ex_tasks e ! i) of
                       Some input \<Rightarrow> v_influence vs v input | None \<Rightarrow> v)
            in (Return (), start e i recover v)
          else (Return (), set_state e i (S_Returning (Err x)))
      | Ok v \<Rightarrow> (Return (), set_state e i (S_Returning (Ok v))))"
| "return_frame vs img e i outcome (K_Finally cleanup input) =
     and_then (exec_push e i (K_Cleaned outcome)) (\<lambda>_ e.
       (Return (),
        start (update_task e i (\<lambda>t. t\<lparr>tk_cleaning := tk_cleaning t + 1\<rparr>)) i cleanup input))"
| "return_frame vs img e i outcome (K_Cleaned original) =
     (let e = update_task e i (\<lambda>t. t\<lparr>tk_cleaning := saturating_sub (tk_cleaning t) 1\<rparr>);
          control = v_retain_result vs original;
          result = (case original of
                      Err x \<Rightarrow> Err x
                    | Ok v \<Rightarrow> (case outcome of Err x \<Rightarrow> Err x | Ok _ \<Rightarrow> Ok v))
      in (Return (), set_state e i (S_Returning (v_influence_result vs result control))))"
| "return_frame vs img e i outcome (K_Context context) =
     (Return (), set_state (update_task e i (\<lambda>t. t\<lparr>tk_context := context\<rparr>)) i (S_Returning outcome))"
| "return_frame vs img e i outcome (K_Choose yes no input) =
     (case outcome of
        Err x \<Rightarrow> (Return (), set_state e i (S_Returning (Err x)))
      | Ok test \<Rightarrow>
          (case v_truth vs test of
             Ok truth \<Rightarrow>
               (Return (), start e i (if truth then yes else no) (v_influence vs input test))
           | Err x \<Rightarrow> (Return (), set_state e i (S_Returning (Err x)))))"
| "return_frame vs img e i outcome (K_Bind slot body) =
     (case outcome of
        Ok v \<Rightarrow> return_bind e i slot body v
      | Err x \<Rightarrow> (Return (), set_state e i (S_Returning (Err x))))"
| "return_frame vs img e i outcome (K_Unbind slot previous) =
     (let index = i * lm_bindings_per_task (ex_limits e) + slot in
      if length (ex_bindings e) \<le> index then (Panic, e)
      else (Return (),
        set_state (e\<lparr>ex_bindings := (ex_bindings e)[index := previous]\<rparr>) i (S_Returning outcome)))"
| "return_frame vs img e i outcome (K_Condition condition body left value) =
     (case outcome of
        Err x \<Rightarrow> (Return (), set_state e i (S_Returning (Err x)))
      | Ok test \<Rightarrow>
          (case v_truth vs test of
             Ok False \<Rightarrow> (Return (), set_state e i (S_Returning (Ok (v_influence vs value test))))
           | Ok True \<Rightarrow>
               if 0 < left then
                 and_then (exec_push e i (K_Iteration condition body (left - 1))) (\<lambda>_ e.
                   (Return (), start e i body (v_influence vs value test)))
               else (Return (), set_state e i (S_Returning (Err (v_error vs Fault_Iterations))))
           | Err x \<Rightarrow> (Return (), set_state e i (S_Returning (Err x)))))"
| "return_frame vs img e i outcome (K_Iteration condition body left) =
     (case outcome of
        Ok v \<Rightarrow>
          and_then (exec_push e i (K_Condition condition body left v)) (\<lambda>_ e.
            (Return (), start e i condition v))
      | Err x \<Rightarrow> (Return (), set_state e i (S_Returning (Err x))))"

definition return_step ::
  "('v, 'e) vals \<Rightarrow> ('v, 'e) image \<Rightarrow> ('v, 'e) exec \<Rightarrow> usize \<Rightarrow> ('v, 'e) result \<Rightarrow>
   (unit, fault) comp \<times> ('v, 'e) exec" where
  "return_step vs img e i r =
     (let outcome = influence_result vs e i r;
          control = v_retain_result vs outcome;
          e = set_input e i (Some (case tk_input (ex_tasks e ! i) of
                Some input \<Rightarrow> v_influence vs control input
              | None \<Rightarrow> control))
      in and_then (exec_pop e i) (\<lambda>frame e.
           case frame of
             None \<Rightarrow> (Return (), set_state e i (S_Done outcome))
           | Some k \<Rightarrow> return_frame vs img e i outcome k))"

section \<open>The \<open>Joining\<close> arm\<close>

definition join_result ::
  "('v, 'e) vals \<Rightarrow> join \<Rightarrow> bool \<Rightarrow> ('v, 'e) result \<Rightarrow> ('v, 'e) result \<Rightarrow> ('v, 'e) result" where
  "join_result vs join left_cancelled a b =
     (let control = v_influence vs (v_retain_result vs a) (v_retain_result vs b);
          result = (case join of
             Join_All \<Rightarrow>
               (case a of
                  Err x \<Rightarrow> Err x
                | Ok v \<Rightarrow> (case b of Err x \<Rightarrow> Err x | Ok w \<Rightarrow> v_pair vs v w))
           | Join_Race \<Rightarrow> if left_cancelled then b else a)
      in v_influence_result vs result control)"

text \<open>Both children are done: take their results, free them and finish the join.\<close>

definition join_collect ::
  "('v, 'e) vals \<Rightarrow> ('v, 'e) image \<Rightarrow> ('v, 'e) exec \<Rightarrow> usize \<Rightarrow> join_state \<Rightarrow>
   (unit, fault) comp \<times> ('v, 'e) exec" where
  "join_collect vs img e i j =
     (let left = js_left j; right = js_right j;
          sa = tk_state (ex_tasks e ! left);
          e = set_state e left S_Free;
          sb = tk_state (ex_tasks e ! right);
          e = set_state e right S_Free
      in (case (sa, sb) of
            (S_Done ra, S_Done rb) \<Rightarrow>
              let result = join_result vs (js_join j) (tk_cancelled (ex_tasks e ! left)) ra rb
              in and_then (free_task e left) (\<lambda>_ e.
                 and_then (free_task e right) (\<lambda>_ e.
                   finish vs img e i (js_node j) result))
          | _ \<Rightarrow> (Raise Fault_Type, e)))"

definition join_step ::
  "('v, 'e) vals \<Rightarrow> ('v, 'e) image \<Rightarrow> ('v, 'e) exec \<Rightarrow> usize \<Rightarrow> join_state \<Rightarrow>
   (unit, fault) comp \<times> ('v, 'e) exec" where
  "join_step vs img e i j =
     (if length (ex_tasks e) \<le> js_left j \<or> length (ex_tasks e) \<le> js_right j then (Panic, e)
      else
        let a = is_done (tk_state (ex_tasks e ! js_left j));
            b = is_done (tk_state (ex_tasks e ! js_right j))
        in and_then
             (if js_join j = Join_Race \<and> (a \<or> b)
              then cancel_tree e (if a then js_right j else js_left j)
              else (Return (), e))
             (\<lambda>_ e. if a \<and> b then join_collect vs img e i j else (Return (), e)))"

section \<open>The \<open>Ready\<close> arm\<close>

text \<open>A child of a fork: the parent's context, cleanup depth and bindings.\<close>

definition inherit :: "('v, 'e) exec \<Rightarrow> usize \<Rightarrow> usize \<Rightarrow> (unit, fault) comp \<times> ('v, 'e) exec" where
  "inherit e i child =
     (let stride = lm_bindings_per_task (ex_limits e);
          p = ex_tasks e ! i;
          e = update_task e child (\<lambda>t. t\<lparr>tk_parent := Some i, tk_context := tk_context p,
                                         tk_cleaning := tk_cleaning p\<rparr>)
      in if 0 < stride \<and> length (ex_bindings e) < max i child * stride + stride then (Panic, e)
         else (Return (), e\<lparr>ex_bindings :=
           take (child * stride) (ex_bindings e) @
           take stride (drop (i * stride) (ex_bindings e)) @
           drop (child * stride + stride) (ex_bindings e)\<rparr>))"

definition fork_step ::
  "('v, 'e) exec \<Rightarrow> usize \<Rightarrow> u32 \<Rightarrow> u32 \<Rightarrow> u32 \<Rightarrow> join \<Rightarrow> 'v \<Rightarrow> (unit, fault) comp \<times> ('v, 'e) exec" where
  "fork_step e i pc left right join input =
     (case filter (\<lambda>j. is_free (tk_state (ex_tasks e ! j))) [0..<length (ex_tasks e)] of
        a # b # _ \<Rightarrow>
          let e = start e a left input; e = start e b right input in
          and_then (inherit e i a) (\<lambda>_ e.
          and_then (inherit e i b) (\<lambda>_ e.
            (Return (), set_state e i
              (S_Joining \<lparr>js_left = a, js_right = b, js_join = join, js_node = pc\<rparr>))))
      | _ \<Rightarrow> (Raise Fault_Tasks, e))"

text \<open>Push \<open>Finish(pc)\<close>, push the frame of the construct, and start the part that runs first.\<close>

definition enter ::
  "('v, 'e) exec \<Rightarrow> usize \<Rightarrow> u32 \<Rightarrow> ('v, 'e) frame_kind \<Rightarrow> u32 \<Rightarrow> 'v \<Rightarrow>
   (('v, 'e) advance option, fault) comp \<times> ('v, 'e) exec" where
  "enter e i pc k first input =
     and_then (exec_push e i (K_Finish pc)) (\<lambda>_ e.
     and_then (exec_push e i k) (\<lambda>_ e.
       (Return None, start e i first input)))"

definition silent ::
  "(unit, fault) comp \<times> ('v, 'e) exec \<Rightarrow> (('v, 'e) advance option, fault) comp \<times> ('v, 'e) exec" where
  "silent r = and_then r (\<lambda>_ e. (Return None, e))"

definition request_step ::
  "('v, 'e) image \<Rightarrow> ('v, 'e) exec \<Rightarrow> usize \<Rightarrow> u32 \<Rightarrow> u64 \<Rightarrow> u32 \<Rightarrow> 'v \<Rightarrow>
   (('v, 'e) advance option, fault) comp \<times> ('v, 'e) exec" where
  "request_step img e i pc position im input =
     (if img_imports img \<le> im then (Raise Fault_InvalidImport, e)
      else (case checked_add u64_max (ex_ticket e) 1 of
              None \<Rightarrow> (Raise Fault_SequenceExhausted, e)
            | Some ticket \<Rightarrow>
                let e = set_state (e\<lparr>ex_ticket := ticket\<rparr>) i (S_Waiting ticket pc) in
                (Return (Some (A_Request
                   \<lparr>rq_task = i, rq_ticket = ticket, rq_import = im, rq_input = input,
                    rq_context = tk_context (ex_tasks e ! i), rq_position = position,
                    rq_cleanup = 0 < tk_cleaning (ex_tasks e ! i)\<rparr>)), e)))"

definition ready_node ::
  "('v, 'e) vals \<Rightarrow> ('v, 'e) image \<Rightarrow> ('v, 'e) exec \<Rightarrow> usize \<Rightarrow> u32 \<Rightarrow> ('v, 'e) node \<Rightarrow> 'v \<Rightarrow>
   (('v, 'e) advance option, fault) comp \<times> ('v, 'e) exec" where
  "ready_node vs img e i pc n input =
     (case nd_kind n of
        N_Literal v \<Rightarrow> silent (finish vs img e i pc (Ok (v_influence vs v input)))
      | N_Input \<Rightarrow> silent (finish vs img e i pc (Ok input))
      | N_Load slot \<Rightarrow>
          let stride = lm_bindings_per_task (ex_limits e); index = i * stride + slot in
          if stride \<le> slot then (Raise Fault_InvalidBinding, e)
          else if length (ex_bindings e) \<le> index then (Panic, e)
          else (case ex_bindings e ! index of
                  None \<Rightarrow> (Raise Fault_MissingBinding, e)
                | Some v \<Rightarrow> silent (finish vs img e i pc (Ok (v_influence vs v input))))
      | N_Fail x \<Rightarrow> silent (finish vs img e i pc (Err x))
      | N_Request im \<Rightarrow> request_step img e i pc (nd_position n) im input
      | N_Scope im _ \<Rightarrow> request_step img e i pc (nd_position n) im input
      | N_Then first next \<Rightarrow> enter e i pc (K_Then next) first input
      | N_Catch body recover \<Rightarrow> enter e i pc (K_Catch recover) body input
      | N_Finally body cleanup \<Rightarrow> enter e i pc (K_Finally cleanup input) body input
      | N_If yes no \<Rightarrow>
          (case v_truth vs input of
             Ok test \<Rightarrow>
               and_then (exec_push e i (K_Finish pc)) (\<lambda>_ e.
                 (Return None, start e i (if test then yes else no) input))
           | Err x \<Rightarrow> silent (finish vs img e i pc (Err x)))
      | N_Call entry \<Rightarrow>
          and_then (exec_push e i (K_Finish pc)) (\<lambda>_ e. (Return None, start e i entry input))
      | N_Branch condition yes no \<Rightarrow> enter e i pc (K_Choose yes no input) condition input
      | N_Let slot value body \<Rightarrow> enter e i pc (K_Bind slot body) value input
      | N_While condition body bound \<Rightarrow>
          enter e i pc (K_Condition condition body bound input) condition input
      | N_Fork left right join \<Rightarrow> silent (fork_step e i pc left right join input))"

fun keeps_input :: "('v, 'e) node_kind \<Rightarrow> bool" where
  "keeps_input (N_Request _) = True"
| "keeps_input (N_Scope _ _) = True"
| "keeps_input _ = False"

definition ready_step ::
  "('v, 'e) vals \<Rightarrow> ('v, 'e) image \<Rightarrow> ('v, 'e) exec \<Rightarrow> usize \<Rightarrow>
   (('v, 'e) advance option, fault) comp \<times> ('v, 'e) exec" where
  "ready_step vs img e i =
     (let pc = tk_pc (ex_tasks e ! i) in
      case image_node img pc of
        Err f \<Rightarrow> (Raise f, e)
      | Ok n \<Rightarrow>
          (case tk_input (ex_tasks e ! i) of
             None \<Rightarrow> (Raise Fault_Type, e)
           | Some input \<Rightarrow>
               let retained = (if keeps_input (nd_kind n) then input else v_retain_control vs input)
               in ready_node vs img (set_input e i (Some retained)) i pc n input))"

section \<open>One transition\<close>

definition transition ::
  "('v, 'e) vals \<Rightarrow> ('v, 'e) image \<Rightarrow> ('v, 'e) exec \<Rightarrow> usize \<Rightarrow>
   (('v, 'e) advance option, fault) comp \<times> ('v, 'e) exec" where
  "transition vs img e i =
     (if length (ex_tasks e) \<le> i then (Panic, e)
      else (case tk_state (ex_tasks e ! i) of
              S_Returning r \<Rightarrow> silent (return_step vs img (set_state e i S_Ready) i r)
            | S_Joining j \<Rightarrow> silent (join_step vs img e i j)
            | S_Ready \<Rightarrow> ready_step vs img e i
            | _ \<Rightarrow> (Return None, e)))"

section \<open>The scheduler\<close>

text \<open>Mark a cancelled task outside its cleanup as returning the cancellation fault.\<close>

fun interruptible :: "('v, 'e) state \<Rightarrow> bool" where
  "interruptible (S_Joining _) = False"
| "interruptible (S_Returning (Err _)) = False"
| "interruptible _ = True"

definition is_ready :: "('v, 'e) task list \<Rightarrow> ('v, 'e) state \<Rightarrow> (bool, fault) comp" where
  "is_ready tasks s =
     (case s of
        S_Waiting _ _ \<Rightarrow> Return False
      | S_Joining j \<Rightarrow>
          if length tasks \<le> js_left j \<or> length tasks \<le> js_right j then Panic
          else
            let left = tasks ! js_left j; right = tasks ! js_right j;
                a = is_done (tk_state left); b = is_done (tk_state right)
            in Return ((a \<and> b) \<or>
                 (js_join j = Join_Race \<and> ((a \<and> \<not> tk_cancelled right) \<or> (b \<and> \<not> tk_cancelled left))))
      | _ \<Rightarrow> Return True)"

datatype scan = Scan_Cancel usize u64 | Scan_Task usize | Scan_Idle

fun select ::
  "('v, 'e) vals \<Rightarrow> ('v, 'e) exec \<Rightarrow> nat list \<Rightarrow> (scan, fault) comp \<times> ('v, 'e) exec" where
  "select vs e [] = (Return Scan_Idle, e)"
| "select vs e (offset # rest) =
     (let i = (ex_cursor e + offset) mod length (ex_tasks e); t = ex_tasks e ! i in
      if is_free (tk_state t) \<or> is_done (tk_state t) then select vs e rest
      else
        let interrupt = (tk_cancelled t \<and> tk_cleaning t = 0) in
        case (if interrupt then (case tk_state t of S_Waiting ticket _ \<Rightarrow> Some ticket | _ \<Rightarrow> None)
              else None) of
          Some ticket \<Rightarrow> (Return (Scan_Cancel i ticket), e)
        | None \<Rightarrow>
            let e = (if interrupt \<and> interruptible (tk_state t)
                     then set_state e i (S_Returning (fault_result vs e i Fault_Cancelled)) else e)
            in (case is_ready (ex_tasks e) (tk_state (ex_tasks e ! i)) of
                  Return True \<Rightarrow> (Return (Scan_Task i), e)
                | Return False \<Rightarrow> select vs e rest
                | Raise f \<Rightarrow> (Raise f, e)
                | Panic \<Rightarrow> (Panic, e)))"

definition run_task ::
  "('v, 'e) vals \<Rightarrow> ('v, 'e) image \<Rightarrow> ('v, 'e) exec \<Rightarrow> usize \<Rightarrow>
   (('v, 'e) advance option, fault) comp \<times> ('v, 'e) exec" where
  "run_task vs img e i =
     (case transition vs img (e\<lparr>ex_cursor := (i + 1) mod length (ex_tasks e)\<rparr>) i of
        (Raise f, e) \<Rightarrow> (Return None, set_state e i (S_Returning (fault_result vs e i f)))
      | r \<Rightarrow> r)"

definition dispatch ::
  "('v, 'e) vals \<Rightarrow> ('v, 'e) image \<Rightarrow> ('v, 'e) exec \<Rightarrow> usize \<Rightarrow>
   (('v, 'e) advance option, fault) comp \<times> ('v, 'e) exec" where
  "dispatch vs img e i =
     (if ex_aborting e then
        (if lm_cleanup_steps (ex_limits e) \<le> ex_cleanup_steps e then
           let r = terminal_fault vs e Fault_Fuel in
           (Return (Some (A_Done r)),
            set_state e 0 (S_Halted r (state_join (tk_state (ex_tasks e ! 0)))))
         else run_task vs img (e\<lparr>ex_cleanup_steps := ex_cleanup_steps e + 1\<rparr>) i)
      else run_task vs img (e\<lparr>ex_steps := saturating_add u64_max (ex_steps e) 1\<rparr>) i)"

definition over_budget :: "('v, 'e) exec \<Rightarrow> bool" where
  "over_budget e \<longleftrightarrow> \<not> ex_aborting e \<and>
     (case lm_max_steps (ex_limits e) of Some m \<Rightarrow> m \<le> ex_steps e | None \<Rightarrow> False)"

text \<open>One round of the loop of \<open>advance\<close>; an action ends the loop.\<close>

definition advance_round ::
  "('v, 'e) vals \<Rightarrow> ('v, 'e) image \<Rightarrow> ('v, 'e) exec \<Rightarrow>
   (('v, 'e) advance option, fault) comp \<times> ('v, 'e) exec" where
  "advance_round vs img e =
     (if ex_tasks e = [] then (Panic, e)
      else (case terminal_result (tk_state (ex_tasks e ! 0)) of
              Some r \<Rightarrow> (Return (Some (A_Done r)), e)
            | None \<Rightarrow>
                and_then (if over_budget e then cancel e else (Return (), e)) (\<lambda>_ e.
                and_then (select vs e [0..<length (ex_tasks e)]) (\<lambda>s e.
                  case s of
                    Scan_Cancel i ticket \<Rightarrow> (Return (Some (A_Cancel i ticket)), e)
                  | Scan_Idle \<Rightarrow> (Return (Some A_Waiting), e)
                  | Scan_Task i \<Rightarrow> dispatch vs img e i))))"

fun advance_loop ::
  "('v, 'e) vals \<Rightarrow> ('v, 'e) image \<Rightarrow> nat \<Rightarrow> ('v, 'e) exec \<Rightarrow>
   (('v, 'e) advance, fault) comp \<times> ('v, 'e) exec" where
  "advance_loop vs img 0 e = (Return A_Yielded, e)"
| "advance_loop vs img (Suc fuel) e =
     and_then (advance_round vs img e) (\<lambda>action e.
       case action of
         Some a \<Rightarrow> (Return a, e)
       | None \<Rightarrow> advance_loop vs img fuel e)"

definition advance ::
  "('v, 'e) vals \<Rightarrow> ('v, 'e) image \<Rightarrow> ('v, 'e) exec \<Rightarrow> u32 \<Rightarrow>
   (('v, 'e) advance, fault) comp \<times> ('v, 'e) exec" where
  "advance vs img e fuel =
     (if img_id img \<noteq> ex_image_id e
      then (Return (A_Done (terminal_fault vs e Fault_ImageMismatch)), e)
      else advance_loop vs img fuel e)"

end
