(* ===== verification/Machine_Invariant.thy ===== *)
theory Machine_Invariant
  imports Scheduler
begin

text \<open>
  The invariant of the machine and its preservation by the primitive steps. \<open>inv_except\<close> leaves out
  one task while a transition rebuilds its state; \<open>ends\<close> states what a step that may return or raise
  guarantees, and excludes panics.
\<close>

section \<open>The invariant\<close>

fun kind_slot :: "('v, 'e) frame_kind \<Rightarrow> u32 option" where
  "kind_slot (K_Bind s _) = Some s"
| "kind_slot (K_Unbind s _) = Some s"
| "kind_slot _ = None"

definition kind_ok :: "nat \<Rightarrow> nat \<Rightarrow> ('v, 'e) frame_kind \<Rightarrow> bool" where
  "kind_ok code stride k \<longleftrightarrow>
     k \<noteq> K_Vacant \<and> list_all (\<lambda>a. a < code) (frame_indices k) \<and>
     (case kind_slot k of Some s \<Rightarrow> s < stride | None \<Rightarrow> True)"

definition task_at :: "('v, 'e) exec \<Rightarrow> nat \<Rightarrow> ('v, 'e) task" where
  "task_at e i = ex_tasks e ! i"

definition task_frames :: "('v, 'e) exec \<Rightarrow> nat \<Rightarrow> ('v, 'e) frame_kind list" where
  "task_frames e i = frames_of (ex_frames e) (tk_stack (task_at e i))"

abbreviation task_count :: "('v, 'e) exec \<Rightarrow> nat" where
  "task_count e \<equiv> length (ex_tasks e)"

abbreviation stride :: "('v, 'e) exec \<Rightarrow> nat" where
  "stride e \<equiv> lm_bindings_per_task (ex_limits e)"

abbreviation code_size :: "('v, 'e) image \<Rightarrow> nat" where
  "code_size img \<equiv> length (img_nodes img)"

definition joined :: "('v, 'e) image \<Rightarrow> ('v, 'e) exec \<Rightarrow> nat \<Rightarrow> join_state \<Rightarrow> bool" where
  "joined img e i j \<longleftrightarrow>
     js_left j < task_count e \<and> js_right j < task_count e \<and> js_left j \<noteq> js_right j \<and>
     js_node j < code_size img \<and>
     tk_parent (task_at e (js_left j)) = Some i \<and> tk_parent (task_at e (js_right j)) = Some i"

text \<open>What each state promises about its task.\<close>

fun state_ok :: "('v, 'e) image \<Rightarrow> ('v, 'e) exec \<Rightarrow> nat \<Rightarrow> ('v, 'e) state \<Rightarrow> bool" where
  "state_ok img e i S_Free \<longleftrightarrow> task_at e i = task_default \<and> i \<noteq> 0"
| "state_ok img e i S_Ready \<longleftrightarrow>
     tk_pc (task_at e i) < code_size img \<and> tk_input (task_at e i) \<noteq> None"
| "state_ok img e i (S_Waiting k node) \<longleftrightarrow>
     node < code_size img \<and> keeps_input (nd_kind (img_nodes img ! node)) \<and>
     tk_input (task_at e i) \<noteq> None \<and> k \<le> ex_ticket e"
| "state_ok img e i (S_Joining j) \<longleftrightarrow> joined img e i j"
| "state_ok img e i (S_Returning r) \<longleftrightarrow> True"
| "state_ok img e i (S_Done r) \<longleftrightarrow> task_frames e i = []"
| "state_ok img e i (S_Halted r j) \<longleftrightarrow> i = 0 \<and> (\<forall>j'. j = Some j' \<longrightarrow> joined img e i j')"

definition child_of :: "('v, 'e) exec \<Rightarrow> nat \<Rightarrow> nat \<Rightarrow> bool" where
  "child_of e p i \<longleftrightarrow>
     p < task_count e \<and>
     (\<exists>j. state_join (tk_state (task_at e p)) = Some j \<and> (i = js_left j \<or> i = js_right j))"

definition parent_ok :: "nat option \<Rightarrow> ('v, 'e) exec \<Rightarrow> nat \<Rightarrow> bool" where
  "parent_ok x e i \<longleftrightarrow>
     (case tk_parent (task_at e i) of
        None \<Rightarrow> i \<noteq> 0 \<longrightarrow> Some i \<noteq> x \<and> is_free (tk_state (task_at e i))
      | Some p \<Rightarrow> i \<noteq> 0 \<and> Some p \<noteq> x \<and> child_of e p i)"

definition parents :: "('v, 'e) exec \<Rightarrow> (nat \<times> nat) set" where
  "parents e = {(p, i). i < task_count e \<and> tk_parent (task_at e i) = Some p}"

definition waits :: "('v, 'e) exec \<Rightarrow> nat \<Rightarrow> u64 \<Rightarrow> bool" where
  "waits e i k \<longleftrightarrow> i < task_count e \<and> (\<exists>node. tk_state (task_at e i) = S_Waiting k node)"

text \<open>Storage: what does not depend on the states of the tasks.\<close>

definition storage_ok :: "('v, 'e) image \<Rightarrow> ('v, 'e) exec \<Rightarrow> bool" where
  "storage_ok img e \<longleftrightarrow>
     0 < task_count e \<and> task_count e \<le> u32_max \<and>
     task_count e * stride e \<le> length (ex_bindings e) \<and>
     pool_inv (ex_frames e) (map tk_stack (ex_tasks e)) \<and>
     (\<forall>i < task_count e. list_all (kind_ok (code_size img) (stride e)) (task_frames e i)) \<and>
     image_closed img \<and> img_bindings img \<le> stride e \<and> ex_image_id e = img_id img"

definition inv_except :: "('v, 'e) image \<Rightarrow> nat option \<Rightarrow> ('v, 'e) exec \<Rightarrow> bool" where
  "inv_except img x e \<longleftrightarrow>
     storage_ok img e \<and>
     (\<forall>i < task_count e. Some i \<noteq> x \<longrightarrow> state_ok img e i (tk_state (task_at e i))) \<and>
     (\<forall>i < task_count e. parent_ok x e i) \<and>
     (\<forall>i j k. waits e i k \<longrightarrow> waits e j k \<longrightarrow> Some i \<noteq> x \<longrightarrow> Some j \<noteq> x \<longrightarrow> i = j) \<and>
     acyclic (parents e) \<and> (\<forall>i. x = Some i \<longrightarrow> i < task_count e)"

abbreviation exec_inv :: "('v, 'e) image \<Rightarrow> ('v, 'e) exec \<Rightarrow> bool" where
  "exec_inv img \<equiv> inv_except img None"

abbreviation flux :: "('v, 'e) image \<Rightarrow> nat \<Rightarrow> ('v, 'e) exec \<Rightarrow> bool" where
  "flux img i \<equiv> inv_except img (Some i)"

section \<open>Outcomes of steps\<close>

definition ends ::
  "('a \<Rightarrow> 's \<Rightarrow> bool) \<Rightarrow> ('f \<Rightarrow> 's \<Rightarrow> bool) \<Rightarrow> ('a, 'f) comp \<times> 's \<Rightarrow> bool" where
  "ends P F r \<longleftrightarrow>
     (case r of (Return a, s) \<Rightarrow> P a s | (Raise f, s) \<Rightarrow> F f s | (Panic, _) \<Rightarrow> False)"

named_theorems ends_intro

lemma ends_simps [simp]:
  "ends P F (Return a, s) \<longleftrightarrow> P a s"
  "ends P F (Raise f, s) \<longleftrightarrow> F f s"
  "\<not> ends P F (Panic, s)"
  by (simp_all add: ends_def)

lemma ends_and_then:
  assumes "ends P F r" "\<And>a s. P a s \<Longrightarrow> ends Q F (k a s)"
  shows "ends Q F (and_then r k)"
  using assms by (cases r; cases "fst r") (auto simp: ends_def and_then_def)

lemma ends_mono:
  "ends P F r \<Longrightarrow> (\<And>a s. P a s \<Longrightarrow> Q a s) \<Longrightarrow> (\<And>f s. F f s \<Longrightarrow> G f s) \<Longrightarrow> ends Q G r"
  by (cases r; cases "fst r") (auto simp: ends_def)

section \<open>Tasks under update\<close>

lemma task_at_update [simp]:
  "i < task_count e \<Longrightarrow> task_at (update_task e i f) j = (if j = i then f (task_at e i) else task_at e j)"
  by (simp add: task_at_def update_task_def nth_list_update)

lemma update_task_simps [simp]:
  "task_count (update_task e i f) = task_count e"
  "ex_frames (update_task e i f) = ex_frames e"
  "ex_bindings (update_task e i f) = ex_bindings e"
  "ex_limits (update_task e i f) = ex_limits e"
  "ex_ticket (update_task e i f) = ex_ticket e"
  "ex_image_id (update_task e i f) = ex_image_id e"
  "ex_aborting (update_task e i f) = ex_aborting e"
  "ex_steps (update_task e i f) = ex_steps e"
  "ex_cleanup_steps (update_task e i f) = ex_cleanup_steps e"
  "ex_cursor (update_task e i f) = ex_cursor e"
  by (simp_all add: update_task_def)

lemma task_at_bindings [simp]:
  "task_at (e\<lparr>ex_bindings := bs\<rparr>) i = task_at e i"
  "task_at (e\<lparr>ex_frames := p\<rparr>) i = task_at e i"
  "task_at (e\<lparr>ex_ticket := k\<rparr>) i = task_at e i"
  "task_at (e\<lparr>ex_cursor := c\<rparr>) i = task_at e i"
  "task_at (e\<lparr>ex_steps := c\<rparr>) i = task_at e i"
  "task_at (e\<lparr>ex_cleanup_steps := c\<rparr>) i = task_at e i"
  "task_at (e\<lparr>ex_aborting := b\<rparr>) i = task_at e i"
  by (simp_all add: task_at_def)

lemma map_tasks_eq: "map f (ex_tasks e) = map (\<lambda>i. f (task_at e i)) [0..<task_count e]"
  by (intro nth_equalityI) (simp_all add: task_at_def)

text \<open>
  The invariant reads a task only through its state, stack, parent, program counter and input. A
  change of the exempt task that keeps its stack and its parent keeps the invariant.
\<close>

lemma map_stack_update:
  "i < task_count e \<Longrightarrow> tk_stack (f (task_at e i)) = tk_stack (task_at e i) \<Longrightarrow>
   map tk_stack (ex_tasks (update_task e i f)) = map tk_stack (ex_tasks e)"
  by (intro nth_equalityI) (auto simp: update_task_def task_at_def nth_list_update)

lemma storage_ok_update:
  assumes "i < task_count e" "tk_stack (f (task_at e i)) = tk_stack (task_at e i)"
  shows "storage_ok img (update_task e i f) = storage_ok img e"
  using assms map_stack_update [of i e f] by (auto simp: storage_ok_def task_frames_def)

lemma parents_update:
  assumes "i < task_count e" "tk_parent (f (task_at e i)) = tk_parent (task_at e i)"
  shows "parents (update_task e i f) = parents e"
  using assms by (auto simp: parents_def split: if_splits)

lemma flux_update:
  assumes flux: "flux img i e"
    and keep: "tk_stack (f (task_at e i)) = tk_stack (task_at e i)"
      "tk_parent (f (task_at e i)) = tk_parent (task_at e i)"
  shows "flux img i (update_task e i f)"
proof -
  let ?e = "update_task e i f"
  have i: "i < task_count e" using flux by (simp add: inv_except_def)
  have joined: "joined img ?e k j = joined img e k j" for k j
    using i keep by (auto simp: joined_def)
  have state: "state_ok img ?e k s = state_ok img e k s" if "k \<noteq> i" for k s
    using that i by (cases s) (auto simp: joined task_frames_def)
  have parent: "parent_ok (Some i) ?e k = parent_ok (Some i) e k" if "k < task_count e" for k
    using i keep
    by (cases "k = i") (auto simp: parent_ok_def child_of_def split: option.splits)
  have "waits ?e k t = waits e k t" if "k \<noteq> i" for k t
    using i that by (auto simp: waits_def)
  then show ?thesis
    using flux keep i
    by (auto simp: inv_except_def storage_ok_update parents_update state parent)
qed

text \<open>Taking a task out of the invariant, and putting it back in a new state.\<close>

lemma flux_open:
  assumes inv: "exec_inv img e" and i: "i < task_count e"
    and state: "state_join (tk_state (task_at e i)) = None" "\<not> is_free (tk_state (task_at e i))"
  shows "flux img i e"
proof -
  have "parent_ok (Some i) e k" if "k < task_count e" for k
  proof -
    have "parent_ok None e k" using inv that by (simp add: inv_except_def)
    then show ?thesis
      using state by (cases "k = i") (auto simp: parent_ok_def child_of_def split: option.splits)
  qed
  then show ?thesis using inv i by (auto simp: inv_except_def)
qed

lemma flux_close:
  assumes flux: "flux img i e"
    and keep: "tk_stack (f (task_at e i)) = tk_stack (task_at e i)"
      "tk_parent (f (task_at e i)) = tk_parent (task_at e i)"
    and state: "state_ok img (update_task e i f) i (tk_state (f (task_at e i)))"
      "state_join (tk_state (f (task_at e i))) = None" "\<not> is_free (tk_state (f (task_at e i)))"
    and ticket: "\<And>k node j. tk_state (f (task_at e i)) = S_Waiting k node \<Longrightarrow> j \<noteq> i \<Longrightarrow> \<not> waits e j k"
  shows "exec_inv img (update_task e i f)"
proof -
  let ?e = "update_task e i f"
  have i: "i < task_count e" using flux by (simp add: inv_except_def)
  have inv: "flux img i ?e" using flux keep by (rule flux_update)
  have par: "parent_ok None ?e k" if k: "k < task_count ?e" for k
  proof -
    have "parent_ok (Some i) ?e k" using inv k by (simp add: inv_except_def)
    then show ?thesis by (auto simp: parent_ok_def split: option.splits)
  qed
  have st: "state_ok img ?e k (tk_state (task_at ?e k))" if "k < task_count ?e" for k
    using inv that state(1) i by (cases "k = i") (auto simp: inv_except_def)
  have wt: "k = l" if "waits ?e k t" "waits ?e l t" for k l t
  proof -
    have "waits ?e m t \<Longrightarrow> m \<noteq> i \<Longrightarrow> waits e m t" for m using i by (auto simp: waits_def)
    moreover have "waits ?e i t \<Longrightarrow> \<exists>node. tk_state (f (task_at e i)) = S_Waiting t node"
      using i by (auto simp: waits_def)
    moreover have "k \<noteq> i \<Longrightarrow> l \<noteq> i \<Longrightarrow> k = l"
      using inv that by (auto simp: inv_except_def)
    ultimately show ?thesis using ticket that by metis
  qed
  show ?thesis using inv par st wt by (auto simp: inv_except_def)
qed

lemma flux_returning: "flux img i e \<Longrightarrow> exec_inv img (set_state e i (S_Returning r))"
  unfolding set_state_def by (rule flux_close) auto

lemma flux_start:
  assumes "flux img i e" "pc < code_size img"
  shows "exec_inv img (start e i pc v)"
proof -
  have "i < task_count e" using assms(1) by (simp add: inv_except_def)
  then show ?thesis
    unfolding start_def by (intro flux_close [OF assms(1)]) (use assms(2) in auto)
qed

lemma flux_done:
  assumes "flux img i e" "task_frames e i = []"
  shows "exec_inv img (set_state e i (S_Done r))"
proof -
  have "i < task_count e" using assms(1) by (simp add: inv_except_def)
  then show ?thesis
    unfolding set_state_def
    by (intro flux_close [OF assms(1)]) (use assms(2) in \<open>auto simp: task_frames_def\<close>)
qed

lemma flux_set_input: "flux img i e \<Longrightarrow> flux img i (set_input e i v)"
  unfolding set_input_def by (rule flux_update) auto

lemma flux_set_state: "flux img i e \<Longrightarrow> flux img i (set_state e i s)"
  unfolding set_state_def by (rule flux_update) auto

lemma inv_bindings:
  assumes "inv_except img x e" "length bs = length (ex_bindings e)"
  shows "inv_except img x (e\<lparr>ex_bindings := bs\<rparr>)"
proof -
  let ?e = "e\<lparr>ex_bindings := bs\<rparr>"
  have state: "state_ok img ?e k s = state_ok img e k s" for k s
    by (cases s) (auto simp: joined_def task_frames_def)
  show ?thesis
    using assms
    by (auto simp: inv_except_def storage_ok_def state task_frames_def parent_ok_def child_of_def
        parents_def waits_def cong: option.case_cong)
qed

text \<open>Counters the invariant does not read.\<close>

lemma inv_counters [simp]:
  "inv_except img x (e\<lparr>ex_cursor := c\<rparr>) = inv_except img x e"
  "inv_except img x (e\<lparr>ex_steps := n\<rparr>) = inv_except img x e"
  "inv_except img x (e\<lparr>ex_cleanup_steps := n\<rparr>) = inv_except img x e"
  "inv_except img x (e\<lparr>ex_aborting := b\<rparr>) = inv_except img x e"
proof -
  have state: "state_ok img (e\<lparr>ex_cursor := c\<rparr>) k s = state_ok img e k s"
    "state_ok img (e\<lparr>ex_steps := n\<rparr>) k s = state_ok img e k s"
    "state_ok img (e\<lparr>ex_cleanup_steps := n\<rparr>) k s = state_ok img e k s"
    "state_ok img (e\<lparr>ex_aborting := b\<rparr>) k s = state_ok img e k s" for k s
    by (cases s; auto simp: joined_def task_frames_def)+
  show "inv_except img x (e\<lparr>ex_cursor := c\<rparr>) = inv_except img x e"
    "inv_except img x (e\<lparr>ex_steps := n\<rparr>) = inv_except img x e"
    "inv_except img x (e\<lparr>ex_cleanup_steps := n\<rparr>) = inv_except img x e"
    "inv_except img x (e\<lparr>ex_aborting := b\<rparr>) = inv_except img x e"
    by (simp_all add: inv_except_def storage_ok_def state task_frames_def parent_ok_def child_of_def
        parents_def waits_def cong: option.case_cong)
qed

section \<open>Stacks\<close>

definition restack :: "('v, 'e) exec \<Rightarrow> nat \<Rightarrow> ('v, 'e) pool \<Rightarrow> stack \<Rightarrow> ('v, 'e) exec" where
  "restack e i p st = update_task (e\<lparr>ex_frames := p\<rparr>) i (\<lambda>t. t\<lparr>tk_stack := st\<rparr>)"

lemma restack_simps [simp]:
  "task_count (restack e i p st) = task_count e"
  "ex_frames (restack e i p st) = p"
  "ex_bindings (restack e i p st) = ex_bindings e"
  "ex_limits (restack e i p st) = ex_limits e"
  "ex_ticket (restack e i p st) = ex_ticket e"
  "ex_image_id (restack e i p st) = ex_image_id e"
  "ex_aborting (restack e i p st) = ex_aborting e"
  "ex_steps (restack e i p st) = ex_steps e"
  "ex_cleanup_steps (restack e i p st) = ex_cleanup_steps e"
  "ex_cursor (restack e i p st) = ex_cursor e"
  by (simp_all add: restack_def)

lemma task_at_restack [simp]:
  "i < task_count e \<Longrightarrow>
   task_at (restack e i p st) j = (if j = i then (task_at e i)\<lparr>tk_stack := st\<rparr> else task_at e j)"
  by (simp add: restack_def)

lemma map_stack_restack:
  "i < task_count e \<Longrightarrow>
   map tk_stack (ex_tasks (restack e i p st)) = (map tk_stack (ex_tasks e))[i := st]"
  by (intro nth_equalityI) (auto simp: restack_def update_task_def nth_list_update)

lemma restack_same [simp]:
  "i < task_count e \<Longrightarrow> restack e i (ex_frames e) (tk_stack (task_at e i)) = e"
  by (simp add: restack_def update_task_def task_at_def list_update_same_conv)

lemma parents_restack [simp]: "i < task_count e \<Longrightarrow> parents (restack e i p st) = parents e"
  by (auto simp: parents_def split: if_splits)

lemma waits_restack [simp]: "i < task_count e \<Longrightarrow> waits (restack e i p st) j k = waits e j k"
  by (auto simp: waits_def)

lemma storage_restack:
  assumes ok: "storage_ok img e" and i: "i < task_count e"
    and pool: "pool_inv p ((map tk_stack (ex_tasks e))[i := st])"
    and this_stack: "list_all (kind_ok (code_size img) (stride e)) (frames_of p st)"
    and others: "\<And>j. j < task_count e \<Longrightarrow> j \<noteq> i \<Longrightarrow>
      frames_of p (tk_stack (task_at e j)) = task_frames e j"
  shows "storage_ok img (restack e i p st)"
proof -
  have "task_frames (restack e i p st) j =
      (if j = i then frames_of p st else task_frames e j)" if "j < task_count e" for j
    using that i others by (simp add: task_frames_def)
  then show ?thesis
    using ok i pool this_stack by (auto simp: storage_ok_def map_stack_restack)
qed

lemma flux_restack:
  assumes flux: "flux img i e" and pool: "pool_inv p ((map tk_stack (ex_tasks e))[i := st])"
    and this_stack: "list_all (kind_ok (code_size img) (stride e)) (frames_of p st)"
    and others: "\<And>j. j < task_count e \<Longrightarrow> j \<noteq> i \<Longrightarrow>
      frames_of p (tk_stack (task_at e j)) = task_frames e j"
  shows "flux img i (restack e i p st)"
proof -
  have i: "i < task_count e" using flux by (simp add: inv_except_def)
  have state: "state_ok img (restack e i p st) k s = state_ok img e k s"
    if k: "k < task_count e" "k \<noteq> i" for k s
  proof -
    have "task_frames (restack e i p st) k = task_frames e k"
      using others [OF k] k i by (simp add: task_frames_def)
    moreover have "joined img (restack e i p st) k j = joined img e k j" for j
      using i by (auto simp: joined_def)
    ultimately show ?thesis using k i by (cases s) auto
  qed
  have "parent_ok (Some i) (restack e i p st) k = parent_ok (Some i) e k" for k
    using i by (cases "k = i") (auto simp: parent_ok_def child_of_def split: option.splits)
  moreover have "storage_ok img (restack e i p st)"
    using flux by (intro storage_restack [OF _ i pool this_stack others]) (simp add: inv_except_def)
  ultimately show ?thesis using flux i by (simp add: inv_except_def state)
qed

lemma storage_pool:
  assumes "storage_ok img e"
  shows "pool_inv (ex_frames e) (map tk_stack (ex_tasks e))"
    "i < task_count e \<Longrightarrow> list_all (kind_ok (code_size img) (stride e)) (task_frames e i)"
  using assms by (simp_all add: storage_ok_def)

lemma inv_exceptD:
  assumes "inv_except img x e"
  shows "storage_ok img e" "x = Some i \<Longrightarrow> i < task_count e"
    "i < task_count e \<Longrightarrow> Some i \<noteq> x \<Longrightarrow> state_ok img e i (tk_state (task_at e i))"
    "i < task_count e \<Longrightarrow> parent_ok x e i" "acyclic (parents e)"
    "0 < task_count e" "image_closed img"
  using assms by (simp_all add: inv_except_def storage_ok_def)

lemma exec_push_alt:
  "i < task_count e \<Longrightarrow> exec_push e i k =
     (case pool_push (ex_frames e, tk_stack (task_at e i)) k (lm_frames_per_task (ex_limits e)) of
        (r, p, st) \<Rightarrow> (r, restack e i p st))"
  by (simp add: exec_push_def restack_def task_at_def)

lemma exec_pop_alt:
  "i < task_count e \<Longrightarrow> exec_pop e i =
     (case pool_pop (ex_frames e, tk_stack (task_at e i)) of (r, p, st) \<Rightarrow> (r, restack e i p st))"
  by (simp add: exec_pop_def restack_def task_at_def)

lemma exec_push_full:
  assumes "storage_ok img e" "i < task_count e"
    and "lm_frames_per_task (ex_limits e) \<le> length (task_frames e i) \<or> pool_available (ex_frames e) = 0"
  shows "exec_push e i k = (Raise Fault_Frames, e)"
proof -
  have st: "map tk_stack (ex_tasks e) ! i = tk_stack (task_at e i)"
    using assms(2) by (simp add: task_at_def)
  show ?thesis
    using frames.push_full [OF storage_pool(1) [OF assms(1)], of i
        "lm_frames_per_task (ex_limits e)" k] assms(2,3)
    unfolding st by (simp add: exec_push_alt task_frames_def)
qed

text \<open>A push or pop changes the frames of its own task only.\<close>

definition pushes ::
  "('v, 'e) exec \<Rightarrow> nat \<Rightarrow> ('v, 'e) frame_kind list \<Rightarrow> ('v, 'e) exec \<Rightarrow> bool" where
  "pushes e i ks e' \<longleftrightarrow>
     (\<exists>p st. e' = restack e i p st) \<and>
     pool_inv (ex_frames e') (map tk_stack (ex_tasks e')) \<and> task_frames e' i = ks \<and>
     (\<forall>j < task_count e. j \<noteq> i \<longrightarrow> task_frames e' j = task_frames e j)"

lemma pushes_flux:
  assumes "pushes e i ks e'" "flux img i e" "list_all (kind_ok (code_size img) (stride e)) ks"
  shows "flux img i e'"
proof -
  have i: "i < task_count e" using assms(2) by (simp add: inv_except_def)
  obtain p st where e': "e' = restack e i p st" using assms(1) by (auto simp: pushes_def)
  show ?thesis
    unfolding e'
    by (rule flux_restack [OF assms(2)])
      (use assms(1,3) i in \<open>auto simp: pushes_def e' map_stack_restack task_frames_def\<close>)
qed

lemma exec_push_room:
  assumes ok: "storage_ok img e" and i: "i < task_count e"
    and room: "length (task_frames e i) < lm_frames_per_task (ex_limits e)"
      "0 < pool_available (ex_frames e)"
  shows "\<exists>e'. exec_push e i k = (Return (), e') \<and> pushes e i (k # task_frames e i) e' \<and>
    pool_available (ex_frames e') = pool_available (ex_frames e) - 1"
proof -
  let ?sts = "map tk_stack (ex_tasks e)"
  have st: "?sts ! i = tk_stack (task_at e i)" using i by (simp add: task_at_def)
  have sts: "j < task_count e \<Longrightarrow> ?sts ! j = tk_stack (task_at e j)" for j by (simp add: task_at_def)
  have "length (frames_of (ex_frames e) (?sts ! i)) < lm_frames_per_task (ex_limits e)" "i < length ?sts"
    using room(1) i by (simp_all add: st task_frames_def)
  from frames.push_room [OF storage_pool(1) [OF ok] this(2,1) room(2), of k] obtain p st' where
    p: "pool_push (ex_frames e, tk_stack (task_at e i)) k (lm_frames_per_task (ex_limits e)) =
      (Return (), p, st')"
    "pool_inv p (?sts[i := st'])" "frames_of p st' = k # task_frames e i"
    "pool_available p = pool_available (ex_frames e) - 1"
    "\<forall>j < length ?sts. j \<noteq> i \<longrightarrow> frames_of p (?sts ! j) = frames_of (ex_frames e) (?sts ! j)"
    unfolding st task_frames_def by blast
  then have others: "\<forall>j < task_count e. j \<noteq> i \<longrightarrow>
      frames_of p (tk_stack (task_at e j)) = frames_of (ex_frames e) (tk_stack (task_at e j))"
    using sts by simp
  show ?thesis
    by (intro exI [of _ "restack e i p st'"])
      (use p others i in \<open>auto simp: exec_push_alt pushes_def map_stack_restack task_frames_def\<close>)
qed

lemma exec_pop_cases:
  assumes ok: "storage_ok img e" and i: "i < task_count e"
  shows "task_frames e i = [] \<Longrightarrow> exec_pop e i = (Return None, e)"
    "task_frames e i = k # ks \<Longrightarrow> \<exists>e'. exec_pop e i = (Return (Some k), e') \<and> pushes e i ks e' \<and>
      pool_available (ex_frames e') = pool_available (ex_frames e) + 1"
proof -
  let ?sts = "map tk_stack (ex_tasks e)"
  note pool = storage_pool(1) [OF ok]
  have st: "?sts ! i = tk_stack (task_at e i)" "i < length ?sts" using i by (simp_all add: task_at_def)
  show "exec_pop e i = (Return None, e)" if "task_frames e i = []"
    using frames.pop_empty [OF pool st(2)] that st i
    by (simp add: exec_pop_alt task_frames_def)
  assume top: "task_frames e i = k # ks"
  have sts: "j < task_count e \<Longrightarrow> ?sts ! j = tk_stack (task_at e j)" for j by (simp add: task_at_def)
  from top have "frames_of (ex_frames e) (?sts ! i) = k # ks" by (simp add: st task_frames_def)
  from frames.pop_top [OF pool st(2) this] obtain p st' where
    p: "pool_pop (ex_frames e, tk_stack (task_at e i)) = (Return (Some k), p, st')"
    "pool_inv p (?sts[i := st'])" "frames_of p st' = ks"
    "pool_available p = pool_available (ex_frames e) + 1"
    "\<forall>j < length ?sts. j \<noteq> i \<longrightarrow> frames_of p (?sts ! j) = frames_of (ex_frames e) (?sts ! j)"
    unfolding st by blast
  then have others: "\<forall>j < task_count e. j \<noteq> i \<longrightarrow>
      frames_of p (tk_stack (task_at e j)) = frames_of (ex_frames e) (tk_stack (task_at e j))"
    using sts by simp
  show "\<exists>e'. exec_pop e i = (Return (Some k), e') \<and> pushes e i ks e' \<and>
      pool_available (ex_frames e') = pool_available (ex_frames e) + 1"
    by (intro exI [of _ "restack e i p st'"])
      (use p others i in \<open>auto simp: exec_pop_alt pushes_def map_stack_restack task_frames_def\<close>)
qed

end
