(* ===== verification/Machine_Safety.thy ===== *)
theory Machine_Safety
  imports Machine_Invariant
begin

text \<open>
  Every operation of the machine keeps its invariant and does not panic. The steps of a transition
  are composed with the outcome predicate \<open>ends\<close>: on return the invariant holds again, on a fault
  it holds for every task but the one that ran, which the scheduler then makes return the fault.
\<close>

section \<open>Relating the states before and after\<close>

text \<open>
  What no step changes, and how requests appear: a task that waits afterwards on a ticket waited on
  it before, or the ticket is new.
\<close>

definition progress :: "('v, 'e) exec \<Rightarrow> ('v, 'e) exec \<Rightarrow> bool" where
  "progress e e' \<longleftrightarrow>
     ex_limits e' = ex_limits e \<and> task_count e' = task_count e \<and> ex_image_id e' = ex_image_id e \<and>
     ex_steps e' = ex_steps e \<and> ex_cleanup_steps e' = ex_cleanup_steps e \<and>
     ex_aborting e' = ex_aborting e \<and> ex_cursor e' = ex_cursor e \<and>
     ex_ticket e \<le> ex_ticket e' \<and>
     (\<forall>j k. waits e' j k \<longrightarrow> waits e j k \<or> ex_ticket e < k)"

lemma progress_refl [simp]: "progress e e"
  by (simp add: progress_def)

lemma progress_trans: "progress e e' \<Longrightarrow> progress e' e'' \<Longrightarrow> progress e e''"
  unfolding progress_def using le_less_trans order_trans by metis

definition fluxes :: "('v, 'e) image \<Rightarrow> nat \<Rightarrow> ('v, 'e) exec \<Rightarrow> ('v, 'e) exec \<Rightarrow> bool" where
  "fluxes img i e e' \<longleftrightarrow> flux img i e' \<and> progress e e'"

definition settled :: "('v, 'e) image \<Rightarrow> ('v, 'e) exec \<Rightarrow> ('v, 'e) exec \<Rightarrow> bool" where
  "settled img e e' \<longleftrightarrow> exec_inv img e' \<and> progress e e'"

text \<open>The faults a transition of a validated image can raise.\<close>

definition resource_faults :: "fault set" where
  "resource_faults = {Fault_Frames, Fault_Tasks, Fault_MissingBinding, Fault_SequenceExhausted}"

abbreviation faulted ::
  "('v, 'e) image \<Rightarrow> nat \<Rightarrow> ('v, 'e) exec \<Rightarrow> fault \<Rightarrow> ('v, 'e) exec \<Rightarrow> bool" where
  "faulted img i e f e' \<equiv> fluxes img i e e' \<and> f \<in> resource_faults"

abbreviation settles ::
  "('v, 'e) image \<Rightarrow> nat \<Rightarrow> ('v, 'e) exec \<Rightarrow> ('a, fault) comp \<times> ('v, 'e) exec \<Rightarrow> bool" where
  "settles img i e \<equiv> ends (\<lambda>_. settled img e) (faulted img i e)"

lemma fluxes_count: "fluxes img i e0 e \<Longrightarrow> i < task_count e"
  by (simp add: fluxes_def inv_except_def)

lemma fluxes_storage: "fluxes img i e0 e \<Longrightarrow> storage_ok img e"
  by (simp add: fluxes_def inv_except_def)

lemma fluxes_refl: "flux img i e \<Longrightarrow> fluxes img i e e"
  by (simp add: fluxes_def)

lemma progress_update:
  assumes "i < task_count e" "progress e0 e"
    and "\<And>k node. tk_state (f (task_at e i)) = S_Waiting k node \<Longrightarrow> waits e i k \<or> ex_ticket e < k"
  shows "progress e0 (update_task e i f)"
proof (rule progress_trans [OF assms(2)])
  show "progress e (update_task e i f)"
    using assms(1,3) by (auto simp: progress_def waits_def split: if_splits)
qed

lemma fluxes_update:
  assumes "fluxes img i e0 e"
    and "\<And>t. tk_stack (f t) = tk_stack t" "\<And>t. tk_parent (f t) = tk_parent t"
    and "\<And>t. tk_state (f t) = tk_state t"
  shows "fluxes img i e0 (update_task e i f)"
  using assms(1) flux_update [of img i e f] fluxes_count [OF assms(1)]
  by (auto simp: fluxes_def assms(2-) waits_def intro!: progress_update)

lemma fluxes_set_input: "fluxes img i e0 e \<Longrightarrow> fluxes img i e0 (set_input e i v)"
  unfolding set_input_def by (rule fluxes_update) simp_all

lemma settledI:
  assumes "fluxes img i e0 e" "exec_inv img (update_task e i f)"
    and "\<And>k node. tk_state (f (task_at e i)) \<noteq> S_Waiting k node"
  shows "settled img e0 (update_task e i f)"
  using assms fluxes_count [OF assms(1)] progress_update [of i e e0 f]
  by (simp add: settled_def fluxes_def)

lemma settled_returning:
  assumes "fluxes img i e0 e"
  shows "settled img e0 (set_state e i (S_Returning r))"
proof -
  have "exec_inv img (set_state e i (S_Returning r))"
    using assms flux_returning by (auto simp: fluxes_def)
  then show ?thesis unfolding set_state_def by (intro settledI [OF assms]) simp_all
qed

lemma settled_start:
  assumes "fluxes img i e0 e" "pc < code_size img"
  shows "settled img e0 (start e i pc v)"
proof -
  have "exec_inv img (start e i pc v)" using assms flux_start by (auto simp: fluxes_def)
  then show ?thesis unfolding start_def by (intro settledI [OF assms(1)]) simp_all
qed

lemma settled_done:
  assumes "fluxes img i e0 e" "task_frames e i = []"
  shows "settled img e0 (set_state e i (S_Done r))"
proof -
  have "exec_inv img (set_state e i (S_Done r))" using assms flux_done by (auto simp: fluxes_def)
  then show ?thesis unfolding set_state_def by (intro settledI [OF assms(1)]) simp_all
qed

lemma fluxes_bindings:
  "fluxes img i e0 e \<Longrightarrow> length bs = length (ex_bindings e) \<Longrightarrow> fluxes img i e0 (e\<lparr>ex_bindings := bs\<rparr>)"
  using inv_bindings [of img "Some i" e bs] progress_trans [of e0 e "e\<lparr>ex_bindings := bs\<rparr>"]
  by (simp add: fluxes_def) (simp add: progress_def waits_def)

lemma fluxes_open:
  assumes "exec_inv img e" "i < task_count e" "state_join (tk_state (task_at e i)) = None"
    "\<not> is_free (tk_state (task_at e i))"
  shows "fluxes img i e e"
  using flux_open [OF assms] by (rule fluxes_refl)

section \<open>Addresses in a closed image\<close>

lemma closed_node:
  assumes "image_closed img" "pc < code_size img"
  shows "nd_next (img_nodes img ! pc) = Some a \<Longrightarrow> a < code_size img"
    "list_all (\<lambda>a. a < code_size img) (kind_nodes (nd_kind (img_nodes img ! pc)))"
    "list_all (\<lambda>a. a < img_imports img) (kind_imports (nd_kind (img_nodes img ! pc)))"
    "list_all (\<lambda>a. a < img_bindings img) (kind_bindings (nd_kind (img_nodes img ! pc)))"
proof -
  have "node_closed (code_size img) (img_imports img) (img_bindings img) (img_nodes img ! pc)"
    using assms by (simp add: image_closed_def)
  then show "nd_next (img_nodes img ! pc) = Some a \<Longrightarrow> a < code_size img"
    "list_all (\<lambda>a. a < code_size img) (kind_nodes (nd_kind (img_nodes img ! pc)))"
    "list_all (\<lambda>a. a < img_imports img) (kind_imports (nd_kind (img_nodes img ! pc)))"
    "list_all (\<lambda>a. a < img_bindings img) (kind_bindings (nd_kind (img_nodes img ! pc)))"
    by (auto simp: node_closed_def node_targets_def list_all_iff)
qed

lemma fluxes_closed: "fluxes img i e0 e \<Longrightarrow> image_closed img"
  by (simp add: fluxes_def inv_except_def storage_ok_def)

lemma image_node_in: "pc < code_size img \<Longrightarrow> image_node img pc = Ok (img_nodes img ! pc)"
  by simp

section \<open>Pushing, popping and finishing\<close>

lemma pushes_progress: "pushes e i ks e' \<Longrightarrow> i < task_count e \<Longrightarrow> progress e e'"
  by (auto simp: pushes_def progress_def)

lemma pushes_fluxes:
  assumes "fluxes img i e0 e" "pushes e i ks e'" "list_all (kind_ok (code_size img) (stride e)) ks"
  shows "fluxes img i e0 e'"
  using assms pushes_flux [OF assms(2) _ assms(3)] pushes_progress [OF assms(2)] fluxes_count
    progress_trans unfolding fluxes_def by blast

lemma pushes_keeps: "pushes e i ks e' \<Longrightarrow> ex_limits e' = ex_limits e \<and> ex_bindings e' = ex_bindings e"
  by (auto simp: pushes_def)

lemma pushes_task:
  "pushes e i ks e' \<Longrightarrow> i < task_count e \<Longrightarrow> \<exists>st. task_at e' i = (task_at e i)\<lparr>tk_stack := st\<rparr>"
  by (auto simp: pushes_def)

lemma push_ends:
  assumes flux: "fluxes img i e0 e" and k: "kind_ok (code_size img) (stride e) k"
  shows "ends (\<lambda>_ e'. fluxes img i e0 e' \<and> pushes e i (k # task_frames e i) e')
    (faulted img i e0) (exec_push e i k)"
proof (cases "length (task_frames e i) < lm_frames_per_task (ex_limits e) \<and>
    0 < pool_available (ex_frames e)")
  case True
  then obtain e' where "exec_push e i k = (Return (), e')" "pushes e i (k # task_frames e i) e'"
    using exec_push_room [OF fluxes_storage [OF flux] fluxes_count [OF flux], of k] by blast
  moreover have "list_all (kind_ok (code_size img) (stride e)) (k # task_frames e i)"
    using k storage_pool(2) [OF fluxes_storage [OF flux] fluxes_count [OF flux]] by simp
  ultimately show ?thesis using pushes_fluxes [OF flux] by simp
next
  case False
  then have "exec_push e i k = (Raise Fault_Frames, e)"
    using exec_push_full [OF fluxes_storage [OF flux] fluxes_count [OF flux], of k] by auto
  then show ?thesis using flux by (simp add: resource_faults_def)
qed

lemma pop_ends:
  assumes flux: "fluxes img i e0 e"
  shows "ends (\<lambda>k e'. fluxes img i e0 e' \<and>
      (case k of
         None \<Rightarrow> e' = e \<and> task_frames e i = []
       | Some k \<Rightarrow> kind_ok (code_size img) (stride e') k \<and>
           (\<exists>ks. task_frames e i = k # ks \<and> pushes e i ks e')))
    (faulted img i e0) (exec_pop e i)"
proof (cases "task_frames e i")
  case Nil
  then show ?thesis
    using exec_pop_cases(1) [OF fluxes_storage [OF flux] fluxes_count [OF flux]] flux by simp
next
  case (Cons k ks)
  then obtain e' where e': "exec_pop e i = (Return (Some k), e')" "pushes e i ks e'"
    using exec_pop_cases(2) [OF fluxes_storage [OF flux] fluxes_count [OF flux]] by blast
  moreover have ok: "list_all (kind_ok (code_size img) (stride e)) (k # ks)"
    using storage_pool(2) [OF fluxes_storage [OF flux] fluxes_count [OF flux]] Cons by simp
  ultimately show ?thesis using pushes_fluxes [OF flux e'(2)] pushes_keeps [OF e'(2)] Cons by simp
qed

lemma finish_settles:
  assumes flux: "fluxes img i e0 e" and node: "node < code_size img"
  shows "settles img i e0 (finish vs img e i node r)"
  using node closed_node(1) [OF fluxes_closed [OF flux] node] settled_returning [OF flux]
    settled_start [OF flux]
  by (auto simp: finish_def image_node_in split: result.splits option.splits)

lemma check_ends:
  assumes flux: "fluxes img i e0 e" and n: "n \<le> u32_max"
  shows "ends (\<lambda>_ e'. e' = e \<and>
      length (task_frames e i) + n \<le> lm_frames_per_task (ex_limits e) \<and>
      n \<le> pool_available (ex_frames e)) (faulted img i e0) (exec_check e i n)"
proof -
  have i: "i < task_count e" by (rule fluxes_count [OF flux])
  then have st: "map tk_stack (ex_tasks e) ! i = tk_stack (task_at e i)" by (simp add: task_at_def)
  show ?thesis
    using frames.check_iff [OF storage_pool(1) [OF fluxes_storage [OF flux]], of i n
        "lm_frames_per_task (ex_limits e)"] i n flux
    unfolding st by (simp add: exec_check_def task_at_def [symmetric] task_frames_def resource_faults_def)
qed

section \<open>The arm of returning tasks\<close>

lemma binding_index:
  assumes "storage_ok img e" "i < task_count e" "s < stride e"
  shows "i * stride e + s < length (ex_bindings e)"
proof -
  have "i * stride e + stride e \<le> task_count e * stride e"
    using assms(2) mult_le_mono1 [of "Suc i" "task_count e" "stride e"] by simp
  then show ?thesis using assms(1,3) by (simp add: storage_ok_def)
qed

lemma return_bind_settles:
  assumes flux: "fluxes img i e0 e" and ok: "slot < stride e" "body < code_size img"
  shows "settles img i e0 (return_bind e i slot body v)"
proof -
  have index: "i * stride e + slot < length (ex_bindings e)"
    using binding_index [OF fluxes_storage [OF flux] fluxes_count [OF flux] ok(1)] .
  let ?e = "e\<lparr>ex_bindings := (ex_bindings e)[i * stride e + slot := None]\<rparr>"
  have flux': "fluxes img i e0 ?e" by (rule fluxes_bindings [OF flux]) simp
  have push: "settles img i e0 (and_then
      (exec_push ?e i (K_Unbind slot (ex_bindings e ! (i * stride e + slot))))
      (\<lambda>_ e'. (Return (), start (e'\<lparr>ex_bindings := (ex_bindings e')[i * stride e + slot := Some v]\<rparr>)
        i body v)))"
  proof (rule ends_and_then [OF push_ends [OF flux']])
    show "kind_ok (code_size img) (stride ?e) (K_Unbind slot (ex_bindings e ! (i * stride e + slot)))"
      using ok(1) by (simp add: kind_ok_def)
    fix a e'
    assume "fluxes img i e0 e' \<and> pushes ?e i (K_Unbind slot (ex_bindings e ! (i * stride e + slot)) #
        task_frames ?e i) e'"
    then have "fluxes img i e0 (e'\<lparr>ex_bindings := (ex_bindings e')[i * stride e + slot := Some v]\<rparr>)"
      by (intro fluxes_bindings) simp_all
    then show "settles img i e0 (Return (), start
        (e'\<lparr>ex_bindings := (ex_bindings e')[i * stride e + slot := Some v]\<rparr>) i body v)"
      using settled_start ok(2) by simp
  qed
  show ?thesis
    unfolding return_bind_def Let_def using ok(1) index push
    by (auto simp: u32_max_def intro!: ends_and_then [OF check_ends [OF flux]])
qed

lemma return_frame_settles:
  assumes flux: "fluxes img i e0 e" and ok: "kind_ok (code_size img) (stride e) k"
  shows "settles img i e0 (return_frame vs img e i outcome k)"
proof -
  note simple = settled_returning [OF flux] settled_start [OF flux]
  note push = ends_and_then [OF push_ends [OF flux]]
  show ?thesis
  proof (cases k)
    case (K_Then a)
    then show ?thesis using ok simple by (auto simp: kind_ok_def split: result.splits)
  next
    case (K_Catch a)
    then show ?thesis using ok simple by (auto simp: kind_ok_def Let_def split: result.splits)
  next
    case (K_Finally a v)
    have "settled img e0 (start (update_task e' i (\<lambda>t. t\<lparr>tk_cleaning := tk_cleaning t + 1\<rparr>)) i a v)"
      if "fluxes img i e0 e'" for e'
      using ok K_Finally
      by (intro settled_start fluxes_update that) (simp_all add: kind_ok_def)
    then show ?thesis
      unfolding K_Finally return_frame.simps by (intro push) (auto simp: kind_ok_def)
  next
    case (K_Cleaned r)
    then show ?thesis
      using settled_returning [OF fluxes_update [OF flux]] by (simp add: Let_def)
  next
    case (K_Context c)
    then show ?thesis
      using settled_returning [OF fluxes_update [OF flux]] by simp
  next
    case (K_Choose y n v)
    then show ?thesis using ok simple by (auto simp: kind_ok_def split: result.splits)
  next
    case (K_Bind s b)
    then show ?thesis
      using ok simple return_bind_settles [OF flux] by (auto simp: kind_ok_def split: result.splits)
  next
    case (K_Unbind s v)
    then have s: "s < stride e" using ok by (simp add: kind_ok_def)
    then show ?thesis
      using K_Unbind binding_index [OF fluxes_storage [OF flux] fluxes_count [OF flux] s]
        settled_returning [OF fluxes_bindings [OF flux]]
      by (simp add: Let_def)
  next
    case (K_Condition c b n v)
    have "settles img i e0 (and_then (exec_push e i (K_Iteration c b (n - 1)))
        (\<lambda>_ e. (Return (), start e i b (v_influence vs v test))))" for test
      using ok K_Condition by (intro push) (auto simp: kind_ok_def intro: settled_start)
    then show ?thesis
      using K_Condition simple by (auto split: result.splits bool.splits)
  next
    case (K_Iteration c b n)
    have "settles img i e0 (and_then (exec_push e i (K_Condition c b n v))
        (\<lambda>_ e. (Return (), start e i c v)))" for v
      using ok K_Iteration by (intro push) (auto simp: kind_ok_def intro: settled_start)
    then show ?thesis using K_Iteration simple by (auto split: result.splits)
  qed (use ok finish_settles [OF flux] in \<open>auto simp: kind_ok_def\<close>)
qed

lemma return_step_settles:
  assumes flux: "fluxes img i e0 e"
  shows "settles img i e0 (return_step vs img e i r)"
  unfolding return_step_def Let_def
  by (rule ends_and_then [OF pop_ends [OF fluxes_set_input [OF flux]]])
    (auto split: option.splits intro: return_frame_settles settled_done)

section \<open>Cancelling a subtree\<close>

text \<open>Two states that differ only in cancellation marks of live tasks.\<close>

definition marks :: "('v, 'e) exec \<Rightarrow> ('v, 'e) exec \<Rightarrow> bool" where
  "marks e e' \<longleftrightarrow>
     (\<exists>ts. e' = e\<lparr>ex_tasks := ts\<rparr>) \<and> task_count e' = task_count e \<and>
     (\<forall>i < task_count e. task_at e' i = task_at e i \<or>
        (\<not> is_free (tk_state (task_at e i)) \<and> task_at e' i = (task_at e i)\<lparr>tk_cancelled := True\<rparr>))"

lemma marksI:
  assumes "e' = e\<lparr>ex_tasks := ts\<rparr>" "task_count e' = task_count e"
    and "\<And>i. i < task_count e \<Longrightarrow> task_at e' i = task_at e i \<or>
      (\<not> is_free (tk_state (task_at e i)) \<and> task_at e' i = (task_at e i)\<lparr>tk_cancelled := True\<rparr>)"
  shows "marks e e'"
  using assms unfolding marks_def by blast

lemma marks_refl [simp]: "marks e e"
  by (rule marksI [where ts = "ex_tasks e"]) simp_all

lemma marks_fields:
  assumes "marks e e'" "i < task_count e"
  shows "tk_state (task_at e' i) = tk_state (task_at e i)" "tk_stack (task_at e' i) = tk_stack (task_at e i)"
    "tk_parent (task_at e' i) = tk_parent (task_at e i)" "tk_pc (task_at e' i) = tk_pc (task_at e i)"
    "tk_input (task_at e' i) = tk_input (task_at e i)"
    "is_free (tk_state (task_at e i)) \<Longrightarrow> task_at e' i = task_at e i"
  using assms by (auto simp: marks_def)

lemma marks_same:
  assumes "marks e e'"
  shows "ex_frames e' = ex_frames e" "ex_bindings e' = ex_bindings e" "ex_limits e' = ex_limits e"
    "ex_ticket e' = ex_ticket e" "ex_image_id e' = ex_image_id e" "task_count e' = task_count e"
    "ex_steps e' = ex_steps e" "ex_cleanup_steps e' = ex_cleanup_steps e"
    "ex_aborting e' = ex_aborting e" "ex_cursor e' = ex_cursor e"
  using assms by (auto simp: marks_def)

lemma marks_inv:
  assumes m: "marks e e'" and inv: "inv_except img x e"
  shows "inv_except img x e'"
proof -
  note f = marks_fields [OF m] and same = marks_same [OF m]
  have "map tk_stack (ex_tasks e') = map tk_stack (ex_tasks e)"
    using f(2) same(6) by (intro nth_equalityI) (simp_all add: task_at_def)
  moreover have frames: "i < task_count e \<Longrightarrow> task_frames e' i = task_frames e i" for i
    by (simp add: task_frames_def f same)
  ultimately have "storage_ok img e'" using inv same by (simp add: inv_except_def storage_ok_def)
  moreover have "joined img e' i j = joined img e i j" for i j
    by (auto simp: joined_def same f)
  then have "state_ok img e' i s = state_ok img e i s"
    if "i < task_count e" "tk_state (task_at e i) = s" for i s
    using that by (cases s) (auto simp: f frames same)
  moreover have "parent_ok x e' i = parent_ok x e i" if "i < task_count e" for i
    using that by (auto simp: parent_ok_def child_of_def f same split: option.splits)
  moreover have "waits e' i k = waits e i k" for i k by (auto simp: waits_def f same)
  moreover have "parents e' = parents e" by (auto simp: parents_def f same)
  ultimately show ?thesis using inv by (simp add: inv_except_def same f)
qed

lemma marks_progress: "marks e e' \<Longrightarrow> progress e e'"
  by (auto simp: progress_def marks_same waits_def marks_fields)

lemma parent_below: "inv_except img x e \<Longrightarrow> (p, i) \<in> parents e \<Longrightarrow> p < task_count e \<and> i < task_count e"
  by (auto simp: inv_except_def parents_def parent_ok_def child_of_def split: option.splits)

lemma finite_parents:
  assumes "inv_except img x e"
  shows "finite (parents e)"
proof (rule finite_subset)
  show "parents e \<subseteq> {..<task_count e} \<times> {..<task_count e}" using parent_below [OF assms] by auto
qed simp

text \<open>The walk finds \<open>root\<close> exactly when it is a proper ancestor.\<close>

lemma meets_root_eq:
  assumes inv: "inv_except img x e" and i: "i < task_count e"
  shows "meets_root (ex_tasks e) root (tk_parent (task_at e i)) = Some ((root, i) \<in> (parents e)\<^sup>+)"
  using i
proof (induction i rule: wf_induct_rule [OF finite_acyclic_wf [OF finite_parents [OF inv] inv_exceptD(5) [OF inv]]])
  case (1 i)
  show ?case
  proof (cases "tk_parent (task_at e i)")
    case None
    then have "(root, i) \<notin> (parents e)\<^sup>+"
      by (auto simp: parents_def dest: tranclD2)
    then show ?thesis using None by (simp add: meets_root.simps)
  next
    case (Some p)
    then have edge: "(p, i) \<in> parents e" using 1(2) by (simp add: parents_def)
    have p: "p < task_count e" using parent_below [OF inv edge] by simp
    have "(root, i) \<in> (parents e)\<^sup>+ \<longleftrightarrow> root = p \<or> (root, p) \<in> (parents e)\<^sup>+"
    proof
      assume "(root, i) \<in> (parents e)\<^sup>+"
      then obtain q where "(root, q) \<in> (parents e)\<^sup>*" "(q, i) \<in> parents e" by (auto dest: tranclD2)
      moreover from this(2) have "q = p" using Some by (simp add: parents_def)
      ultimately show "root = p \<or> (root, p) \<in> (parents e)\<^sup>+" by (auto dest: rtranclD)
    qed (use edge in auto)
    then show ?thesis
      using Some 1(1) [OF edge p] p
      by (subst meets_root.simps) (auto simp: task_at_def)
  qed
qed

lemma live_parent:
  assumes "exec_inv img e" "i < task_count e" "is_free (tk_state (task_at e i))"
  shows "tk_parent (task_at e i) = None"
  using inv_exceptD(3) [OF assms(1,2)] assms(3)
  by (cases "tk_state (task_at e i)") (auto simp: task_default_def)

lemma cancel_tree_marks:
  assumes inv: "exec_inv img e" and root: "root < task_count e"
    and live: "\<not> is_free (tk_state (task_at e root))"
  shows "\<exists>e'. cancel_tree e root = (Return (), e') \<and> marks e e' \<and>
    (\<forall>i < task_count e. task_at e' i =
       (if i = root \<or> (root, i) \<in> (parents e)\<^sup>+ then (task_at e i)\<lparr>tk_cancelled := True\<rparr>
        else task_at e i))"
proof -
  let ?e = "update_task e root (\<lambda>t. t\<lparr>tk_cancelled := True\<rparr>)"
  let ?walk = "\<lambda>t. meets_root (ex_tasks ?e) root (tk_parent t)"
  let ?e' = "?e\<lparr>ex_tasks := map (\<lambda>t. if ?walk t = Some True then t\<lparr>tk_cancelled := True\<rparr> else t)
      (ex_tasks ?e)\<rparr>"
  have "marks e ?e"
    using root live by (intro marksI [where ts = "ex_tasks ?e"]) (auto simp: update_task_def task_at_def nth_list_update)
  then have inv': "exec_inv img ?e" using marks_inv inv by blast
  have par: "parents ?e = parents e" using root by (auto simp: parents_def split: if_splits)
  have walk: "?walk (task_at ?e i) = Some ((root, i) \<in> (parents e)\<^sup>+)" if "i < task_count e" for i
    using meets_root_eq [OF inv', of i root] that by (simp add: par)
  have tasks: "t \<in> set (ex_tasks ?e) \<Longrightarrow> \<exists>i < task_count e. t = task_at ?e i" for t
    by (auto simp: in_set_conv_nth task_at_def)
  have "cancel_tree e root = (Return (), ?e')"
  proof -
    have "\<not> list_ex (\<lambda>t. ?walk t = None) (ex_tasks ?e)"
      using tasks walk by (fastforce simp: list_ex_iff)
    then show ?thesis using root by (simp add: cancel_tree_def Let_def)
  qed
  moreover have at: "task_at ?e' i =
      (if i = root \<or> (root, i) \<in> (parents e)\<^sup>+ then (task_at e i)\<lparr>tk_cancelled := True\<rparr> else task_at e i)"
    if i: "i < task_count e" for i
  proof -
    have "task_at ?e' i =
        (if ?walk (task_at ?e i) = Some True then (task_at ?e i)\<lparr>tk_cancelled := True\<rparr> else task_at ?e i)"
      using i by (simp add: task_at_def)
    then show ?thesis unfolding walk [OF i] using root by auto
  qed
  moreover have "marks e ?e'"
  proof -
    have "\<not> is_free (tk_state (task_at e i))" if "(root, i) \<in> (parents e)\<^sup>+" "i < task_count e" for i
    proof -
      have "tk_parent (task_at e i) \<noteq> None"
        using that(1) by (auto simp: parents_def dest: tranclD2)
      then show ?thesis using live_parent [OF inv that(2)] by auto
    qed
    then show ?thesis
      using at live by (intro marksI [where ts = "ex_tasks ?e'"]) (auto simp: update_task_def)
  qed
  ultimately show ?thesis by blast
qed

section \<open>Freeing and joining tasks\<close>

lemma pool_drain_empties:
  "pool_inv p sts \<Longrightarrow> i < length sts \<Longrightarrow>
   \<exists>p' st'. pool_drain (p, sts ! i) = (Return (), p', st') \<and> pool_inv p' (sts[i := st']) \<and>
     frames_of p' st' = [] \<and>
     (\<forall>j < length sts. j \<noteq> i \<longrightarrow> frames_of p' (sts ! j) = frames_of p (sts ! j))"
proof (induction "frames_of p (sts ! i)" arbitrary: p sts)
  case Nil
  then show ?case
    using frames.pop_empty [of p sts i]
    by (auto simp: pool_drain.simps list_update_same_conv)
next
  case (Cons k ks)
  from frames.pop_top [OF Cons.prems Cons.hyps(2) [symmetric]] obtain q st where q:
    "pool_pop (p, sts ! i) = (Return (Some k), q, st)" "pool_inv q (sts[i := st])"
    "frames_of q st = ks"
    "\<forall>j < length sts. j \<noteq> i \<longrightarrow> frames_of q (sts ! j) = frames_of p (sts ! j)"
    by blast
  have "ks = frames_of q (sts[i := st] ! i)" using q Cons.prems by simp
  from Cons.hyps(1) [OF this q(2)] Cons.prems(2) obtain p' st' where
    "pool_drain (q, st) = (Return (), p', st')" "pool_inv p' (sts[i := st'])" "frames_of p' st' = []"
    "\<forall>j < length sts. j \<noteq> i \<longrightarrow> frames_of p' (sts ! j) = frames_of q (sts ! j)"
    by auto
  then show ?case
    using q by (intro exI [of _ p'] exI [of _ st']) (simp add: pool_drain.simps [of "(p, sts ! i)"])
qed

lemma pool_inv_empty_stack:
  assumes "pool_inv p sts" "i < length sts" "frames_of p (sts ! i) = []"
  shows "sts ! i = stack_default"
proof -
  from assms(1,2) obtain js where js: "stack_links p (sts ! i) js"
    by (metis pool_invE list_all2_nthD)
  then have "js = []" using frames_of_links [OF js] assms(3) by simp
  then show ?thesis using js by (simp add: stack_links_def stack_default_def stack.equality)
qed

lemma length_fill_none:
  "base + n \<le> length bs \<Longrightarrow> length (fill_none bs base n) = length bs"
  by (simp add: fill_none_def)

lemma task_frames_default [simp]: "task_at e i = task_default \<Longrightarrow> task_frames e i = []"
  by (simp add: task_frames_def task_default_def)

text \<open>Freeing a task empties its stack and its bindings, whatever state it is in.\<close>

definition frees :: "('v, 'e) exec \<Rightarrow> nat \<Rightarrow> ('v, 'e) exec \<Rightarrow> bool" where
  "frees e i e' \<longleftrightarrow>
     ex_limits e' = ex_limits e \<and> task_count e' = task_count e \<and> ex_image_id e' = ex_image_id e \<and>
     ex_steps e' = ex_steps e \<and> ex_cleanup_steps e' = ex_cleanup_steps e \<and>
     ex_aborting e' = ex_aborting e \<and> ex_cursor e' = ex_cursor e \<and> ex_ticket e' = ex_ticket e \<and>
     (\<forall>k < task_count e. task_at e' k = (if k = i then task_default else task_at e k)) \<and>
     (\<forall>k < task_count e. k \<noteq> i \<longrightarrow> task_frames e' k = task_frames e k)"

lemma free_task_frees:
  assumes ok: "storage_ok img e" and i: "i < task_count e"
  shows "\<exists>e'. free_task e i = (Return (), e') \<and> storage_ok img e' \<and> frees e i e'"
proof -
  let ?sts = "map tk_stack (ex_tasks e)"
  have st: "?sts ! j = tk_stack (task_at e j)" if "j < task_count e" for j
    using that by (simp add: task_at_def)
  from pool_drain_empties [OF storage_pool(1) [OF ok], of i, unfolded length_map, OF i]
  obtain p st' where
    drain: "pool_drain (ex_frames e, ?sts ! i) = (Return (), p, st')"
    and pool: "pool_inv p (?sts[i := st'])" "frames_of p st' = []"
      "\<forall>j < task_count e. j \<noteq> i \<longrightarrow> frames_of p (?sts ! j) = frames_of (ex_frames e) (?sts ! j)"
    by blast
  have st': "st' = stack_default" using pool_inv_empty_stack [OF pool(1), of i] pool(2) i by simp
  let ?bs = "fill_none (ex_bindings e) (i * stride e) (stride e)"
  let ?e = "update_task ((restack e i p st')\<lparr>ex_bindings := ?bs\<rparr>) i (\<lambda>_. task_default)"
  have room: "i * stride e + stride e \<le> length (ex_bindings e)"
  proof -
    have "Suc i * stride e \<le> task_count e * stride e" using i by (intro mult_le_mono1) simp
    then show ?thesis using ok by (simp add: storage_ok_def)
  qed
  have "free_task e i = (Return (), ?e)"
    using i drain room by (simp add: free_task_def Let_def restack_def)
  moreover have at: "task_at ?e k = (if k = i then task_default else task_at e k)" for k
    using i by simp
  moreover have fr: "task_frames ?e k = (if k = i then [] else task_frames e k)"
    if "k < task_count e" for k
    using that i pool(3) st by (simp add: task_frames_def at task_default_def)
  moreover have "storage_ok img ?e"
  proof -
    have "map tk_stack (ex_tasks ?e) = ?sts[i := stack_default]"
      using i by (intro nth_equalityI) (auto simp: update_task_def restack_def task_default_def nth_list_update)
    then show ?thesis
      using ok pool(1) st' room fr by (simp add: storage_ok_def length_fill_none)
  qed
  ultimately show ?thesis
    unfolding frees_def
    by (intro exI [of _ ?e]) auto
qed

lemma frees_same:
  assumes "frees e i e'"
  shows "ex_limits e' = ex_limits e" "ex_ticket e' = ex_ticket e" "ex_image_id e' = ex_image_id e"
    "task_count e' = task_count e" "ex_steps e' = ex_steps e"
    "ex_cleanup_steps e' = ex_cleanup_steps e" "ex_aborting e' = ex_aborting e"
    "ex_cursor e' = ex_cursor e"
  using assms by (auto simp: frees_def)

text \<open>Both children of a join are done: free them, and the joining task stands alone.\<close>

lemma join_children:
  assumes inv: "exec_inv img e" and i: "i < task_count e"
    and j: "tk_state (task_at e i) = S_Joining j"
  shows "js_left j < task_count e" "js_right j < task_count e" "js_left j \<noteq> js_right j"
    "js_node j < code_size img" "js_left j \<noteq> i" "js_right j \<noteq> i"
    "tk_parent (task_at e (js_left j)) = Some i" "tk_parent (task_at e (js_right j)) = Some i"
proof -
  have joined: "joined img e i j" using inv_exceptD(3) [OF inv i] j by simp
  then show "js_left j < task_count e" "js_right j < task_count e" "js_left j \<noteq> js_right j"
    "js_node j < code_size img" and p: "tk_parent (task_at e (js_left j)) = Some i"
    "tk_parent (task_at e (js_right j)) = Some i"
    by (simp_all add: joined_def)
  have "(i, i) \<notin> parents e" using inv_exceptD(5) [OF inv] by (auto simp: acyclic_def)
  then show "js_left j \<noteq> i" "js_right j \<noteq> i" using p i by (auto simp: parents_def)
qed

lemma joined_elsewhere:
  assumes "joined img e k j'" "k \<noteq> i" "tk_parent (task_at e c) = Some i"
  shows "js_left j' \<noteq> c" "js_right j' \<noteq> c"
  using assms by (auto simp: joined_def)

lemma flux_children_freed:
  assumes inv: "exec_inv img e" and i: "i < task_count e"
    and j: "tk_state (task_at e i) = S_Joining j"
    and dn: "is_done (tk_state (task_at e (js_left j)))" "is_done (tk_state (task_at e (js_right j)))"
    and ok: "storage_ok img e'" and same: "task_count e' = task_count e" "ex_ticket e' = ex_ticket e"
    and at: "\<And>k. k < task_count e \<Longrightarrow>
      task_at e' k = (if k = js_left j \<or> k = js_right j then task_default else task_at e k)"
    and frames: "\<And>k. k < task_count e \<Longrightarrow> k \<noteq> js_left j \<Longrightarrow> k \<noteq> js_right j \<Longrightarrow>
      task_frames e' k = task_frames e k"
  shows "flux img i e'"
proof -
  note c = join_children [OF inv i j]
  let ?child = "\<lambda>k. k = js_left j \<or> k = js_right j"
  have nojoin: "state_join (tk_state (task_at e k)) = None" if "?child k" for k
    using that dn by (elim disjE) (auto elim!: is_done.elims)
  have joined: "joined img e' k j'" if "joined img e k j'" "k \<noteq> i" for k j'
    using that joined_elsewhere [OF that c(7)] joined_elsewhere [OF that c(8)]
    by (auto simp: joined_def same at)
  have state: "state_ok img e' k (tk_state (task_at e' k))" if k: "k < task_count e" "k \<noteq> i" for k
  proof (cases "?child k")
    case True
    then have "k \<noteq> 0" using inv_exceptD(4) [OF inv k(1)] c(7,8) by (auto simp: parent_ok_def)
    then show ?thesis using True at k by (auto simp: task_default_def)
  next
    case False
    then show ?thesis
      using inv_exceptD(3) [OF inv k(1)] joined k at frames same
      by (cases "tk_state (task_at e k)") auto
  qed
  have par: "parent_ok (Some i) e' k" if k: "k < task_count e" for k
  proof (cases "?child k")
    case True
    then show ?thesis using at k c(5,6) by (auto simp: parent_ok_def task_default_def)
  next
    case False
    have "child_of e' p k \<and> p \<noteq> i" if p: "child_of e p k" for p
    proof -
      have "p \<noteq> i" using p False j by (auto simp: child_of_def)
      moreover have "\<not> ?child p" using p nojoin by (auto simp: child_of_def)
      ultimately show ?thesis using p at same by (simp add: child_of_def)
    qed
    moreover have "tk_parent (task_at e i) = None \<Longrightarrow> i = 0"
      using inv_exceptD(4) [OF inv i] j by (auto simp: parent_ok_def)
    ultimately show ?thesis
      using inv_exceptD(4) [OF inv k] False at k by (auto simp: parent_ok_def split: option.splits)
  qed
  have waits: "waits e k t" if "waits e' k t" for k t
    using that at same by (auto simp: waits_def task_default_def split: if_splits)
  have "parents e' \<subseteq> parents e"
    using at same by (auto simp: parents_def task_default_def split: if_splits)
  then have "acyclic (parents e')" using acyclic_subset inv_exceptD(5) [OF inv] by blast
  moreover have "k = l" if "waits e' k t" "waits e' l t" for k l t
    using inv waits [OF that(1)] waits [OF that(2)] by (auto simp: inv_except_def)
  ultimately show ?thesis
    using ok state par i same unfolding inv_except_def by auto
qed

lemma both_freed:
  assumes inv: "exec_inv img e" and i: "i < task_count e"
    and j: "tk_state (task_at e i) = S_Joining j"
    and dn: "is_done (tk_state (task_at e (js_left j)))" "is_done (tk_state (task_at e (js_right j)))"
    and e2: "e2 = set_state (set_state e (js_left j) S_Free) (js_right j) S_Free"
  shows "\<exists>e'. and_then (free_task e2 (js_left j)) (\<lambda>_ e. free_task e (js_right j)) = (Return (), e') \<and>
    fluxes img i e e' \<and>
    (\<forall>k < task_count e. task_at e' k = (if k = js_left j \<or> k = js_right j then task_default else task_at e k)) \<and>
    (\<forall>k < task_count e. k \<noteq> js_left j \<longrightarrow> k \<noteq> js_right j \<longrightarrow> task_frames e' k = task_frames e k)"
proof -
  note c = join_children [OF inv i j]
  have e2_at: "k < task_count e \<Longrightarrow> k \<noteq> js_left j \<Longrightarrow> k \<noteq> js_right j \<Longrightarrow> task_at e2 k = task_at e k" for k
    using c by (simp add: e2 set_state_def)
  have ok2: "storage_ok img e2"
    using inv_exceptD(1) [OF inv] c by (simp add: e2 set_state_def storage_ok_update)
  have same2: "task_count e2 = task_count e" "ex_frames e2 = ex_frames e"
    by (simp_all add: e2 set_state_def)
  from free_task_frees [OF ok2, of "js_left j"] c(1) same2 obtain e3 where
    e3: "free_task e2 (js_left j) = (Return (), e3)" "storage_ok img e3" "frees e2 (js_left j) e3"
    by auto
  have count3: "task_count e3 = task_count e" using frees_same(4) [OF e3(3)] same2 by simp
  from free_task_frees [OF e3(2), of "js_right j"] c(2) count3 obtain e4 where
    e4: "free_task e3 (js_right j) = (Return (), e4)" "storage_ok img e4" "frees e3 (js_right j) e4"
    by auto
  have same: "ex_limits e4 = ex_limits e" "ex_ticket e4 = ex_ticket e" "ex_image_id e4 = ex_image_id e"
    "task_count e4 = task_count e" "ex_steps e4 = ex_steps e" "ex_cleanup_steps e4 = ex_cleanup_steps e"
    "ex_aborting e4 = ex_aborting e" "ex_cursor e4 = ex_cursor e"
    using frees_same [OF e3(3)] frees_same [OF e4(3)] by (simp_all add: e2 set_state_def)
  have at: "task_at e4 k = (if k = js_left j \<or> k = js_right j then task_default else task_at e k)"
    if "k < task_count e" for k
    using that e3(3) e4(3) e2_at count3 same2 by (auto simp: frees_def)
  have frames: "task_frames e4 k = task_frames e k"
    if "k < task_count e" "k \<noteq> js_left j" "k \<noteq> js_right j" for k
  proof -
    have "task_frames e4 k = task_frames e2 k"
      using that e3(3) e4(3) count3 same2 by (simp add: frees_def)
    then show ?thesis using e2_at [OF that] by (simp add: task_frames_def same2)
  qed
  have "flux img i e4"
    using flux_children_freed [OF inv i j dn e4(2) same(4,2) at frames] .
  moreover have "progress e e4"
    using same at by (auto simp: progress_def waits_def task_default_def split: if_splits)
  ultimately have "fluxes img i e e4" by (simp add: fluxes_def)
  then show ?thesis using e3(1) e4(1) at frames by (intro exI [of _ e4]) simp
qed

lemma join_step_settles:
  assumes inv: "exec_inv img e" and i: "i < task_count e"
    and j: "tk_state (task_at e i) = S_Joining j"
  shows "settles img i e (join_step vs img e i j)"
proof -
  note c = join_children [OF inv i j]
  let ?a = "is_done (tk_state (task_at e (js_left j)))"
  let ?b = "is_done (tk_state (task_at e (js_right j)))"
  have live: "\<not> is_free (tk_state (task_at e (js_left j)))" "\<not> is_free (tk_state (task_at e (js_right j)))"
    using live_parent [OF inv c(1)] live_parent [OF inv c(2)] c(7,8) by auto
  have marked: "ends (\<lambda>_ e'. marks e e') (faulted img i e)
      (if js_join j = Join_Race \<and> (?a \<or> ?b) then cancel_tree e (if ?a then js_right j else js_left j)
       else (Return (), e))"
  proof -
    obtain e1 e2 where "cancel_tree e (js_left j) = (Return (), e1)" "marks e e1"
      "cancel_tree e (js_right j) = (Return (), e2)" "marks e e2"
      using cancel_tree_marks [OF inv c(1) live(1)] cancel_tree_marks [OF inv c(2) live(2)] by blast
    then show ?thesis by simp
  qed
  have rest: "settles img i e (if ?a \<and> ?b then join_collect vs img e' i j else (Return (), e'))"
    if m: "marks e e'" for e'
  proof (cases "?a \<and> ?b")
    case True
    have inv': "exec_inv img e'" by (rule marks_inv [OF m inv])
    note f = marks_fields(1) [OF m] and same = marks_same [OF m]
    have i': "i < task_count e'" "tk_state (task_at e' i) = S_Joining j" using i j by (simp_all add: f same)
    have dn: "is_done (tk_state (task_at e' (js_left j)))" "is_done (tk_state (task_at e' (js_right j)))"
      using True c by (simp_all add: f)
    obtain ra rb where r: "tk_state (task_at e' (js_left j)) = S_Done ra"
      "tk_state (task_at e' (js_right j)) = S_Done rb"
      using dn by (auto elim!: is_done.elims)
    let ?e2 = "set_state (set_state e' (js_left j) S_Free) (js_right j) S_Free"
    from both_freed [OF inv' i' dn refl] obtain e4 where
      e4: "and_then (free_task ?e2 (js_left j)) (\<lambda>_ e. free_task e (js_right j)) = (Return (), e4)"
      "fluxes img i e' e4"
      by blast
    have flux: "fluxes img i e e4"
      using e4(2) progress_trans [OF marks_progress [OF m]] by (auto simp: fluxes_def)
    have "and_then (free_task ?e2 (js_left j)) (\<lambda>_ e. and_then (free_task e (js_right j)) (\<lambda>_ e.
        finish vs img e i (js_node j) result)) = finish vs img e4 i (js_node j) result" for result
      using e4(1) by (auto simp: and_then_def split: prod.splits comp.splits)
    moreover have "tk_state (ex_tasks (set_state e' (js_left j) S_Free) ! js_right j) = S_Done rb"
      using r(2) c(1,3) by (simp add: set_state_def update_task_def task_at_def)
    ultimately show ?thesis
      using True r(1) finish_settles [OF flux c(4)]
      by (simp add: join_collect_def Let_def task_at_def)
  next
    case False
    then show ?thesis
      using marks_inv [OF m inv] marks_progress [OF m] by (auto simp: settled_def)
  qed
  have "settles img i e (and_then
      (if js_join j = Join_Race \<and> (?a \<or> ?b) then cancel_tree e (if ?a then js_right j else js_left j)
       else (Return (), e))
      (\<lambda>_ e'. if ?a \<and> ?b then join_collect vs img e' i j else (Return (), e')))"
    using rest by (rule ends_and_then [OF marked])
  moreover have "\<not> (task_count e \<le> js_left j \<or> task_count e \<le> js_right j)" using c(1,2) by simp
  ultimately show ?thesis unfolding join_step_def Let_def task_at_def by (simp only: if_False)
qed

end
