(* ===== verification/Machine_Steps.thy ===== *)
theory Machine_Steps
  imports Machine_Safety
begin

text \<open>
  The arm of ready tasks, whole transitions, the scheduler and the delivery of host events keep the
  invariant of the machine and never panic.
\<close>

section \<open>Requests\<close>

lemma flux_ticket:
  assumes "flux img i e" "ex_ticket e \<le> t"
  shows "flux img i (e\<lparr>ex_ticket := t\<rparr>)"
proof -
  have state: "state_ok img (e\<lparr>ex_ticket := t\<rparr>) k s" if "state_ok img e k s" for k s
    using that assms(2) by (cases s) (auto simp: joined_def task_frames_def)
  show ?thesis
    using assms state
    by (auto simp: inv_except_def storage_ok_def task_frames_def parent_ok_def child_of_def
        parents_def waits_def cong: option.case_cong)
qed

lemma waits_bound:
  assumes "inv_except img x e" "waits e j k" "Some j \<noteq> x"
  shows "k \<le> ex_ticket e"
  using assms inv_exceptD(3) [OF assms(1), of j] by (auto simp: waits_def)

lemma request_step_settles:
  assumes flux: "fluxes img i e0 e" and pc: "pc < code_size img"
    and kind: "keeps_input (nd_kind (img_nodes img ! pc))" and im: "im < img_imports img"
    and input: "tk_input (task_at e i) \<noteq> None"
  shows "settles img i e0 (request_step img e i pc pos im v)"
proof (cases "ex_ticket e + 1 \<le> u64_max")
  case True
  let ?t = "ex_ticket e + 1"
  let ?e = "e\<lparr>ex_ticket := ?t\<rparr>"
  let ?f = "\<lambda>t. t\<lparr>tk_state := S_Waiting ?t pc\<rparr>"
  have f: "flux img i e" and p: "progress e0 e" and i: "i < task_count e"
    using flux fluxes_count [OF flux] by (simp_all add: fluxes_def)
  have flux': "flux img i ?e" using f by (rule flux_ticket) simp
  have fresh: "\<not> waits ?e j ?t" if "j \<noteq> i" for j
    using waits_bound [OF f, of j ?t] that by (auto simp: waits_def)
  have "exec_inv img (update_task ?e i ?f)"
    using i pc kind input fresh by (intro flux_close [OF flux']) auto
  moreover have "progress e0 (update_task ?e i ?f)"
  proof (rule progress_trans [OF p])
    show "progress e (update_task ?e i ?f)"
      using i by (auto simp: progress_def waits_def split: if_splits)
  qed
  ultimately show ?thesis
    using True im by (simp add: request_step_def settled_def set_state_def Let_def checked_add_def)
next
  case False
  then show ?thesis using flux im by (simp add: request_step_def resource_faults_def checked_add_def)
qed

section \<open>Forks\<close>

text \<open>
  The state after a fork: two free tasks start as children of \<open>i\<close>, which joins them.
\<close>

lemma fork_inv:
  assumes flux: "flux img i e"
    and kids: "a < task_count e" "b < task_count e" "a \<noteq> b" "a \<noteq> i" "b \<noteq> i"
      "is_free (tk_state (task_at e a))" "is_free (tk_state (task_at e b))"
    and addr: "left < code_size img" "right < code_size img" "pc < code_size img"
    and same: "task_count e' = task_count e" "ex_frames e' = ex_frames e" "ex_limits e' = ex_limits e"
      "ex_ticket e' = ex_ticket e" "ex_image_id e' = ex_image_id e"
      "length (ex_bindings e') = length (ex_bindings e)"
    and other: "\<And>k. k < task_count e \<Longrightarrow> k \<noteq> a \<Longrightarrow> k \<noteq> b \<Longrightarrow> k \<noteq> i \<Longrightarrow> task_at e' k = task_at e k"
    and at_a: "tk_state (task_at e' a) = S_Ready" "tk_pc (task_at e' a) = left"
      "tk_input (task_at e' a) \<noteq> None" "tk_parent (task_at e' a) = Some i"
      "tk_stack (task_at e' a) = tk_stack (task_at e a)"
    and at_b: "tk_state (task_at e' b) = S_Ready" "tk_pc (task_at e' b) = right"
      "tk_input (task_at e' b) \<noteq> None" "tk_parent (task_at e' b) = Some i"
      "tk_stack (task_at e' b) = tk_stack (task_at e b)"
    and at_i: "tk_state (task_at e' i) =
        S_Joining \<lparr>js_left = a, js_right = b, js_join = join, js_node = pc\<rparr>"
      "tk_parent (task_at e' i) = tk_parent (task_at e i)"
      "tk_stack (task_at e' i) = tk_stack (task_at e i)"
  shows "exec_inv img e'"
proof -
  have i: "i < task_count e" using flux by (simp add: inv_except_def)
  have free: "task_at e a = task_default" "a \<noteq> 0" "task_at e b = task_default" "b \<noteq> 0"
    using inv_exceptD(3) [OF flux kids(1)] inv_exceptD(3) [OF flux kids(2)] kids
    by (auto elim: is_free.elims)
  have stacks: "k < task_count e \<Longrightarrow> tk_stack (task_at e' k) = tk_stack (task_at e k)" for k
    using other at_a(5) at_b(5) at_i(3) by metis
  have frames: "k < task_count e \<Longrightarrow> task_frames e' k = task_frames e k" for k
    by (simp add: task_frames_def stacks same)
  have "map tk_stack (ex_tasks e') = map tk_stack (ex_tasks e)"
    using stacks same(1) by (intro nth_equalityI) (simp_all add: task_at_def)
  then have storage: "storage_ok img e'"
    using inv_exceptD(1) [OF flux] frames by (simp add: storage_ok_def same)
  have joined: "joined img e' k j" if "joined img e k j" "k \<noteq> i" for k j
  proof -
    have "tk_parent (task_at e a) = None" "tk_parent (task_at e b) = None"
      by (simp_all add: free task_default_def)
    then have "js_left j \<noteq> a" "js_left j \<noteq> b" "js_right j \<noteq> a" "js_right j \<noteq> b"
      using that(1) by (auto simp: joined_def)
    then show ?thesis
      using that other at_i(2) by (cases "js_left j = i"; cases "js_right j = i") (auto simp: joined_def same)
  qed
  have state: "state_ok img e' k (tk_state (task_at e' k))" if k: "k < task_count e" for k
  proof -
    consider "k = a" | "k = b" | "k = i" | "k \<noteq> a" "k \<noteq> b" "k \<noteq> i" by blast
    then show ?thesis
    proof cases
      case 4
      then show ?thesis
        using inv_exceptD(3) [OF flux k] other [OF k] joined frames k same
        by (cases "tk_state (task_at e k)") auto
    qed (use at_a at_b at_i(1) addr kids in \<open>auto simp: joined_def same\<close>)
  qed
  have nochild: "p \<noteq> a \<and> p \<noteq> b" if "child_of e p k" for p k
    using that free by (auto simp: child_of_def task_default_def)
  have child: "child_of e' p k" if "child_of e p k" "p \<noteq> i" for p k
    using that nochild [OF that(1)] other by (auto simp: child_of_def same)
  have par: "parent_ok None e' k" if k: "k < task_count e" for k
  proof -
    have old: "parent_ok (Some i) e k" using inv_exceptD(4) [OF flux k] .
    consider "k = a" | "k = b" | "k \<noteq> a" "k \<noteq> b" by blast
    then show ?thesis
    proof cases
      case 3
      then have "tk_parent (task_at e' k) = tk_parent (task_at e k)"
        "k \<noteq> i \<Longrightarrow> tk_state (task_at e' k) = tk_state (task_at e k)"
        using other [OF k] at_i(2) by (cases "k = i"; simp)+
      then show ?thesis using old child by (auto simp: parent_ok_def split: option.splits)
    qed (use at_a(4) at_b(4) at_i(1) free(2,4) i in \<open>auto simp: parent_ok_def child_of_def same\<close>)
  qed
  have waits: "waits e k t \<and> k \<noteq> i" if "waits e' k t" for k t
    using that other at_a(1) at_b(1) at_i(1)
    by (cases "k = a"; cases "k = b"; cases "k = i") (auto simp: waits_def same)
  have "parents e' = insert (i, a) (insert (i, b) (parents e))"
    using at_a(4) at_b(4) at_i(2) other kids(1,2) free same(1)
    by (fastforce simp: parents_def task_default_def)
  moreover have "acyclic (insert (i, a) (insert (i, b) (parents e)))"
  proof -
    have out: "(a, k) \<notin> parents e" "(b, k) \<notin> parents e" for k
      using inv_exceptD(4) [OF flux] nochild by (fastforce simp: parents_def parent_ok_def)+
    then have "(b, i) \<notin> (parents e)\<^sup>*" "(a, i) \<notin> (insert (i, b) (parents e))\<^sup>*"
      using kids(3-5) by (auto elim: converse_rtranclE)
    then show ?thesis using inv_exceptD(5) [OF flux] by (simp add: acyclic_insert)
  qed
  moreover have "k = l" if "waits e' k t" "waits e' l t" for k l t
    using flux waits [OF that(1)] waits [OF that(2)] by (auto simp: inv_except_def)
  ultimately show ?thesis using storage state par by (auto simp: inv_except_def same)
qed

lemma inherit_Return:
  assumes "i < task_count e" "c < task_count e" "task_count e * stride e \<le> length (ex_bindings e)"
  obtains bs where "length bs = length (ex_bindings e)"
    "inherit e i c = (Return (), (update_task e c (\<lambda>t. t\<lparr>tk_parent := Some i,
       tk_context := tk_context (task_at e i), tk_cleaning := tk_cleaning (task_at e i)\<rparr>))\<lparr>ex_bindings := bs\<rparr>)"
proof -
  have "Suc (max i c) * stride e \<le> task_count e * stride e"
    using assms(1,2) by (intro mult_le_mono1) simp
  then have le: "max i c * stride e + stride e \<le> length (ex_bindings e)" using assms(3) by simp
  have "i * stride e + stride e \<le> max i c * stride e + stride e"
    "c * stride e + stride e \<le> max i c * stride e + stride e"
    by (simp_all add: mult_le_mono1)
  then have "i * stride e + stride e \<le> length (ex_bindings e)"
    "c * stride e + stride e \<le> length (ex_bindings e)"
    using le by linarith+
  then show thesis
    using le
    by (intro that [of "take (c * stride e) (ex_bindings e) @
          take (stride e) (drop (i * stride e) (ex_bindings e)) @
          drop (c * stride e + stride e) (ex_bindings e)"])
      (simp_all add: inherit_def Let_def task_at_def)
qed

lemma start_simps [simp]:
  "task_count (start e i pc v) = task_count e" "ex_frames (start e i pc v) = ex_frames e"
  "ex_bindings (start e i pc v) = ex_bindings e" "ex_limits (start e i pc v) = ex_limits e"
  "ex_ticket (start e i pc v) = ex_ticket e" "ex_image_id (start e i pc v) = ex_image_id e"
  "ex_steps (start e i pc v) = ex_steps e" "ex_cleanup_steps (start e i pc v) = ex_cleanup_steps e"
  "ex_aborting (start e i pc v) = ex_aborting e" "ex_cursor (start e i pc v) = ex_cursor e"
  "i < task_count e \<Longrightarrow> task_at (start e i pc v) j =
     (if j = i then (task_at e i)\<lparr>tk_pc := pc, tk_input := Some v, tk_state := S_Ready\<rparr> else task_at e j)"
  by (simp_all add: start_def)

lemma filter_upt_two:
  assumes "filter P [0..<n] = a # b # rest"
  shows "a < n" "b < n" "P a" "P b" "a \<noteq> b"
proof -
  have "distinct (a # b # rest)" unfolding assms [symmetric] by simp
  moreover have "x < n \<and> P x" if "x \<in> set (a # b # rest)" for x
    using that unfolding assms [symmetric] by simp
  ultimately show "a < n" "b < n" "P a" "P b" "a \<noteq> b" by auto
qed

text \<open>What a fork does when two tasks are free.\<close>

lemma fork_step_result:
  assumes flux: "fluxes img i e0 e" and ready: "tk_state (task_at e i) = S_Ready"
    and two: "filter (\<lambda>j. is_free (tk_state (ex_tasks e ! j))) [0..<task_count e] = a # b # rest"
    and started: "\<And>k. started k = (if k = b
       then (task_at e b)\<lparr>tk_pc := right, tk_input := Some v, tk_state := S_Ready\<rparr>
       else (task_at e a)\<lparr>tk_pc := left, tk_input := Some v, tk_state := S_Ready\<rparr>)"
  obtains e' where "fork_step e i pc left right join v = (Return (), e')"
    "a < task_count e" "b < task_count e" "a \<noteq> b" "a \<noteq> i" "b \<noteq> i"
    "is_free (tk_state (task_at e a))" "is_free (tk_state (task_at e b))"
    "task_count e' = task_count e" "ex_frames e' = ex_frames e" "ex_limits e' = ex_limits e"
    "ex_ticket e' = ex_ticket e" "ex_image_id e' = ex_image_id e"
    "length (ex_bindings e') = length (ex_bindings e)" "ex_steps e' = ex_steps e"
    "ex_cleanup_steps e' = ex_cleanup_steps e" "ex_aborting e' = ex_aborting e" "ex_cursor e' = ex_cursor e"
    "\<And>k. task_at e' k =
      (if k = i then (task_at e i)
         \<lparr>tk_state := S_Joining \<lparr>js_left = a, js_right = b, js_join = join, js_node = pc\<rparr>\<rparr>
       else if k = a \<or> k = b then (started k)\<lparr>tk_parent := Some i,
         tk_context := tk_context (task_at e i), tk_cleaning := tk_cleaning (task_at e i)\<rparr>
       else task_at e k)"
proof -
  note ab = filter_upt_two [OF two]
  have free: "is_free (tk_state (task_at e a))" "is_free (tk_state (task_at e b))"
    using ab by (simp_all add: task_at_def)
  then have ne: "a \<noteq> i" "b \<noteq> i" using ready by auto
  have i: "i < task_count e" and ok: "task_count e * stride e \<le> length (ex_bindings e)"
    using fluxes_count [OF flux] fluxes_storage [OF flux] by (simp_all add: storage_ok_def)
  define e1 where "e1 = start (start e a left v) b right v"
  have at1: "task_at e1 k =
      (if k = b then (task_at e b)\<lparr>tk_pc := right, tk_input := Some v, tk_state := S_Ready\<rparr>
       else if k = a then (task_at e a)\<lparr>tk_pc := left, tk_input := Some v, tk_state := S_Ready\<rparr>
       else task_at e k)" for k
    using ab by (simp add: e1_def)
  have ok1: "task_count e1 * stride e1 \<le> length (ex_bindings e1)" "task_count e1 = task_count e"
    using ok by (simp_all add: e1_def)
  obtain bs where bs: "length bs = length (ex_bindings e1)" and
    in_a: "inherit e1 i a = (Return (), (update_task e1 a (\<lambda>t. t\<lparr>tk_parent := Some i,
       tk_context := tk_context (task_at e1 i), tk_cleaning := tk_cleaning (task_at e1 i)\<rparr>))\<lparr>ex_bindings := bs\<rparr>)"
    using inherit_Return [of i e1 a] i ab ok1 by metis
  define e2 where "e2 = (update_task e1 a (\<lambda>t. t\<lparr>tk_parent := Some i,
       tk_context := tk_context (task_at e1 i), tk_cleaning := tk_cleaning (task_at e1 i)\<rparr>))\<lparr>ex_bindings := bs\<rparr>"
  have ok2: "task_count e2 * stride e2 \<le> length (ex_bindings e2)" "task_count e2 = task_count e"
    using ok1 bs by (simp_all add: e2_def)
  obtain bs' where bs': "length bs' = length (ex_bindings e2)" and
    in_b: "inherit e2 i b = (Return (), (update_task e2 b (\<lambda>t. t\<lparr>tk_parent := Some i,
       tk_context := tk_context (task_at e2 i), tk_cleaning := tk_cleaning (task_at e2 i)\<rparr>))\<lparr>ex_bindings := bs'\<rparr>)"
    using inherit_Return [of i e2 b] i ab ok2 by metis
  define e3 where "e3 = (update_task e2 b (\<lambda>t. t\<lparr>tk_parent := Some i,
       tk_context := tk_context (task_at e2 i), tk_cleaning := tk_cleaning (task_at e2 i)\<rparr>))\<lparr>ex_bindings := bs'\<rparr>"
  let ?j = "\<lparr>js_left = a, js_right = b, js_join = join, js_node = pc\<rparr>"
  let ?e = "set_state e3 i (S_Joining ?j)"
  have step: "fork_step e i pc left right join v = (Return (), ?e)"
    using in_a in_b by (simp add: fork_step_def two e1_def [symmetric] e2_def [symmetric] e3_def [symmetric])
  have at: "task_at ?e k =
      (if k = i then (task_at e i)\<lparr>tk_state := S_Joining ?j\<rparr>
       else if k = a \<or> k = b then (started k)\<lparr>tk_parent := Some i,
         tk_context := tk_context (task_at e i), tk_cleaning := tk_cleaning (task_at e i)\<rparr>
       else task_at e k)" for k
    using i ab ne ok1(2) ok2(2) by (simp add: set_state_def e3_def e2_def at1 started)
  have same: "task_count ?e = task_count e" "ex_frames ?e = ex_frames e" "ex_limits ?e = ex_limits e"
    "ex_ticket ?e = ex_ticket e" "ex_image_id ?e = ex_image_id e"
    "length (ex_bindings ?e) = length (ex_bindings e)" "ex_steps ?e = ex_steps e"
    "ex_cleanup_steps ?e = ex_cleanup_steps e" "ex_aborting ?e = ex_aborting e" "ex_cursor ?e = ex_cursor e"
    using bs bs' by (simp_all add: e3_def e2_def e1_def set_state_def)
  show thesis by (rule that [OF step ab(1,2,5) ne free same at])
qed

lemma fork_step_settles:
  assumes flux: "fluxes img i e0 e" and ready: "tk_state (task_at e i) = S_Ready"
    and addr: "left < code_size img" "right < code_size img" "pc < code_size img"
  shows "settles img i e0 (fork_step e i pc left right join v)"
proof (cases "filter (\<lambda>j. is_free (tk_state (ex_tasks e ! j))) [0..<task_count e]" rule: remdups_adj.cases)
  case (3 a b rest)
  have f: "flux img i e" and p: "progress e0 e" using flux by (simp_all add: fluxes_def)
  from fork_step_result [OF flux ready 3 refl] obtain e' where
    step: "fork_step e i pc left right join v = (Return (), e')"
    and ab: "a < task_count e" "b < task_count e" "a \<noteq> b" "a \<noteq> i" "b \<noteq> i"
      "is_free (tk_state (task_at e a))" "is_free (tk_state (task_at e b))"
    and same: "task_count e' = task_count e" "ex_frames e' = ex_frames e" "ex_limits e' = ex_limits e"
    "ex_ticket e' = ex_ticket e" "ex_image_id e' = ex_image_id e"
    "length (ex_bindings e') = length (ex_bindings e)" "ex_steps e' = ex_steps e"
    "ex_cleanup_steps e' = ex_cleanup_steps e" "ex_aborting e' = ex_aborting e" "ex_cursor e' = ex_cursor e"
    and at: "\<And>k. task_at e' k =
      (if k = i then (task_at e i)
         \<lparr>tk_state := S_Joining \<lparr>js_left = a, js_right = b, js_join = join, js_node = pc\<rparr>\<rparr>
       else if k = a \<or> k = b then (if k = b
           then (task_at e b)\<lparr>tk_pc := right, tk_input := Some v, tk_state := S_Ready\<rparr>
           else (task_at e a)\<lparr>tk_pc := left, tk_input := Some v, tk_state := S_Ready\<rparr>)\<lparr>tk_parent := Some i,
         tk_context := tk_context (task_at e i), tk_cleaning := tk_cleaning (task_at e i)\<rparr>
       else task_at e k)"
    by blast
  have "exec_inv img e'"
    by (rule fork_inv [OF f ab addr same(1-6)]) (use ab in \<open>simp_all add: at\<close>)
  moreover have "progress e0 e'"
  proof (rule progress_trans [OF p])
    show "progress e e'"
      unfolding progress_def waits_def same using ab by (auto simp: at split: if_splits)
  qed
  ultimately show ?thesis by (simp add: step settled_def)
qed (use flux in \<open>simp_all add: fork_step_def resource_faults_def\<close>)

section \<open>The arm of ready tasks\<close>

lemma silent_settles: "settles img i e r \<Longrightarrow> settles img i e (silent r)"
  unfolding silent_def by (rule ends_and_then) auto

lemma kind_ok_finish: "pc < code_size img \<Longrightarrow> kind_ok (code_size img) n (K_Finish pc)"
  by (simp add: kind_ok_def)

lemma push_start_settles:
  assumes "fluxes img i e0 e" "kind_ok (code_size img) (stride e) k" "pc < code_size img"
  shows "settles img i e0 (and_then (exec_push e i k) (\<lambda>_ e. (Return a, start e i pc v)))"
  by (rule ends_and_then [OF push_ends [OF assms(1,2)]]) (use assms(3) in \<open>auto intro: settled_start\<close>)

lemma enter_settles:
  assumes flux: "fluxes img i e0 e" and pc: "pc < code_size img" "first < code_size img"
    and k: "kind_ok (code_size img) (stride e) k"
  shows "settles img i e0 (enter e i pc k first v)"
  unfolding enter_def
proof (rule ends_and_then [OF push_ends [OF flux kind_ok_finish [OF pc(1)]]])
  fix a e'
  assume e': "fluxes img i e0 e' \<and> pushes e i (K_Finish pc # task_frames e i) e'"
  then have "stride e' = stride e" using pushes_keeps by metis
  then show "settles img i e0 (and_then (exec_push e' i k) (\<lambda>_ e. (Return None, start e i first v)))"
    using e' k pc(2) by (intro push_start_settles) auto
qed

lemma ready_node_settles:
  assumes flux: "fluxes img i e0 e" and ready: "tk_state (task_at e i) = S_Ready"
    and pc: "pc < code_size img" and n: "n = img_nodes img ! pc"
    and input: "tk_input (task_at e i) \<noteq> None"
  shows "settles img i e0 (ready_node vs img e i pc n v)"
proof -
  note closed = closed_node(2-4) [OF fluxes_closed [OF flux] pc, folded n]
  have stride: "img_bindings img \<le> stride e" using fluxes_storage [OF flux] by (simp add: storage_ok_def)
  note fin = silent_settles [OF finish_settles [OF flux pc]]
  note enter = enter_settles [OF flux pc]
  note push = push_start_settles [OF flux kind_ok_finish [OF pc]]
  show ?thesis
  proof (cases "nd_kind n")
    case (N_Load slot)
    then have "slot < stride e" using closed stride by simp
    then show ?thesis
      using N_Load fin flux
        binding_index [OF fluxes_storage [OF flux] fluxes_count [OF flux] \<open>slot < stride e\<close>]
      by (auto simp: ready_node_def Let_def resource_faults_def split: option.splits)
  next
    case (N_Request im)
    then show ?thesis
      using closed request_step_settles [OF flux pc _ _ input] by (simp add: ready_node_def n)
  next
    case (N_Scope im b)
    then show ?thesis
      using closed request_step_settles [OF flux pc _ _ input] by (simp add: ready_node_def n)
  next
    case (N_Fork l r j)
    then show ?thesis
      using closed silent_settles [OF fork_step_settles [OF flux ready _ _ pc]]
      by (simp add: ready_node_def)
  next
    case (N_If y m)
    then show ?thesis
      using closed fin push by (auto simp: ready_node_def split: result.splits)
  qed (use closed stride fin enter push in \<open>auto simp: ready_node_def kind_ok_def\<close>)
qed

lemma set_input_simps [simp]:
  "task_count (set_input e i v) = task_count e"
  "i < task_count e \<Longrightarrow> task_at (set_input e i v) j =
     (if j = i then (task_at e i)\<lparr>tk_input := v\<rparr> else task_at e j)"
  by (simp_all add: set_input_def)

lemma ready_step_settles:
  assumes inv: "exec_inv img e" and i: "i < task_count e" and ready: "tk_state (task_at e i) = S_Ready"
  shows "settles img i e (ready_step vs img e i)"
proof -
  have flux: "fluxes img i e e" using fluxes_open [OF inv i] ready by simp
  obtain v where pc: "tk_pc (task_at e i) < code_size img" "tk_input (task_at e i) = Some v"
    using inv_exceptD(3) [OF inv i] ready by auto
  have at: "ex_tasks e ! i = task_at e i" by (simp add: task_at_def)
  have "settles img i e (ready_node vs img (set_input e i (Some r)) i (tk_pc (task_at e i))
      (img_nodes img ! tk_pc (task_at e i)) v)" for r
    using ready i by (intro ready_node_settles [OF fluxes_set_input [OF flux] _ pc(1) refl]) simp_all
  then show ?thesis
    using pc(2) by (simp add: ready_step_def Let_def at image_node_in [OF pc(1)])
qed

section \<open>Transitions\<close>

lemma transition_settles:
  assumes inv: "exec_inv img e" and i: "i < task_count e"
  shows "settles img i e (transition vs img e i)"
proof -
  have at: "ex_tasks e ! i = task_at e i" by (simp add: task_at_def)
  show ?thesis
  proof (cases "tk_state (task_at e i)")
    case (S_Returning r)
    have "fluxes img i e e" using fluxes_open [OF inv i] S_Returning by simp
    then have "fluxes img i e (set_state e i S_Ready)"
      using flux_set_state [of img i e S_Ready] progress_update [of i e e "\<lambda>t. t\<lparr>tk_state := S_Ready\<rparr>"] i
      by (simp add: fluxes_def set_state_def)
    then show ?thesis
      using S_Returning i silent_settles [OF return_step_settles] by (simp add: transition_def at)
  next
    case (S_Joining j)
    then show ?thesis
      using i silent_settles [OF join_step_settles [OF inv i]] by (simp add: transition_def at)
  next
    case S_Ready
    then show ?thesis using i ready_step_settles [OF inv i] by (simp add: transition_def at)
  qed (use inv i in \<open>auto simp: transition_def at settled_def\<close>)
qed

end
