(* ===== verification/Machine_Runs.thy ===== *)
theory Machine_Runs
  imports Machine_Steps
begin

text \<open>
  Whole runs of the machine: the scheduler, host events and cancellation keep the invariant and
  never panic, and every execution that they can produce satisfies it.
\<close>

section \<open>The scheduler\<close>

text \<open>How any operation changes the run: limits stay, tickets grow, new waits have new tickets.\<close>

definition evolves :: "('v, 'e) exec \<Rightarrow> ('v, 'e) exec \<Rightarrow> bool" where
  "evolves e e' \<longleftrightarrow>
     ex_limits e' = ex_limits e \<and> task_count e' = task_count e \<and> ex_image_id e' = ex_image_id e \<and>
     (ex_aborting e \<longrightarrow> ex_aborting e') \<and> ex_cleanup_steps e \<le> ex_cleanup_steps e' \<and>
     ex_ticket e \<le> ex_ticket e' \<and> (\<forall>j k. waits e' j k \<longrightarrow> waits e j k \<or> ex_ticket e < k)"

lemma evolves_refl [simp]: "evolves e e"
  by (simp add: evolves_def)

lemma evolves_trans: "evolves e e' \<Longrightarrow> evolves e' e'' \<Longrightarrow> evolves e e''"
  unfolding evolves_def using le_less_trans order_trans by metis

lemma progress_evolves: "progress e e' \<Longrightarrow> evolves e e'"
  by (simp add: progress_def evolves_def)

lemma waits_counters [simp]:
  "waits (e\<lparr>ex_cursor := c\<rparr>) j k = waits e j k" "waits (e\<lparr>ex_steps := n\<rparr>) j k = waits e j k"
  "waits (e\<lparr>ex_cleanup_steps := n\<rparr>) j k = waits e j k" "waits (e\<lparr>ex_aborting := b\<rparr>) j k = waits e j k"
  by (simp_all add: waits_def)

definition halted :: "('v, 'e) state \<Rightarrow> bool" where
  "halted s \<longleftrightarrow> (\<exists>r j. s = S_Halted r j)"

lemma not_halted:
  assumes "exec_inv img e" "terminal_result (tk_state (task_at e 0)) = None" "i < task_count e"
  shows "\<not> halted (tk_state (task_at e i))"
  using inv_exceptD(3) [OF assms(1,3)] assms(2)
  by (cases "tk_state (task_at e i)") (auto simp: halted_def)

definition scanned :: "('v, 'e) exec \<Rightarrow> scan \<Rightarrow> bool" where
  "scanned e s \<longleftrightarrow>
     (case s of
        Scan_Task i \<Rightarrow> i < task_count e
      | Scan_Cancel i k \<Rightarrow> waits e i k \<and> tk_cancelled (task_at e i) \<and> tk_cleaning (task_at e i) = 0
      | Scan_Idle \<Rightarrow> True)"

lemma is_ready_Return:
  assumes inv: "exec_inv img e" and i: "i < task_count e"
  shows "\<exists>b. is_ready (ex_tasks e) (tk_state (task_at e i)) = Return b"
proof (cases "tk_state (task_at e i)")
  case (S_Joining j)
  then show ?thesis
    using join_children [OF inv i S_Joining] by (auto simp: is_ready_def Let_def)
qed (auto simp: is_ready_def)

text \<open>Interrupting a live task that is not joining.\<close>

lemma interrupt_settled:
  assumes inv: "exec_inv img e" and i: "i < task_count e"
    and s: "\<not> is_free (tk_state (task_at e i))" "interruptible (tk_state (task_at e i))"
      "\<not> halted (tk_state (task_at e i))"
  shows "settled img e (set_state e i (S_Returning r))"
proof -
  have "state_join (tk_state (task_at e i)) = None"
    using s by (cases "tk_state (task_at e i)") (auto simp: halted_def)
  then show ?thesis using fluxes_open [OF inv i _ s(1)] by (intro settled_returning)
qed

lemma select_ends:
  assumes "exec_inv img e" "\<And>i. i < task_count e \<Longrightarrow> \<not> halted (tk_state (task_at e i))"
  shows "ends (\<lambda>s e'. settled img e e' \<and> scanned e' s \<and>
      (\<forall>k < task_count e'. \<not> halted (tk_state (task_at e' k)))) (\<lambda>_ _. False) (select vs e offs)"
  using assms
proof (induction offs arbitrary: e)
  case Nil
  then show ?case by (simp add: settled_def scanned_def)
next
  case (Cons off offs)
  define i where "i = (ex_cursor e + off) mod task_count e"
  define t where "t = task_at e i"
  have i: "i < task_count e" using inv_exceptD(6) [OF Cons.prems(1)] by (simp add: i_def)
  have at: "ex_tasks e ! i = t" by (simp add: t_def task_at_def)
  note inv = Cons.prems(1)
  show ?case
  proof (cases "is_free (tk_state t) \<or> is_done (tk_state t)")
    case True
    then show ?thesis using Cons by (simp add: Let_def i_def [symmetric] at)
  next
    case False
    define interrupt where "interrupt \<longleftrightarrow> tk_cancelled t \<and> tk_cleaning t = 0"
    show ?thesis
    proof (cases "\<exists>k n. interrupt \<and> tk_state t = S_Waiting k n")
      case True
      then obtain k n where "interrupt" "tk_state t = S_Waiting k n" by blast
      then show ?thesis
        using False i inv
        by (auto simp: Let_def i_def [symmetric] at interrupt_def settled_def scanned_def waits_def
            t_def dest: Cons.prems(2))
    next
      case no_wait: False
      define e' where "e' = (if interrupt \<and> interruptible (tk_state t)
        then set_state e i (S_Returning (fault_result vs e i Fault_Cancelled)) else e)"
      have set': "settled img e e'"
        using interrupt_settled [OF inv i] False Cons.prems(2) [OF i] inv
        by (simp add: e'_def t_def settled_def)
      have i': "i < task_count e'" using set' i by (simp add: settled_def progress_def)
      have halt': "\<not> halted (tk_state (task_at e' k))" if "k < task_count e'" for k
        using that i Cons.prems(2) by (auto simp: e'_def set_state_def halted_def split: if_splits)
      obtain b where b: "is_ready (ex_tasks e') (tk_state (task_at e' i)) = Return b"
        using is_ready_Return [of img e' i] set' i' by (auto simp: settled_def)
      have sel: "select vs e (off # offs) =
          (if b then (Return (Scan_Task i), e') else select vs e' offs)"
      proof -
        have "(if interrupt then (case tk_state t of S_Waiting k _ \<Rightarrow> Some k | _ \<Rightarrow> None) else None) = None"
          using no_wait by (auto split: state.splits)
        moreover have "is_ready (ex_tasks e') (tk_state (ex_tasks e' ! i)) = Return b"
          using b by (simp add: task_at_def)
        ultimately show ?thesis
          unfolding select.simps Let_def i_def [symmetric] at interrupt_def [symmetric] e'_def [symmetric]
          using False by (cases b) simp_all
      qed
      show ?thesis
      proof (cases b)
        case True
        then show ?thesis using sel set' i' halt' by (simp add: scanned_def)
      next
        case no: False
        have "ends (\<lambda>s e''. settled img e' e'' \<and> scanned e'' s \<and>
            (\<forall>k < task_count e''. \<not> halted (tk_state (task_at e'' k)))) (\<lambda>_ _. False) (select vs e' offs)"
          using set' halt' by (intro Cons.IH) (auto simp: settled_def)
        then have "ends (\<lambda>s e''. settled img e e'' \<and> scanned e'' s \<and>
            (\<forall>k < task_count e''. \<not> halted (tk_state (task_at e'' k)))) (\<lambda>_ _. False) (select vs e' offs)"
          by (rule ends_mono) (use set' progress_trans in \<open>auto simp: settled_def\<close>)
        then show ?thesis using sel no by simp
      qed
    qed
  qed
qed

section \<open>Actions\<close>

text \<open>What an action tells the host about the state it comes with.\<close>

definition action_ok :: "('v, 'e) exec \<Rightarrow> ('v, 'e) advance \<Rightarrow> ('v, 'e) exec \<Rightarrow> bool" where
  "action_ok e a e' \<longleftrightarrow>
     (case a of
        A_Request q \<Rightarrow>
          rq_ticket q = ex_ticket e' \<and> ex_ticket e < ex_ticket e' \<and>
          waits e' (rq_task q) (rq_ticket q)
      | A_Cancel i k \<Rightarrow> waits e' i k \<and> tk_cancelled (task_at e' i) \<and> tk_cleaning (task_at e' i) = 0
      | A_Done r \<Rightarrow> terminal_result (tk_state (task_at e' 0)) = Some r
      | _ \<Rightarrow> True)"

lemma silent_Return: "silent r = (Return (Some a), e) \<longleftrightarrow> False"
  by (cases r; cases "fst r") (auto simp: silent_def and_then_def)

lemma and_then_None: "and_then r (\<lambda>_ e. (Return None, f e)) = (Return (Some a), e') \<longleftrightarrow> False"
  by (cases r; cases "fst r") (auto simp: and_then_def)

lemma and_then_None2:
  "and_then r (\<lambda>_ e. and_then (f e) (\<lambda>_ e. (Return None, g e))) = (Return (Some a), e') \<longleftrightarrow> False"
  by (cases r; cases "fst r")
    (auto simp: and_then_def split: prod.splits comp.splits)

lemma enter_Return: "enter e i pc k first v = (Return (Some a), e') \<longleftrightarrow> False"
  by (simp add: enter_def and_then_None2)

text \<open>The only action of a transition is a request.\<close>

definition requested :: "('v, 'e) exec \<Rightarrow> ('v, 'e) advance \<Rightarrow> ('v, 'e) exec \<Rightarrow> bool" where
  "requested e a e' \<longleftrightarrow> (\<exists>q. a = A_Request q) \<and> action_ok e a e'"

lemma request_step_action:
  assumes "request_step img e i pc pos im v = (Return (Some a), e')" "i < task_count e"
  shows "requested e a e'"
  using assms
  by (auto simp: request_step_def Let_def requested_def action_ok_def waits_def set_state_def split: if_splits option.splits)

lemma ready_node_action:
  assumes "ready_node vs img e i pc n v = (Return (Some a), e')" "i < task_count e"
  shows "requested e a e'"
  using assms request_step_action
  by (auto simp: ready_node_def Let_def silent_Return enter_Return and_then_None
      split: node_kind.splits if_splits option.splits result.splits)

lemma transition_requests:
  assumes "transition vs img e i = (Return (Some a), e')"
  shows "requested e a e'"
proof -
  have i: "i < task_count e" using assms by (simp add: transition_def split: if_splits)
  have "ready_step vs img e i = (Return (Some a), e')"
    using assms by (auto simp: transition_def silent_Return split: if_splits state.splits)
  then obtain e1 pc n v where node: "ready_node vs img e1 i pc n v = (Return (Some a), e')"
    and e1: "task_count e1 = task_count e" "ex_ticket e1 = ex_ticket e"
    by (auto simp: ready_step_def Let_def split: result.splits option.splits) (auto simp: set_input_def)
  have "requested e1 a e'" using ready_node_action [OF node] i e1 by simp
  then show ?thesis using e1 by (auto simp: requested_def action_ok_def)
qed

lemma transition_action: "transition vs img e i = (Return (Some a), e') \<Longrightarrow> action_ok e a e'"
  using transition_requests [of vs img e i a e'] by (simp add: requested_def)

section \<open>Rounds and turns\<close>

abbreviation lives ::
  "('v, 'e) image \<Rightarrow> ('v, 'e) exec \<Rightarrow> (('v, 'e) advance option, fault) comp \<times> ('v, 'e) exec \<Rightarrow> bool" where
  "lives img e \<equiv> ends (\<lambda>a e'. exec_inv img e' \<and> evolves e e' \<and> (\<forall>b. a = Some b \<longrightarrow> action_ok e b e'))
     (\<lambda>_ _. False)"

lemma action_ok_ticket: "action_ok e1 a e' \<Longrightarrow> ex_ticket e \<le> ex_ticket e1 \<Longrightarrow> action_ok e a e'"
  by (auto simp: action_ok_def split: advance.splits)

lemma lives_from:
  assumes "lives img e1 r" "evolves e e1"
  shows "lives img e r"
proof (rule ends_mono [OF assms(1)])
  have "ex_ticket e \<le> ex_ticket e1" using assms(2) by (simp add: evolves_def)
  then show "exec_inv img e' \<and> evolves e e' \<and> (\<forall>b. a = Some b \<longrightarrow> action_ok e b e')"
    if "exec_inv img e' \<and> evolves e1 e' \<and> (\<forall>b. a = Some b \<longrightarrow> action_ok e1 b e')" for a e'
    using that evolves_trans [OF assms(2)] action_ok_ticket by blast
qed

lemma run_task_lives:
  assumes inv: "exec_inv img e" and i: "i < task_count e"
  shows "lives img e (run_task vs img e i)"
proof -
  let ?e = "e\<lparr>ex_cursor := (i + 1) mod task_count e\<rparr>"
  have inv': "exec_inv img ?e" using inv by simp
  have same: "evolves e ?e" by (simp add: evolves_def)
  note step = transition_settles [OF inv', of i vs]
  have "lives img ?e (run_task vs img e i)"
  proof (cases "transition vs img ?e i")
    case (Pair r e')
    show ?thesis
    proof (cases r)
      case (Return a)
      then show ?thesis
        using step i Pair transition_action [of vs img ?e i _ e']
        by (auto simp: run_task_def settled_def intro: progress_evolves)
    next
      case (Raise f)
      then have "fluxes img i ?e e'" using step i Pair by simp
      from settled_returning [OF this] show ?thesis
        using Raise Pair by (auto simp: run_task_def settled_def intro: progress_evolves)
    qed (use step i Pair in auto)
  qed
  then show ?thesis using same by (rule lives_from)
qed

lemma halt_inv:
  assumes inv: "exec_inv img e"
    and nh: "\<not> halted (tk_state (task_at e 0))" "\<not> is_free (tk_state (task_at e 0))"
  shows "exec_inv img (set_state e 0 (S_Halted r (state_join (tk_state (task_at e 0)))))"
    (is "exec_inv img ?e")
proof -
  have n: "0 < task_count e" by (rule inv_exceptD(6) [OF inv])
  have joined: "joined img ?e k j = joined img e k j" for k j
    using n by (auto simp: joined_def set_state_def)
  have "state_ok img e 0 (tk_state (task_at e 0))" using inv_exceptD(3) [OF inv n] by simp
  then have root: "state_ok img ?e 0 (tk_state (task_at ?e 0))"
    using n nh(1) joined by (cases "tk_state (task_at e 0)") (auto simp: set_state_def halted_def)
  have state: "state_ok img ?e k (tk_state (task_at ?e k))" if k: "k < task_count e" "k \<noteq> 0" for k
    using inv_exceptD(3) [OF inv k(1)] k n joined
    by (cases "tk_state (task_at e k)") (auto simp: set_state_def task_frames_def)
  have "state_join (tk_state (task_at ?e p)) = state_join (tk_state (task_at e p))" for p
    using n by (simp add: set_state_def)
  then have par: "parent_ok None ?e k" if "k < task_count e" for k
    using inv_exceptD(4) [OF inv that] n nh
    by (cases "k = 0") (auto simp: parent_ok_def child_of_def set_state_def split: option.splits)
  have waits: "waits e k t" if "waits ?e k t" for k t
    using that n by (auto simp: waits_def set_state_def split: if_splits)
  have all: "state_ok img ?e k (tk_state (task_at ?e k))" if "k < task_count e" for k
    using root state that by (cases "k = 0") auto
  have "k = l" if "waits ?e k t" "waits ?e l t" for k l t
    using inv waits [OF that(1)] waits [OF that(2)] by (auto simp: inv_except_def)
  moreover have "parents ?e = parents e" unfolding set_state_def by (rule parents_update [OF n]) simp
  moreover have "task_count ?e = task_count e" by (simp add: set_state_def)
  moreover have "storage_ok img ?e"
    using inv_exceptD(1) [OF inv] n by (simp add: set_state_def storage_ok_update)
  ultimately show ?thesis
    using all par inv_exceptD(5) [OF inv] unfolding inv_except_def by auto
qed

lemma root_live: "exec_inv img e \<Longrightarrow> \<not> is_free (tk_state (task_at e 0))"
  using inv_exceptD(3) [of img None e 0] inv_exceptD(6) [of img None e]
  by (cases "tk_state (task_at e 0)") auto

lemma dispatch_lives:
  assumes inv: "exec_inv img e" and i: "i < task_count e" and nh: "\<not> halted (tk_state (task_at e 0))"
  shows "lives img e (dispatch vs img e i)"
proof -
  have n: "0 < task_count e" by (rule inv_exceptD(6) [OF inv])
  have run: "lives img e (run_task vs img e' i)"
    if "exec_inv img e'" "evolves e e'" "task_count e' = task_count e" for e'
    using run_task_lives [OF that(1), of i vs] that i by (auto intro: lives_from)
  let ?r = "terminal_fault vs e Fault_Fuel"
  let ?h = "set_state e 0 (S_Halted ?r (state_join (tk_state (task_at e 0))))"
  have "evolves e ?h" using n by (auto simp: evolves_def waits_def set_state_def split: if_splits)
  then have "lives img e (Return (Some (A_Done ?r)), ?h)"
    using halt_inv [OF inv nh root_live [OF inv]] n by (simp add: action_ok_def set_state_def)
  moreover have "lives img e (run_task vs img (e\<lparr>ex_cleanup_steps := ex_cleanup_steps e + 1\<rparr>) i)"
    "lives img e (run_task vs img (e\<lparr>ex_steps := saturating_add u64_max (ex_steps e) 1\<rparr>) i)"
    using inv by (intro run; simp add: evolves_def)+
  ultimately show ?thesis unfolding dispatch_def Let_def task_at_def by simp
qed

lemma cancel_inv:
  assumes inv: "exec_inv img e"
  obtains e' where "cancel e = (Return (), e')" "exec_inv img e'" "evolves e e'"
    "\<And>i. i < task_count e \<Longrightarrow> tk_state (task_at e' i) = tk_state (task_at e i)"
proof (cases "terminal_result (tk_state (task_at e 0)) = None")
  case True
  let ?m = "e\<lparr>ex_tasks := map (\<lambda>t. if cancel_skips (tk_state t) then t else t\<lparr>tk_cancelled := True\<rparr>)
      (ex_tasks e)\<rparr>"
  have n: "ex_tasks e \<noteq> []" using inv_exceptD(6) [OF inv] by auto
  have m: "marks e ?m"
    by (rule marksI [OF refl]) (auto simp: task_at_def elim!: is_free.elims)
  have "cancel e = (Return (), ?m\<lparr>ex_aborting := True\<rparr>)"
    using n True by (simp add: cancel_def task_at_def)
  moreover have "exec_inv img (?m\<lparr>ex_aborting := True\<rparr>)" using marks_inv [OF m inv] by simp
  moreover have "evolves e (?m\<lparr>ex_aborting := True\<rparr>)"
    using marks_fields(1) [OF m] by (auto simp: evolves_def waits_def)
  ultimately show thesis by (rule that) (use marks_fields(1) [OF m] in simp)
next
  case False
  then show thesis
    using inv_exceptD(6) [OF inv] inv by (intro that [of e]) (auto simp: cancel_def task_at_def)
qed

lemma advance_round_lives:
  assumes inv: "exec_inv img e"
  shows "lives img e (advance_round vs img e)"
proof (cases "terminal_result (tk_state (task_at e 0))")
  case (Some r)
  then show ?thesis
    using inv inv_exceptD(6) [OF inv] by (auto simp: advance_round_def task_at_def action_ok_def)
next
  case None
  have n: "ex_tasks e \<noteq> []" using inv_exceptD(6) [OF inv] by auto
  let ?quiet = "\<lambda>e'. exec_inv img e' \<and> evolves e e' \<and>
    terminal_result (tk_state (task_at e' 0)) = None"
  have budget: "ends (\<lambda>_. ?quiet) (\<lambda>_ _. False)
      (if over_budget e then cancel e else (Return (), e))"
  proof (cases "over_budget e")
    case True
    from inv show ?thesis
      by (rule cancel_inv) (use True None n in auto)
  qed (use inv None in simp)
  have pick: "lives img e (and_then (select vs e' [0..<task_count e']) (\<lambda>s e'.
      case s of
        Scan_Cancel i ticket \<Rightarrow> (Return (Some (A_Cancel i ticket)), e')
      | Scan_Idle \<Rightarrow> (Return (Some A_Waiting), e')
      | Scan_Task i \<Rightarrow> dispatch vs img e' i))" if q: "?quiet e'" for e'
  proof (rule ends_and_then [OF select_ends])
    show "exec_inv img e'" using q by simp
    then show "\<not> halted (tk_state (task_at e' i))" if "i < task_count e'" for i
      using not_halted that q by auto
  next
    fix s e''
    assume a: "settled img e' e'' \<and> scanned e'' s \<and>
      (\<forall>k < task_count e''. \<not> halted (tk_state (task_at e'' k)))"
    then have e'': "exec_inv img e''" "evolves e e''"
      using q evolves_trans [of e e' e''] progress_evolves [of e' e''] by (auto simp: settled_def)
    show "lives img e (case s of
        Scan_Cancel i ticket \<Rightarrow> (Return (Some (A_Cancel i ticket)), e'')
      | Scan_Idle \<Rightarrow> (Return (Some A_Waiting), e'')
      | Scan_Task i \<Rightarrow> dispatch vs img e'' i)"
    proof (cases s)
      case (Scan_Task i)
      have "lives img e'' (dispatch vs img e'' i)"
        using a Scan_Task inv_exceptD(6) [OF e''(1)]
        by (intro dispatch_lives e''(1)) (auto simp: scanned_def)
      then show ?thesis using Scan_Task e''(2) by (auto intro: lives_from)
    qed (use a e'' in \<open>auto simp: scanned_def action_ok_def\<close>)
  qed
  have eq: "advance_round vs img e = and_then (if over_budget e then cancel e else (Return (), e)) (\<lambda>_ e.
      and_then (select vs e [0..<task_count e]) (\<lambda>s e.
      case s of
        Scan_Cancel i ticket \<Rightarrow> (Return (Some (A_Cancel i ticket)), e)
      | Scan_Idle \<Rightarrow> (Return (Some A_Waiting), e)
      | Scan_Task i \<Rightarrow> dispatch vs img e i))"
    using None n by (simp add: advance_round_def task_at_def)
  show ?thesis unfolding eq by (rule ends_and_then [OF budget]) (rule pick)
qed

lemma advance_loop_ends:
  "exec_inv img e \<Longrightarrow> ends (\<lambda>a e'. exec_inv img e' \<and> evolves e e' \<and> action_ok e a e') (\<lambda>_ _. False)
     (advance_loop vs img fuel e)"
proof (induction fuel arbitrary: e)
  case 0
  then show ?case by (simp add: action_ok_def)
next
  case (Suc fuel)
  show ?case
    unfolding advance_loop.simps
  proof (rule ends_and_then [OF advance_round_lives [OF Suc.prems]])
    fix a e'
    assume a: "exec_inv img e' \<and> evolves e e' \<and> (\<forall>b. a = Some b \<longrightarrow> action_ok e b e')"
    show "ends (\<lambda>a e'. exec_inv img e' \<and> evolves e e' \<and> action_ok e a e') (\<lambda>_ _. False)
        (case a of Some a \<Rightarrow> (Return a, e') | None \<Rightarrow> advance_loop vs img fuel e')"
    proof (cases a)
      case None
      have "ends (\<lambda>a e''. exec_inv img e'' \<and> evolves e e'' \<and> action_ok e a e'') (\<lambda>_ _. False)
          (advance_loop vs img fuel e')"
      proof (rule ends_mono [OF Suc.IH])
        show "exec_inv img e'" using a by simp
        show "exec_inv img e'' \<and> evolves e e'' \<and> action_ok e b e''"
          if "exec_inv img e'' \<and> evolves e' e'' \<and> action_ok e' b e''" for b e''
          using that a evolves_trans [of e e' e''] action_ok_ticket [of e' b e'' e]
          by (auto simp: evolves_def [of e e'])
      qed
      then show ?thesis using None by simp
    qed (use a in simp)
  qed
qed

lemma advance_ends:
  assumes "exec_inv img e"
  shows "ends (\<lambda>a e'. exec_inv img e' \<and> evolves e e' \<and> action_ok e a e') (\<lambda>_ _. False)
    (advance vs img e fuel)"
  using advance_loop_ends [OF assms] assms by (simp add: advance_def inv_except_def storage_ok_def)

section \<open>Host events\<close>

lemma waiting_set_input:
  assumes inv: "exec_inv img e" and i: "i < task_count e" and w: "tk_state (task_at e i) = S_Waiting k node"
  shows "settled img e (set_input e i (Some v))"
proof -
  have flux: "fluxes img i e e" using fluxes_open [OF inv i] w by simp
  have "waits e i k" using i w by (simp add: waits_def)
  then have "\<not> waits e j k" if "j \<noteq> i" for j using inv that by (auto simp: inv_except_def)
  then have "exec_inv img (set_input e i (Some v))"
    unfolding set_input_def
    using inv_exceptD(3) [OF inv i] w i flux
    by (intro flux_close) (auto simp: fluxes_def)
  moreover have "progress e (set_input e i (Some v))"
    unfolding set_input_def using i by (intro progress_update) (auto simp: waits_def)
  ultimately show ?thesis by (simp add: settled_def)
qed

definition delivered :: "('v, 'e) image \<Rightarrow> nat \<Rightarrow> ('v, 'e) exec \<Rightarrow> ('v, 'e) exec \<Rightarrow> bool" where
  "delivered img i e e' \<longleftrightarrow> settled img e e' \<and> (\<forall>k. \<not> waits e' i k)"

lemma delivered_start:
  assumes "fluxes img i e0 e" "pc < code_size img"
  shows "delivered img i e0 (start e i pc v)"
  using settled_start [OF assms] fluxes_count [OF assms(1)] by (simp add: delivered_def waits_def)

lemma finish_delivers:
  assumes "fluxes img i e0 e" "node < code_size img"
  shows "\<exists>e'. finish vs img e i node r = (Return (), e') \<and> delivered img i e0 e'"
proof -
  have "delivered img i e0 (set_state e i (S_Returning r))" for r
    using settled_returning [OF assms(1)] fluxes_count [OF assms(1)]
    by (simp add: delivered_def waits_def set_state_def)
  then show ?thesis
    using assms(2) closed_node(1) [OF fluxes_closed [OF assms(1)] assms(2)] delivered_start [OF assms(1)]
    by (auto simp: finish_def image_node_in split: result.splits option.splits)
qed

lemma exec_check_eq:
  assumes "storage_ok img e" "i < task_count e" "n \<le> u32_max"
  shows "exec_check e i n =
    (if length (task_frames e i) + n \<le> lm_frames_per_task (ex_limits e) \<and>
        n \<le> pool_available (ex_frames e) then Return () else Raise Fault_Frames, e)"
proof -
  have st: "map tk_stack (ex_tasks e) ! i = tk_stack (task_at e i)"
    using assms(2) by (simp add: task_at_def)
  show ?thesis
    using frames.check_iff [OF storage_pool(1) [OF assms(1)], of i n "lm_frames_per_task (ex_limits e)"]
      assms(2,3)
    unfolding st by (simp add: exec_check_def task_at_def task_frames_def)
qed

lemma enter_scope_ends:
  assumes inv: "exec_inv img e" and i: "i < task_count e" and w: "tk_state (task_at e i) = S_Waiting k node"
  shows "ends (\<lambda>_. delivered img i e) (\<lambda>_ e'. e' = e) (enter_scope img e i node context)"
proof -
  have flux: "fluxes img i e e" using fluxes_open [OF inv i] w by simp
  have node: "node < code_size img" and input: "tk_input (task_at e i) \<noteq> None"
    using inv_exceptD(3) [OF inv i] w by auto
  note kinds = closed_node(2) [OF inv_exceptD(7) [OF inv] node]
  show ?thesis
  proof (cases "\<exists>im body. nd_kind (img_nodes img ! node) = N_Scope im body")
    case False
    then show ?thesis
      using node by (auto simp: enter_scope_def image_node_in split: node_kind.splits)
  next
    case True
    then obtain im body where kind: "nd_kind (img_nodes img ! node) = N_Scope im body" by blast
    let ?max = "lm_frames_per_task (ex_limits e)"
    show ?thesis
    proof (cases "length (task_frames e i) + 2 \<le> ?max \<and> 2 \<le> pool_available (ex_frames e)")
      case False
      then have "exec_check e i 2 = (Raise Fault_Frames, e)"
        using exec_check_eq [OF inv_exceptD(1) [OF inv] i, of 2] by (simp add: u32_max_def)
      then show ?thesis using kind node by (simp add: enter_scope_def image_node_in)
    next
      case room: True
      then have check: "exec_check e i 2 = (Return (), e)"
        using exec_check_eq [OF inv_exceptD(1) [OF inv] i, of 2] by (simp add: u32_max_def)
      obtain e1 where e1: "exec_push e i (K_Finish node) = (Return (), e1)"
        "pushes e i (K_Finish node # task_frames e i) e1"
        "pool_available (ex_frames e1) = pool_available (ex_frames e) - 1"
        using exec_push_room [OF inv_exceptD(1) [OF inv] i, of "K_Finish node"] room by auto
      have ok: "list_all (kind_ok (code_size img) (stride e)) (K_Finish node # task_frames e i)"
        using storage_pool(2) [OF inv_exceptD(1) [OF inv] i] node by (simp add: kind_ok_def)
      have f1: "fluxes img i e e1" by (rule pushes_fluxes [OF flux e1(2) ok])
      have len1: "length (task_frames e1 i) < lm_frames_per_task (ex_limits e1)"
        "0 < pool_available (ex_frames e1)"
        using room e1(2,3) pushes_keeps [OF e1(2)] by (auto simp: pushes_def)
      let ?k = "K_Context (tk_context (ex_tasks e1 ! i))"
      obtain e2 where e2: "exec_push e1 i ?k = (Return (), e2)" "pushes e1 i (?k # task_frames e1 i) e2"
        using exec_push_room [OF fluxes_storage [OF f1] fluxes_count [OF f1] len1] by blast
      have "list_all (kind_ok (code_size img) (stride e1)) (?k # task_frames e1 i)"
        using storage_pool(2) [OF fluxes_storage [OF f1] fluxes_count [OF f1]] by (simp add: kind_ok_def)
      then have f2: "fluxes img i e e2" by (rule pushes_fluxes [OF f1 e2(2)])
      let ?e3 = "update_task e2 i (\<lambda>t. t\<lparr>tk_context := context\<rparr>)"
      have f3: "fluxes img i e (set_input ?e3 i None)"
        by (intro fluxes_set_input fluxes_update [OF f2]) simp_all
      obtain v where v: "tk_input (task_at e i) = Some v" using input by auto
      have "tk_input (task_at e2 i) = Some v"
        using pushes_task [OF e1(2) i] pushes_task [OF e2(2) fluxes_count [OF f1]] v by auto
      then have in3: "tk_input (ex_tasks ?e3 ! i) = Some v"
        using fluxes_count [OF f2] by (simp add: task_at_def [symmetric])
      have "enter_scope img e i node context = (Return (), start (set_input ?e3 i None) i body v)"
        using node kind check e1(1) e2(1) in3 by (simp add: enter_scope_def image_node_in Let_def)
      then show ?thesis using delivered_start [OF f3] kinds kind by simp
    qed
  qed
qed

lemma enter_continuation_ends:
  assumes inv: "exec_inv img e" and i: "i < task_count e" and w: "tk_state (task_at e i) = S_Waiting k node"
  shows "ends (\<lambda>_. delivered img i e) (\<lambda>_ e'. e' = e) (enter_continuation vs img e i node entry v)"
proof (cases "entry < code_size img")
  case False
  then show ?thesis by (simp add: enter_continuation_def image_node_def get_def)
next
  case True
  have flux: "fluxes img i e e" using fluxes_open [OF inv i] w by simp
  have ok: "kind_ok (code_size img) (stride e) (K_Continuation node entry)"
    using inv_exceptD(3) [OF inv i] w True by (simp add: kind_ok_def)
  show ?thesis
  proof (cases "length (task_frames e i) < lm_frames_per_task (ex_limits e) \<and>
      0 < pool_available (ex_frames e)")
    case False
    then have "exec_push e i (K_Continuation node entry) = (Raise Fault_Frames, e)"
      by (intro exec_push_full [OF inv_exceptD(1) [OF inv] i]) auto
    then show ?thesis using True by (simp add: enter_continuation_def image_node_in)
  next
    case room: True
    then obtain e1 where e1: "exec_push e i (K_Continuation node entry) = (Return (), e1)"
      "pushes e i (K_Continuation node entry # task_frames e i) e1"
      using exec_push_room [OF inv_exceptD(1) [OF inv] i] by blast
    have "fluxes img i e e1"
      using storage_pool(2) [OF inv_exceptD(1) [OF inv] i] ok by (intro pushes_fluxes [OF flux e1(2)]) simp
    then show ?thesis
      using True e1(1) delivered_start by (simp add: enter_continuation_def image_node_in)
  qed
qed

lemma settled_trans: "progress e e' \<Longrightarrow> settled img e' e'' \<Longrightarrow> settled img e e''"
  using progress_trans by (auto simp: settled_def)

lemma complete_ends:
  assumes inv: "exec_inv img e"
  shows "ends (\<lambda>_ e'. delivered img i e e' \<and> waits e i ticket) (\<lambda>_. settled img e)
    (complete vs img e i ticket ev)"
proof -
  have id: "img_id img = ex_image_id e" and n: "ex_tasks e \<noteq> []"
    using inv inv_exceptD(6) [OF inv] by (auto simp: inv_except_def storage_ok_def)
  have same: "settled img e e" using inv by (simp add: settled_def)
  show ?thesis
  proof (cases "terminal_result (tk_state (task_at e 0)) = None \<and> waits e i ticket")
    case False
    then show ?thesis
      using id n same
      by (auto simp: complete_def waits_def task_at_def split: option.splits state.splits)
  next
    case True
    then obtain node where i: "i < task_count e" and w: "tk_state (task_at e i) = S_Waiting ticket node"
      by (auto simp: waits_def)
    have node: "node < code_size img" using inv_exceptD(3) [OF inv i] w by auto
    have flux: "fluxes img i e e" using fluxes_open [OF inv i] w by simp
    have step: "complete vs img e i ticket ev =
        (case event_control vs img node ev of
           Err f \<Rightarrow> (Raise f, e)
         | Ok control \<Rightarrow>
             let e = keep_control vs e i control in
             (case ev of
                HE_Complete r \<Rightarrow> finish vs img e i node r
              | HE_Enter context \<Rightarrow> enter_scope img e i node context
              | HE_Continue entry input \<Rightarrow> enter_continuation vs img e i node entry input))"
      using id n True i w by (simp add: complete_def task_at_def get_def)
    show ?thesis
    proof (cases ev)
      case (HE_Complete r)
      obtain c where c: "keep_control vs e i (Some (v_retain_result vs r)) = set_input e i (Some c)"
        by (simp add: keep_control_def)
      obtain e' where "finish vs img (set_input e i (Some c)) i node r = (Return (), e')"
        "delivered img i e e'"
        using finish_delivers [OF fluxes_set_input [OF flux] node, where r = r] by blast
      then show ?thesis using True c unfolding step by (simp add: HE_Complete event_control_def)
    next
      case (HE_Enter ctx)
      have "ends (\<lambda>_ e'. delivered img i e e' \<and> waits e i ticket) (\<lambda>_. settled img e)
          (enter_scope img e i node ctx)"
        by (rule ends_mono [OF enter_scope_ends [OF inv i w]]) (use same True in auto)
      then show ?thesis unfolding step by (simp add: HE_Enter event_control_def keep_control_def)
    next
      case (HE_Continue entry v)
      show ?thesis
      proof (cases "\<exists>im. nd_kind (img_nodes img ! node) = N_Request im")
        case False
        then have "event_control vs img node ev = Err Fault_StaleEvent"
          using node HE_Continue by (auto simp: event_control_def image_node_in split: node_kind.splits)
        then show ?thesis using same unfolding step by simp
      next
        case request: True
        obtain c where c: "keep_control vs e i (Some (v_retain_control vs v)) = set_input e i (Some c)"
          by (simp add: keep_control_def)
        let ?e = "set_input e i (Some c)"
        have set: "settled img e ?e" by (rule waiting_set_input [OF inv i w])
        have "complete vs img e i ticket ev = enter_continuation vs img ?e i node entry v"
          using request node c unfolding step by (auto simp: HE_Continue event_control_def image_node_in)
        moreover have "ends (\<lambda>_ e'. delivered img i e e' \<and> waits e i ticket) (\<lambda>_. settled img e)
            (enter_continuation vs img ?e i node entry v)"
        proof (rule ends_mono [OF enter_continuation_ends])
          show "exec_inv img ?e" "i < task_count ?e" using set i by (simp_all add: settled_def)
          show "tk_state (task_at ?e i) = S_Waiting ticket node" using i w by simp
          show "delivered img i e e' \<and> waits e i ticket" if "delivered img i ?e e'" for e'
            using that True settled_trans set by (auto simp: delivered_def settled_def)
        qed (use set in simp)
        ultimately show ?thesis by simp
      qed
    qed
  qed
qed

end
