(* ===== verification/Machine_Storage.thy ===== *)
theory Machine_Storage
  imports Machine_Runs
begin

text \<open>
  Where executions come from and how their storage changes between turns: construction, binding
  release, larger images, suspension and resumption on larger storage. The step relation of the
  host's calls and the executions it reaches.
\<close>

section \<open>Construction\<close>

lemma exec_new_inv:
  assumes "exec_new img tasks frames bindings lim input ctx = Ok e"
  shows "exec_inv img e"
proof -
  let ?root = "task_default\<lparr>tk_state := S_Ready, tk_pc := img_entry img, tk_input := Some input,
    tk_context := ctx\<rparr>"
  from assms have closed: "image_closed img" and n: "tasks \<noteq> []" "length tasks \<le> u32_max"
    and fr: "length frames \<le> u32_max" and stride: "img_bindings img \<le> lm_bindings_per_task lim"
    and div: "lm_bindings_per_task lim \<le> length bindings div length tasks"
    and e: "e = \<lparr>ex_tasks = (map (\<lambda>_. task_default) tasks)[0 := ?root], ex_frames = pool_new frames,
      ex_bindings = map (\<lambda>_. None) bindings, ex_limits = lim, ex_steps = 0, ex_cleanup_steps = 0,
      ex_ticket = 0, ex_cursor = 0, ex_aborting = False, ex_image_id = img_id img\<rparr>"
    by (auto simp: exec_new_def validate_Ok_iff split: if_splits)
  have at: "task_at e i = (if i = 0 then ?root else task_default)" if "i < length tasks" for i
    using that by (auto simp: e task_at_def nth_list_update)
  have count: "task_count e = length tasks" by (simp add: e)
  have stacks: "map tk_stack (ex_tasks e) = replicate (length tasks) stack_default"
    using at count by (intro nth_equalityI) (simp_all add: task_at_def [symmetric] task_default_def)
  have frames: "task_frames e i = []" if "i < length tasks" for i
    using at [OF that] by (simp add: task_frames_def task_default_def)
  have "length tasks * lm_bindings_per_task lim \<le> length tasks * (length bindings div length tasks)"
    using div by simp
  also have "\<dots> \<le> length bindings" by simp
  finally have "storage_ok img e"
    using n fr stride closed pool_new_inv(1) [OF fr] frames
    unfolding storage_ok_def count stacks by (simp add: e)
  moreover have "state_ok img e i (tk_state (task_at e i))" if "i < length tasks" for i
    using at [OF that] closed by (auto simp: task_default_def image_closed_def)
  moreover have "parent_ok None e i" if "i < length tasks" for i
    using at [OF that] by (auto simp: parent_ok_def task_default_def)
  moreover have "parents e = {}" using at count by (auto simp: parents_def task_default_def)
  moreover have "\<not> waits e i k" for i k
    using at count by (auto simp: waits_def task_default_def split: if_splits)
  ultimately show ?thesis by (simp add: inv_except_def count acyclic_def)
qed

section \<open>Releasing bindings\<close>

lemma clear_rows_Return:
  assumes "\<And>i. i \<in> set rows \<Longrightarrow> i * n + hi \<le> length bs" "lo \<le> hi"
  shows "\<exists>bs'. clear_rows bs n lo hi rows = (Return (), bs') \<and> length bs' = length bs"
  using assms(1)
proof (induction rows arbitrary: bs)
  case (Cons i rows)
  let ?bs = "fill_none bs (i * n + lo) (hi - lo)"
  have "i * n + hi \<le> length bs" using Cons.prems by simp
  then have "length ?bs = length bs" using assms(2) by (intro length_fill_none) simp
  moreover from this Cons.prems have "\<And>j. j \<in> set rows \<Longrightarrow> j * n + hi \<le> length ?bs" by simp
  ultimately show ?case using Cons.IH [of ?bs] \<open>i * n + hi \<le> length bs\<close> by auto
qed simp

lemma clear_bindings_inv:
  assumes "exec_inv img e" "clear_bindings e lo hi = (r, e')"
  shows "exec_inv img e' \<and> evolves e e' \<and> r \<noteq> Panic"
proof (cases "lo \<le> hi \<and> hi \<le> stride e \<and> lo \<noteq> hi")
  case True
  have "i * stride e + hi \<le> length (ex_bindings e)" if "i < task_count e" for i
  proof -
    have "Suc i * stride e \<le> task_count e * stride e" using that by (intro mult_le_mono1) simp
    then show ?thesis using True inv_exceptD(1) [OF assms(1)] by (simp add: storage_ok_def)
  qed
  then obtain bs where "clear_rows (ex_bindings e) (stride e) lo hi [0..<task_count e] =
      (Return (), bs)" "length bs = length (ex_bindings e)"
    using clear_rows_Return [of "[0..<task_count e]" "stride e" hi "ex_bindings e" lo] True by auto
  then show ?thesis
    using assms(2) True inv_bindings [OF assms(1), of bs]
    by (auto simp: clear_bindings_def evolves_def waits_def)
next
  case False
  then show ?thesis using assms by (auto simp: clear_bindings_def split: if_splits)
qed

section \<open>Larger images\<close>

text \<open>An appended image keeps every address and its identity.\<close>

definition image_extends :: "('v, 'e) image \<Rightarrow> ('v, 'e) image \<Rightarrow> bool" where
  "image_extends img img' \<longleftrightarrow>
     img_id img' = img_id img \<and> code_size img \<le> code_size img' \<and>
     take (code_size img) (img_nodes img') = img_nodes img"

lemma image_extends_nth:
  "image_extends img img' \<Longrightarrow> i < code_size img \<Longrightarrow> img_nodes img' ! i = img_nodes img ! i"
  unfolding image_extends_def by (metis nth_take)

lemma exec_inv_extends:
  assumes inv: "exec_inv img e" and ext: "image_extends img img'"
    and ok: "image_closed img'" "img_bindings img' \<le> stride e"
  shows "exec_inv img' e"
proof -
  have size: "code_size img \<le> code_size img'" using ext by (simp add: image_extends_def)
  have "kind_ok (code_size img') n k" if "kind_ok (code_size img) n k" for n and k :: "('a, 'b) frame_kind"
    using that size by (auto simp: kind_ok_def list_all_iff)
  then have "storage_ok img' e"
    using inv_exceptD(1) [OF inv] ok ext
    by (auto simp: storage_ok_def image_extends_def list_all_iff)
  moreover have "state_ok img' e i s" if "state_ok img e i s" for i s
    using that size image_extends_nth [OF ext] by (cases s) (auto simp: joined_def)
  ultimately show ?thesis using inv by (simp add: inv_except_def)
qed

section \<open>Suspension and resumption\<close>

lemma linked_append: "linked slots link js \<Longrightarrow> linked (slots @ new) link js"
  by (induction js arbitrary: link) (auto simp: nth_append)

lemma frames_from_append:
  "linked slots link js \<Longrightarrow> frames_from (slots @ new) link (length js) = frames_from slots link (length js)"
  by (induction js arbitrary: link) (auto simp: nth_append get_def)

text \<open>Slots and stacks may be added to a pool; the existing stacks keep their frames.\<close>

lemma pool_grow:
  assumes inv: "pool_inv p sts" and len: "length (pl_slots p) + length new \<le> u32_max"
    and p': "p' = \<lparr>pl_slots = pl_slots p @ new, pl_meta = pl_meta p\<rparr>"
  shows "pool_inv p' (sts @ replicate n stack_default)"
    "i < length sts \<Longrightarrow> frames_of p' (sts ! i) = frames_of p (sts ! i)"
proof -
  from inv obtain free links where free: "linked (pl_slots p) (pm_free_head (pl_meta p)) free"
    "pm_free_count (pl_meta p) = length free"
    "mset (free @ concat links) = mset [0..<pm_next_unused (pl_meta p)]"
    "pm_next_unused (pl_meta p) \<le> length (pl_slots p)"
    and links: "list_all2 (stack_links p) sts links" "length links = length sts"
    by (rule pool_invE)
  have "list_all2 (stack_links p') sts links"
    using links(1) by (rule list_all2_mono) (simp add: stack_links_def p' linked_append)
  moreover have "list_all2 (stack_links p') (replicate n stack_default) (replicate n [])"
    by (simp add: list_all2_conv_all_nth stack_links_def stack_default_def)
  ultimately have all: "list_all2 (stack_links p') (sts @ replicate n stack_default) (links @ replicate n [])"
    by (rule list_all2_appendI)
  show "pool_inv p' (sts @ replicate n stack_default)"
    unfolding pool_inv_def
    by (intro conjI exI [of _ free] exI [of _ "links @ replicate n []"])
      (use all free len in \<open>auto simp: p' linked_append\<close>)
  assume "i < length sts"
  then have "stack_links p (sts ! i) (links ! i)" using links by (simp add: list_all2_conv_all_nth)
  then show "frames_of p' (sts ! i) = frames_of p (sts ! i)"
    using frames_from_append by (fastforce simp: stack_links_def frames_of_def p')
qed

text \<open>The words of \<open>suspend\<close> with the resumed storage are the suspended execution again.\<close>

lemma resume_suspended:
  assumes "exec_inv img e"
  shows "resume img (suspend e) (ex_tasks e) (pl_slots (ex_frames e)) (ex_bindings e) = Return e"
proof -
  have ok: "storage_ok img e" using assms by (simp add: inv_exceptD(1))
  then have "stride e \<le> length (ex_bindings e) div task_count e" "ex_tasks e \<noteq> []"
    by (auto simp: storage_ok_def less_eq_div_iff_mult_less_eq mult.commute)
  moreover have "length (pl_slots (ex_frames e)) \<le> u32_max"
    using ok by (simp add: storage_ok_def pool_inv_def)
  ultimately show ?thesis
    using ok by (simp add: resume_def suspend_def exec_view_of_def from_view_def storage_ok_def)
qed

text \<open>
  A suspended execution resumed on larger storage: free tasks and empty frame slots appended, the
  binding rows laid out for a width that is not smaller, the other limits free.
\<close>

definition grown :: "('v, 'e) exec \<Rightarrow> ('v, 'e) exec \<Rightarrow> bool" where
  "grown e e' \<longleftrightarrow>
     (\<exists>n new. ex_tasks e' = ex_tasks e @ replicate n task_default \<and>
        ex_frames e' = \<lparr>pl_slots = pl_slots (ex_frames e) @ new, pl_meta = pl_meta (ex_frames e)\<rparr>) \<and>
     stride e \<le> stride e' \<and> ex_steps e' = ex_steps e \<and> ex_cleanup_steps e' = ex_cleanup_steps e \<and>
     ex_ticket e' = ex_ticket e \<and> ex_cursor e' = ex_cursor e \<and> ex_aborting e' = ex_aborting e \<and>
     ex_image_id e' = ex_image_id e"

lemma grown_task:
  "ex_tasks e' = ex_tasks e @ replicate n task_default \<Longrightarrow> i < task_count e + n \<Longrightarrow>
   task_at e' i = (if i < task_count e then task_at e i else task_default)"
  by (auto simp: task_at_def nth_append)

lemma resume_grown:
  assumes "resume img ((suspend e)\<lparr>su_limits := lim\<rparr>) (ex_tasks e @ replicate n task_default)
      (pl_slots (ex_frames e) @ new) bindings = Return e'"
    and "stride e \<le> lm_bindings_per_task lim"
  shows "grown e e'" "task_count e' \<le> u32_max" "length (pl_slots (ex_frames e')) \<le> u32_max"
    "task_count e' * stride e' \<le> length (ex_bindings e')"
proof -
  from assms have e': "e' = from_view ((suspend e)\<lparr>su_limits := lim\<rparr>)
      (ex_tasks e @ replicate n task_default) (pl_slots (ex_frames e) @ new) bindings"
    and len: "task_count e + n \<le> u32_max" "length (pl_slots (ex_frames e)) + length new \<le> u32_max"
      "lm_bindings_per_task lim \<le> length bindings div (task_count e + n)"
    by (auto simp: resume_def split: if_splits)
  show "grown e e'"
    unfolding grown_def e' using assms(2) by (auto simp: from_view_def suspend_def exec_view_of_def)
  show "task_count e' \<le> u32_max" "length (pl_slots (ex_frames e')) \<le> u32_max"
    using len by (simp_all add: e' from_view_def)
  have "(task_count e + n) * lm_bindings_per_task lim \<le> (task_count e + n) * (length bindings div (task_count e + n))"
    using len(3) by simp
  also have "\<dots> \<le> length bindings" by simp
  finally show "task_count e' * stride e' \<le> length (ex_bindings e')"
    by (simp add: e' from_view_def)
qed

lemma grown_frames:
  assumes "storage_ok img e" "grown e e'" "length (pl_slots (ex_frames e')) \<le> u32_max" "i < task_count e"
  shows "task_at e' i = task_at e i" "task_frames e' i = task_frames e i"
proof -
  from assms(2) obtain n new where tasks: "ex_tasks e' = ex_tasks e @ replicate n task_default"
    and pool: "ex_frames e' = \<lparr>pl_slots = pl_slots (ex_frames e) @ new, pl_meta = pl_meta (ex_frames e)\<rparr>"
    by (auto simp: grown_def)
  show at: "task_at e' i = task_at e i" using grown_task [OF tasks, of i] assms(4) by simp
  show "task_frames e' i = task_frames e i"
    using pool_grow(2) [OF _ _ pool, of "map tk_stack (ex_tasks e)" i] at assms
    by (simp add: task_frames_def storage_ok_def pool task_at_def)
qed

lemma grown_inv:
  assumes inv: "exec_inv img e" and grown: "grown e e'"
    and room: "task_count e' \<le> u32_max" "length (pl_slots (ex_frames e')) \<le> u32_max"
      "task_count e' * stride e' \<le> length (ex_bindings e')"
  shows "exec_inv img e'"
proof -
  from grown obtain n new where tasks: "ex_tasks e' = ex_tasks e @ replicate n task_default"
    and pool: "ex_frames e' = \<lparr>pl_slots = pl_slots (ex_frames e) @ new, pl_meta = pl_meta (ex_frames e)\<rparr>"
    and stride: "stride e \<le> stride e'" and ticket: "ex_ticket e' = ex_ticket e"
    and id: "ex_image_id e' = ex_image_id e"
    by (auto simp: grown_def)
  have ok: "storage_ok img e" using inv by (simp add: inv_exceptD(1))
  have count: "task_count e' = task_count e + n" by (simp add: tasks)
  note at = grown_task [OF tasks]
  have zero: "0 < task_count e" using ok by (simp add: storage_ok_def)
  have stack: "tk_stack task_default = stack_default" by (simp add: task_default_def)
  have frames: "task_frames e' i = (if i < task_count e then task_frames e i else [])"
    if "i < task_count e'" for i
    using that at [of i] grown_frames(2) [OF ok grown room(2), of i]
    by (auto simp: task_frames_def count stack_default_def stack)
  have "pool_inv (ex_frames e') (map tk_stack (ex_tasks e'))"
    using pool_grow(1) [OF _ _ pool, of "map tk_stack (ex_tasks e)" n] ok room
    by (simp add: storage_ok_def tasks stack pool)
  moreover have "kind_ok (code_size img) (stride e') k" if "kind_ok (code_size img) (stride e) k"
    for k :: "('a, 'b) frame_kind"
    using that stride by (auto simp: kind_ok_def split: option.splits)
  ultimately have "storage_ok img e'"
    using ok room frames stride id by (auto simp: storage_ok_def count list_all_iff)
  moreover have state: "state_ok img e' i s"
    if "state_ok img e i s" "i < task_count e" for i s
    using that frames [of i] at ticket by (cases s) (auto simp: joined_def count)
  moreover have new: "state_ok img e' i S_Free" if "task_count e \<le> i" "i < task_count e'" for i
  proof -
    have "i \<noteq> 0" using that zero by linarith
    then show ?thesis using that at by (simp add: count)
  qed
  moreover have free: "tk_state (task_default :: ('a, 'b) task) = S_Free"
    "tk_parent (task_default :: ('a, 'b) task) = None"
    by (simp_all add: task_default_def)
  moreover have "parent_ok None e' i" if "i < task_count e'" for i
  proof (cases "i < task_count e")
    case True
    then have "parent_ok None e i" using inv by (simp add: inv_except_def)
    then show ?thesis using True at by (auto simp: parent_ok_def child_of_def count split: option.splits)
  qed (use that at free in \<open>auto simp: parent_ok_def count\<close>)
  moreover have "parents e' = parents e"
    using at free by (fastforce simp: parents_def count split: if_splits)
  moreover have "waits e' i k = waits e i k" for i k
    using at free by (auto simp: waits_def count split: if_splits)
  ultimately show ?thesis using inv at by (auto simp: inv_except_def count)
qed

lemma grown_waits: "grown e e' \<Longrightarrow> waits e' i k = waits e i k"
  using grown_task [of e' e _ i] by (auto simp: waits_def grown_def task_default_def split: if_splits)

end
