(* ===== verification/Machine_Host.thy ===== *)
theory Machine_Host
  imports Machine_Storage
begin

text \<open>
  The executions a host can reach through the public operations of \<open>xolotl-core/src/machine.rs\<close> and
  what it may rely on there: no panic, fresh tickets, delivery at most once, a bounded number of
  rounds between host actions, no deadlock, cleanup of every \<open>Finally\<close>.
\<close>

section \<open>The calls of a host\<close>

text \<open>
  Between two calls the host may append to the image and may suspend, enlarge the storage and
  resume. The value algebra may differ from call to call.
\<close>

inductive host_step ::
  "('v, 'e) image \<times> ('v, 'e) exec \<Rightarrow> ('v, 'e) image \<times> ('v, 'e) exec \<Rightarrow> bool" where
  host_advance: "host_step (img, e) (img, snd (advance vs img e fuel))"
| host_complete: "host_step (img, e) (img, snd (complete vs img e i ticket ev))"
| host_cancel: "host_step (img, e) (img, snd (cancel e))"
| host_clear: "host_step (img, e) (img, snd (clear_bindings e lo hi))"
| host_extend: "image_extends img img' \<Longrightarrow> validate img' = Ok () \<Longrightarrow>
    img_bindings img' \<le> stride e \<Longrightarrow> host_step (img, e) (img', e)"
| host_resume: "resume img ((suspend e)\<lparr>su_limits := lim\<rparr>) (ex_tasks e @ replicate n task_default)
      (pl_slots (ex_frames e) @ new) bindings = Return e' \<Longrightarrow>
    stride e \<le> lm_bindings_per_task lim \<Longrightarrow> host_step (img, e) (img, e')"

inductive reachable :: "('v, 'e) image \<Rightarrow> ('v, 'e) exec \<Rightarrow> bool" where
  reachable_new: "exec_new img tasks frames bindings lim input ctx = Ok e \<Longrightarrow> reachable img e"
| reachable_step: "reachable img e \<Longrightarrow> host_step (img, e) (img', e') \<Longrightarrow> reachable img' e'"

text \<open>Every ticket a task waits for was waited for by that task before, or is new.\<close>

definition tickets_kept :: "('v, 'e) exec \<Rightarrow> ('v, 'e) exec \<Rightarrow> bool" where
  "tickets_kept e e' \<longleftrightarrow>
     ex_ticket e \<le> ex_ticket e' \<and> (\<forall>j k. waits e' j k \<longrightarrow> waits e j k \<or> ex_ticket e < k)"

lemma tickets_kept_refl [simp]: "tickets_kept e e"
  by (simp add: tickets_kept_def)

lemma tickets_kept_trans: "tickets_kept e e' \<Longrightarrow> tickets_kept e' e'' \<Longrightarrow> tickets_kept e e''"
  unfolding tickets_kept_def using le_less_trans order_trans by metis

lemma evolves_tickets: "evolves e e' \<Longrightarrow> tickets_kept e e'"
  by (simp add: evolves_def tickets_kept_def)

lemma settled_tickets: "settled img e e' \<Longrightarrow> exec_inv img e' \<and> tickets_kept e e'"
  by (simp add: settled_def progress_def tickets_kept_def)

lemma grown_tickets: "grown e e' \<Longrightarrow> tickets_kept e e'"
  by (simp add: tickets_kept_def grown_waits) (simp add: grown_def)

lemma advance_kept:
  "exec_inv img e \<Longrightarrow> exec_inv img (snd (advance vs img e fuel)) \<and> tickets_kept e (snd (advance vs img e fuel))"
  using advance_ends [of img e vs fuel] evolves_tickets
  by (cases "advance vs img e fuel"; cases "fst (advance vs img e fuel)") auto

lemma complete_kept:
  "exec_inv img e \<Longrightarrow> exec_inv img (snd (complete vs img e i k ev)) \<and>
   tickets_kept e (snd (complete vs img e i k ev)) \<and> fst (complete vs img e i k ev) \<noteq> Panic"
  using complete_ends [of img e i k vs ev] settled_tickets
  by (cases "complete vs img e i k ev"; cases "fst (complete vs img e i k ev)")
    (auto simp: delivered_def)

lemma cancel_kept: "exec_inv img e \<Longrightarrow> exec_inv img (snd (cancel e)) \<and> tickets_kept e (snd (cancel e))"
  using cancel_inv [of img e] evolves_tickets by (metis snd_conv)

lemma clear_bindings_kept:
  "exec_inv img e \<Longrightarrow> exec_inv img (snd (clear_bindings e lo hi)) \<and>
   tickets_kept e (snd (clear_bindings e lo hi))"
  using clear_bindings_inv [of img e lo hi] evolves_tickets by (metis prod.collapse)

lemma host_step_inv:
  assumes "exec_inv img e" "host_step (img, e) (img', e')"
  shows "exec_inv img' e' \<and> tickets_kept e e'"
  using assms(2)
proof cases
  case (host_resume lim n new bindings)
  note grown = resume_grown [OF host_resume(2,3)]
  show ?thesis
    using grown_inv [OF assms(1) grown] grown_tickets [OF grown(1)] host_resume(1) by simp
qed (auto simp: validate_Ok_iff advance_kept [OF assms(1)] complete_kept [OF assms(1)]
  cancel_kept [OF assms(1)] clear_bindings_kept [OF assms(1)] intro: exec_inv_extends [OF assms(1)])

lemma reachable_inv: "reachable img e \<Longrightarrow> exec_inv img e"
proof (induction rule: reachable.induct)
  case (reachable_step img e img' e')
  then show ?case using host_step_inv [of img e img' e'] by simp
qed (rule exec_new_inv)

lemma host_steps_inv:
  assumes "host_step\<^sup>*\<^sup>* (img, e) (img', e')" "exec_inv img e"
  shows "exec_inv img' e' \<and> tickets_kept e e'"
  using assms
proof (induction "(img', e')" arbitrary: img' e' rule: rtranclp_induct)
  case (step y)
  obtain img1 e1 where y: "y = (img1, e1)" by (cases y)
  then have "exec_inv img1 e1 \<and> tickets_kept e e1" using step by simp
  then show ?case
    using host_step_inv [of img1 e1 img' e'] step.hyps(2) tickets_kept_trans [of e e1 e'] y by simp
qed simp

section \<open>Rounds left\<close>

text \<open>Once cancelled, or under a step limit, only so many rounds can pass without a host action.\<close>

definition limited :: "('v, 'e) exec \<Rightarrow> bool" where
  "limited e \<longleftrightarrow> ex_aborting e \<or> (\<exists>m \<le> u64_max. lm_max_steps (ex_limits e) = Some m)"

definition rounds_left :: "('v, 'e) exec \<Rightarrow> nat" where
  "rounds_left e =
     (if ex_aborting e then 0
      else case lm_max_steps (ex_limits e) of Some m \<Rightarrow> m - ex_steps e | None \<Rightarrow> 0) +
     (lm_cleanup_steps (ex_limits e) - ex_cleanup_steps e)"

definition spends :: "('v, 'e) exec \<Rightarrow> ('v, 'e) exec \<Rightarrow> bool" where
  "spends e e' \<longleftrightarrow> limited e' \<and> rounds_left e' < rounds_left e"

definition same_budget :: "('v, 'e) exec \<Rightarrow> ('v, 'e) exec \<Rightarrow> bool" where
  "same_budget e e' \<longleftrightarrow>
     ex_limits e' = ex_limits e \<and> ex_steps e' = ex_steps e \<and>
     ex_cleanup_steps e' = ex_cleanup_steps e \<and> ex_aborting e' = ex_aborting e"

lemma same_budget_eq:
  "same_budget e e' \<Longrightarrow> limited e' = limited e \<and> rounds_left e' = rounds_left e \<and>
   over_budget e' = over_budget e"
  by (auto simp: same_budget_def limited_def rounds_left_def over_budget_def split: option.splits)

lemma settled_budget: "settled img e e' \<Longrightarrow> same_budget e e'"
  by (simp add: settled_def progress_def same_budget_def)

lemma run_task_budget:
  assumes inv: "exec_inv img e" and i: "i < task_count e"
  shows "same_budget e (snd (run_task vs img e i))"
proof -
  let ?e = "e\<lparr>ex_cursor := (i + 1) mod task_count e\<rparr>"
  have "exec_inv img ?e" using inv by simp
  note step = transition_settles [OF this, of i vs]
  obtain r e' where t: "transition vs img ?e i = (r, e')" by fastforce
  have "progress ?e e'" using step i t by (cases r) (auto simp: settled_def fluxes_def)
  then have "same_budget e e'" by (simp add: progress_def same_budget_def)
  then show ?thesis
    using t by (cases r) (auto simp: run_task_def same_budget_def set_state_def update_task_def)
qed

lemma dispatch_spends:
  assumes inv: "exec_inv img e" and i: "i < task_count e" and lim: "limited e" "\<not> over_budget e"
    and step: "dispatch vs img e i = (Return None, e')"
  shows "spends e e'"
proof -
  let ?c = "e\<lparr>ex_cleanup_steps := ex_cleanup_steps e + 1\<rparr>"
  let ?s = "e\<lparr>ex_steps := saturating_add u64_max (ex_steps e) 1\<rparr>"
  have "same_budget ?c (snd (run_task vs img ?c i))" "same_budget ?s (snd (run_task vs img ?s i))"
    using inv i by (intro run_task_budget; simp)+
  then show ?thesis
    using step lim
    by (auto simp: dispatch_def Let_def spends_def limited_def rounds_left_def same_budget_def
      over_budget_def saturating_add_def split: if_splits option.splits)
qed

text \<open>The parts of a round that does not find the root terminated.\<close>

lemma round_cases:
  assumes inv: "exec_inv img e" and live: "terminal_result (tk_state (task_at e 0)) = None"
  obtains e1 s e2 where "exec_inv img e1" "terminal_result (tk_state (task_at e1 0)) = None"
    "if over_budget e then cancel e = (Return (), e1) else e1 = e"
    "select vs e1 [0..<task_count e1] = (Return s, e2)" "settled img e1 e2" "scanned e2 s"
    "advance_round vs img e =
       (case s of
          Scan_Cancel i ticket \<Rightarrow> (Return (Some (A_Cancel i ticket)), e2)
        | Scan_Idle \<Rightarrow> (Return (Some A_Waiting), e2)
        | Scan_Task i \<Rightarrow> dispatch vs img e2 i)"
proof -
  have n: "ex_tasks e \<noteq> []" using inv_exceptD(6) [OF inv] by auto
  obtain e1 where e1: "exec_inv img e1" "terminal_result (tk_state (task_at e1 0)) = None"
    "if over_budget e then cancel e = (Return (), e1) else e1 = e"
  proof (cases "over_budget e")
    case True
    obtain e1 where "cancel e = (Return (), e1)" "exec_inv img e1"
      "tk_state (task_at e1 0) = tk_state (task_at e 0)"
      using inv n by (rule_tac cancel_inv [of img e]) auto
    then show ?thesis using that True live by simp
  qed (use that inv live in simp)
  have "\<not> halted (tk_state (task_at e1 i))" if "i < task_count e1" for i
    using not_halted [OF e1(1,2) that] .
  then obtain s e2 where s: "select vs e1 [0..<task_count e1] = (Return s, e2)"
    "settled img e1 e2" "scanned e2 s"
    using select_ends [OF e1(1), of vs "[0..<task_count e1]"]
    by (cases "select vs e1 [0..<task_count e1]"; cases "fst (select vs e1 [0..<task_count e1])") auto
  show thesis
    by (rule that [OF e1 s])
      (use n live e1(3) s(1) in \<open>auto simp: advance_round_def task_at_def split: if_splits\<close>)
qed

lemma cancel_budget: "cancel e = (Return (), e') \<Longrightarrow> limited e \<Longrightarrow>
    limited e' \<and> rounds_left e' \<le> rounds_left e"
  by (auto simp: cancel_def limited_def rounds_left_def split: if_splits option.splits)

lemma cancel_aborts: "cancel e = (Return (), e') \<Longrightarrow> terminal_result (tk_state (task_at e' 0)) = None \<Longrightarrow>
    \<not> over_budget e'"
  by (auto simp: cancel_def over_budget_def task_at_def split: if_splits)

lemma round_spends:
  assumes inv: "exec_inv img e" and lim: "limited e"
    and step: "advance_round vs img e = (Return None, e')"
  shows "exec_inv img e' \<and> spends e e'"
proof -
  have live: "terminal_result (tk_state (task_at e 0)) = None"
    using step by (auto simp: advance_round_def task_at_def split: if_splits option.splits)
  from inv live show ?thesis
  proof (rule round_cases [where vs = vs])
    fix e1 s e2
    assume e1: "exec_inv img e1" "terminal_result (tk_state (task_at e1 0)) = None"
      "if over_budget e then cancel e = (Return (), e1) else e1 = e"
      and s: "settled img e1 e2" "scanned e2 s"
      and round: "advance_round vs img e =
       (case s of
          Scan_Cancel i ticket \<Rightarrow> (Return (Some (A_Cancel i ticket)), e2)
        | Scan_Idle \<Rightarrow> (Return (Some A_Waiting), e2)
        | Scan_Task i \<Rightarrow> dispatch vs img e2 i)"
    then obtain i where i: "s = Scan_Task i" "dispatch vs img e2 i = (Return None, e')"
      using step by (cases s) auto
    have "limited e1 \<and> rounds_left e1 \<le> rounds_left e \<and> \<not> over_budget e1"
      using e1(2,3) lim cancel_budget [of e e1] cancel_aborts [of e e1] by (auto split: if_splits)
    then have "limited e2" "rounds_left e2 \<le> rounds_left e" "\<not> over_budget e2"
      using same_budget_eq [OF settled_budget [OF s(1)]] by auto
    moreover have "spends e2 e'"
      using dispatch_spends [OF _ _ _ _ i(2)] s i(1) calculation
      by (auto simp: settled_def scanned_def)
    moreover have "exec_inv img e'" using advance_round_lives [OF inv, of vs] step by simp
    ultimately show ?thesis by (auto simp: spends_def)
  qed
qed

text \<open>A round that acts tells the host to do something.\<close>

lemma run_task_acts:
  assumes "run_task vs img e i = (Return (Some a), e')"
  shows "a \<noteq> A_Yielded \<and> a \<noteq> A_Waiting"
  using assms transition_requests [of vs img _ i a e']
  by (auto simp: run_task_def requested_def split: prod.splits comp.splits)

lemma round_acts:
  assumes "advance_round vs img e = (Return (Some a), e')"
  shows "a \<noteq> A_Yielded"
  using assms
  by (auto simp: advance_round_def dispatch_def and_then_def Let_def dest: run_task_acts
    split: if_splits option.splits prod.splits comp.splits scan.splits)

lemma loop_spends:
  assumes "exec_inv img e" "limited e" "rounds_left e < fuel"
  shows "fst (advance_loop vs img fuel e) \<noteq> Return A_Yielded"
  using assms
proof (induction fuel arbitrary: e)
  case (Suc fuel)
  obtain r e' where r: "advance_round vs img e = (r, e')" by fastforce
  show ?case
  proof (cases r)
    case (Return a)
    show ?thesis
    proof (cases a)
      case None
      then have "exec_inv img e' \<and> spends e e'"
        using round_spends [OF Suc.prems(1,2)] r Return by simp
      then show ?thesis
        using Suc.IH [of e'] Suc.prems(3) r Return None by (simp add: spends_def)
    next
      case (Some b)
      then show ?thesis using r Return round_acts [of vs img e b e'] by simp
    qed
  qed (use r in simp_all)
qed simp

section \<open>No deadlock\<close>

text \<open>A task the scheduler passes over.\<close>

definition passed_over :: "('v, 'e) exec \<Rightarrow> nat \<Rightarrow> bool" where
  "passed_over e i \<longleftrightarrow>
     is_free (tk_state (task_at e i)) \<or> is_done (tk_state (task_at e i)) \<or>
     is_ready (ex_tasks e) (tk_state (task_at e i)) = Return False"

lemma select_idle:
  assumes "select vs e offs = (Return Scan_Idle, e')" "ex_tasks e \<noteq> []"
  shows "e' = e \<and> (\<forall>off \<in> set offs. passed_over e ((ex_cursor e + off) mod task_count e))"
  using assms(1)
proof (induction offs)
  case (Cons o1 offs)
  let ?i = "(ex_cursor e + o1) mod task_count e"
  have i: "?i < task_count e" using assms(2) by simp
  have "select vs e offs = (Return Scan_Idle, e')" "passed_over e ?i"
    using Cons.prems i
    by (auto simp: Let_def passed_over_def task_at_def is_ready_def set_state_def update_task_def
      split: if_splits option.splits comp.splits bool.splits state.splits)
  then show ?case using Cons.IH by simp
qed simp

lemma rotation_covers:
  assumes "i < n"
  shows "\<exists>off \<in> set [0..<n]. (c + off) mod n = (i :: nat)"
proof -
  have "(c + (n - c mod n + i) mod n) mod n = (c mod n + (n - c mod n) + i) mod n"
    by (simp add: mod_add_left_eq mod_add_right_eq add.assoc)
  also have "\<dots> = i" using assms by simp
  finally show ?thesis using assms by (intro bexI [of _ "(n - c mod n + i) mod n"]) auto
qed

lemma idle_waits:
  assumes inv: "exec_inv img e" and over: "\<And>i. i < task_count e \<Longrightarrow> passed_over e i"
    and live: "terminal_result (tk_state (task_at e 0)) = None"
  shows "\<exists>i k. waits e i k"
proof -
  have wf: "wf ((parents e)\<inverse>)"
    using finite_acyclic_wf_converse [OF finite_parents [OF inv] inv_exceptD(5) [OF inv]] .
  have "\<exists>j k. waits e j k"
    if "i < task_count e" "\<not> is_free (tk_state (task_at e i))" "\<not> is_done (tk_state (task_at e i))" for i
    using wf that
  proof (induction i rule: wf_induct_rule)
    case (less i)
    have ready: "is_ready (ex_tasks e) (tk_state (task_at e i)) = Return False"
      using over [OF less.prems(1)] less.prems by (simp add: passed_over_def)
    show ?case
    proof (cases "tk_state (task_at e i)")
      case (S_Waiting k node)
      then show ?thesis using less.prems(1) by (auto simp: waits_def)
    next
      case (S_Joining j)
      note child = join_children [OF inv less.prems(1) S_Joining]
      define c where "c = (if is_done (tk_state (task_at e (js_left j))) then js_right j else js_left j)"
      have c: "c < task_count e" "tk_parent (task_at e c) = Some i" using child by (auto simp: c_def)
      moreover have "\<not> is_done (tk_state (task_at e c))"
        using ready S_Joining child by (auto simp: c_def is_ready_def Let_def task_at_def)
      moreover have "\<not> is_free (tk_state (task_at e c))" using live_parent [OF inv c(1)] c(2) by auto
      ultimately show ?thesis by (intro less.IH [of c]) (auto simp: parents_def)
    qed (use ready less.prems in \<open>auto simp: is_ready_def\<close>)
  qed
  moreover have "\<not> is_done (tk_state (task_at e 0))" using live by (auto elim: is_done.elims)
  ultimately show ?thesis using root_live [OF inv] inv_exceptD(6) [OF inv] by blast
qed

lemma round_waiting:
  assumes inv: "exec_inv img e" and step: "advance_round vs img e = (Return (Some A_Waiting), e')"
  shows "\<exists>i k. waits e' i k"
proof -
  have live: "terminal_result (tk_state (task_at e 0)) = None"
    using step by (auto simp: advance_round_def task_at_def split: if_splits option.splits)
  from inv live show ?thesis
  proof (rule round_cases [where vs = vs])
    fix e1 s e2
    assume e1: "exec_inv img e1" "terminal_result (tk_state (task_at e1 0)) = None"
      and s: "select vs e1 [0..<task_count e1] = (Return s, e2)"
      and round: "advance_round vs img e =
       (case s of
          Scan_Cancel i ticket \<Rightarrow> (Return (Some (A_Cancel i ticket)), e2)
        | Scan_Idle \<Rightarrow> (Return (Some A_Waiting), e2)
        | Scan_Task i \<Rightarrow> dispatch vs img e2 i)"
    have "s = Scan_Idle \<and> e' = e2"
      using step round
      by (auto simp: dispatch_def Let_def dest: run_task_acts split: scan.splits if_splits)
    moreover have "ex_tasks e1 \<noteq> []" using inv_exceptD(6) [OF e1(1)] by auto
    ultimately have "e' = e1" and over: "\<forall>off \<in> set [0..<task_count e1].
        passed_over e1 ((ex_cursor e1 + off) mod task_count e1)"
      using select_idle [of vs e1 "[0..<task_count e1]" e2] s by auto
    have "passed_over e1 i" if i: "i < task_count e1" for i
      using rotation_covers [OF i, of "ex_cursor e1"] over by auto
    then show ?thesis using idle_waits [OF e1(1) _ e1(2)] \<open>e' = e1\<close> by blast
  qed
qed

lemma loop_waiting:
  assumes "exec_inv img e" "advance_loop vs img fuel e = (Return A_Waiting, e')"
  shows "\<exists>i k. waits e' i k"
  using assms
proof (induction fuel arbitrary: e)
  case (Suc fuel)
  obtain r e1 where r: "advance_round vs img e = (r, e1)" by fastforce
  then obtain a where a: "r = Return a" using Suc.prems(2) by (cases r) auto
  show ?case
  proof (cases a)
    case None
    then have "exec_inv img e1" using advance_round_lives [OF Suc.prems(1), of vs] r a by simp
    then show ?thesis using Suc.IH [of e1] Suc.prems(2) r a None by simp
  next
    case (Some b)
    then show ?thesis using round_waiting [OF Suc.prems(1), of vs e1] Suc.prems(2) r a by simp
  qed
qed simp

section \<open>Cleanup\<close>

text \<open>A returning task pops its top frame; the popped frame leaves room for another one.\<close>

lemma return_pops:
  assumes inv: "exec_inv img e" and i: "i < task_count e"
    and s: "tk_state (task_at e i) = S_Returning r" and top: "task_frames e i = k # ks"
  shows "\<exists>e1. transition vs img e i = silent (return_frame vs img e1 i (influence_result vs e i r) k) \<and>
    storage_ok img e1 \<and> i < task_count e1 \<and> ex_limits e1 = ex_limits e \<and> task_frames e1 i = ks \<and>
    tk_cleaning (task_at e1 i) = tk_cleaning (task_at e i) \<and> 0 < pool_available (ex_frames e1)"
proof -
  define o1 where "o1 = influence_result vs (set_state e i S_Ready) i r"
  define c where "c = (case tk_input (task_at e i) of
      Some w \<Rightarrow> v_influence vs (v_retain_result vs o1) w | None \<Rightarrow> v_retain_result vs o1)"
  let ?e = "set_input (set_state e i S_Ready) i (Some c)"
  have o1: "o1 = influence_result vs e i r"
    using i by (simp add: o1_def influence_result_def set_state_def update_task_def get_def)
  have at: "ex_tasks e ! i = task_at e i" "ex_tasks (set_state e i S_Ready) ! i = task_at (set_state e i S_Ready) i"
    by (simp_all add: task_at_def)
  have in1: "tk_input (task_at (set_state e i S_Ready) i) = tk_input (task_at e i)"
    using i by (simp add: set_state_def)
  have run: "transition vs img e i = silent (and_then (exec_pop ?e i) (\<lambda>frame e.
      case frame of None \<Rightarrow> (Return (), set_state e i (S_Done o1))
        | Some k \<Rightarrow> return_frame vs img e i o1 k))"
    using i s in1 unfolding c_def o1_def by (simp add: transition_def at return_step_def Let_def)
  have flux: "fluxes img i e e" using fluxes_open [OF inv i] s by simp
  then have flux: "fluxes img i e ?e"
    using flux_set_state [of img i e S_Ready] progress_update [of i e e "\<lambda>t. t\<lparr>tk_state := S_Ready\<rparr>"] i
    by (intro fluxes_set_input) (simp add: fluxes_def set_state_def)
  have frames: "task_frames ?e i = k # ks"
    using top i by (simp add: task_frames_def set_state_def set_input_def)
  obtain e1 where pop: "exec_pop ?e i = (Return (Some k), e1)"
    and e1: "pushes ?e i ks e1" "pool_available (ex_frames e1) = pool_available (ex_frames ?e) + 1"
    using exec_pop_cases(2) [OF fluxes_storage [OF flux] fluxes_count [OF flux] frames] by blast
  have ok1: "storage_ok img e1" "i < task_count e1"
    using pop_ends [OF flux] pop fluxes_storage [of img i e e1] fluxes_count [of img i e e1] by auto
  have "ex_limits e1 = ex_limits e" "tk_cleaning (task_at e1 i) = tk_cleaning (task_at e i)" "task_frames e1 i = ks"
    using e1(1) i by (auto simp: pushes_def set_state_def set_input_def)
  then show ?thesis using run pop e1(2) ok1 o1 by (intro exI [of _ e1]) simp
qed

lemma finally_enters:
  assumes inv: "exec_inv img e" and i: "i < task_count e"
    and s: "tk_state (task_at e i) = S_Returning r"
    and top: "task_frames e i = K_Finally cleanup v # ks"
  shows "if length (task_frames e i) \<le> lm_frames_per_task (ex_limits e)
    then \<exists>e'. transition vs img e i = (Return None, e') \<and>
      tk_state (task_at e' i) = S_Ready \<and> tk_pc (task_at e' i) = cleanup \<and>
      tk_input (task_at e' i) = Some v \<and>
      tk_cleaning (task_at e' i) = tk_cleaning (task_at e i) + 1 \<and>
      task_frames e' i = K_Cleaned (influence_result vs e i r) # ks
    else fst (transition vs img e i) = Raise Fault_Frames"
proof -
  let ?k = "K_Cleaned (influence_result vs e i r)"
  obtain e1 where run: "transition vs img e i = silent (return_frame vs img e1 i (influence_result vs e i r) (K_Finally cleanup v))"
    and ok1: "storage_ok img e1" "i < task_count e1"
    and same: "ex_limits e1 = ex_limits e" "task_frames e1 i = ks"
      "tk_cleaning (task_at e1 i) = tk_cleaning (task_at e i)" "0 < pool_available (ex_frames e1)"
    using return_pops [OF inv i s top] by blast
  show ?thesis
  proof (cases "length (task_frames e i) \<le> lm_frames_per_task (ex_limits e)")
    case True
    then obtain e2 where push: "exec_push e1 i ?k = (Return (), e2)" "pushes e1 i (?k # ks) e2"
      using exec_push_room [OF ok1, of ?k] same top by auto
    have "tk_cleaning (task_at e2 i) = tk_cleaning (task_at e i)" "i < task_count e2" "task_frames e2 i = ?k # ks"
      using push(2) ok1 same by (auto simp: pushes_def)
    then show ?thesis
      using True run push(1)
      by (auto simp: silent_def start_def update_task_def task_at_def task_frames_def)
  next
    case False
    then have "exec_push e1 i ?k = (Raise Fault_Frames, e1)"
      using same top by (intro exec_push_full [OF ok1]) simp
    then show ?thesis using False run by (simp add: silent_def)
  qed
qed

text \<open>The frame of a cleanup gives back the outcome of the body unless only the cleanup failed.\<close>

lemma cleanup_leaves:
  assumes inv: "exec_inv img e" and i: "i < task_count e"
    and s: "tk_state (task_at e i) = S_Returning r" and top: "task_frames e i = K_Cleaned original # ks"
  shows "\<exists>e'. transition vs img e i = (Return None, e') \<and>
    tk_state (task_at e' i) = S_Returning (v_influence_result vs
      (case original of Err x \<Rightarrow> Err x | Ok v \<Rightarrow> (case influence_result vs e i r of Err x \<Rightarrow> Err x | Ok _ \<Rightarrow> Ok v))
      (v_retain_result vs original)) \<and>
    tk_cleaning (task_at e' i) = tk_cleaning (task_at e i) - 1 \<and> task_frames e' i = ks"
proof -
  obtain e1 where run: "transition vs img e i = silent (return_frame vs img e1 i (influence_result vs e i r) (K_Cleaned original))"
    and ok1: "i < task_count e1" "task_frames e1 i = ks" "tk_cleaning (task_at e1 i) = tk_cleaning (task_at e i)"
    using return_pops [OF inv i s top] by blast
  then show ?thesis
    by (simp add: silent_def Let_def set_state_def update_task_def task_at_def task_frames_def saturating_sub_def)
qed

end
