(* ===== verification/Machine_Contract.thy ===== *)
theory Machine_Contract
  imports Machine_Host
begin

text \<open>
  The contract of \<open>Execution\<close> towards its host, stated for every execution the host can reach, with
  small programs on which each statement is exercised.
\<close>

section \<open>Sample programs\<close>

definition demo_vals :: "(nat, nat) vals" where
  "demo_vals = \<lparr>v_unit = 0, v_truth = (\<lambda>v. Ok (v \<noteq> 0)), v_pair = (\<lambda>a b. Ok (a * 100 + b)),
     v_error = (\<lambda>_. 7), v_error_value = (\<lambda>x. x), v_influence = (\<lambda>v _. v),
     v_influence_result = (\<lambda>r _. r), v_retain_result = (\<lambda>_. 0), v_retain_control = (\<lambda>_. 0)\<rparr>"

definition demo_program :: "(nat, nat) node_kind list \<Rightarrow> (nat, nat) image" where
  "demo_program kinds = \<lparr>img_version = image_version_1, img_id = [], img_nodes = map (\<lambda>k. node_new k 2) kinds,
     img_entry = 0, img_bindings = 0, img_imports = 4\<rparr>"

definition demo_limits :: limits where
  "demo_limits = \<lparr>lm_frames_per_task = 4, lm_bindings_per_task = 0, lm_max_steps = Some 9,
     lm_cleanup_steps = 5\<rparr>"

definition demo_start :: "(nat, nat) exec" where
  "demo_start = \<lparr>ex_tasks = [task_default\<lparr>tk_state := S_Ready, tk_input := Some 5, tk_context := 3\<rparr>,
       task_default, task_default], ex_frames = pool_new [None, None, None], ex_bindings = [],
     ex_limits = demo_limits, ex_steps = 0, ex_cleanup_steps = 0, ex_ticket = 0, ex_cursor = 0,
     ex_aborting = False, ex_image_id = []\<rparr>"

definition demo_asks :: "(nat, nat) image" where
  "demo_asks = demo_program [N_Then 1 2, N_Request 2, N_Request 3]"

definition demo_cleans :: "(nat, nat) image" where
  "demo_cleans = demo_program [N_Finally 2 3, N_Input, N_Fail 9, N_Input]"

definition demo_forks :: "(nat, nat) image" where
  "demo_forks = demo_program [N_Fork 2 3 Join_All, N_Input, N_Input, N_Input]"

definition demo_loops :: "(nat, nat) image" where "demo_loops = demo_program [N_Call 0]"

lemmas demo_defs = demo_vals_def demo_limits_def demo_start_def demo_program_def
  demo_asks_def demo_cleans_def demo_forks_def demo_loops_def node_new_def task_default_def pool_new_def
  pool_meta_default_def stack_default_def

lemma demo_reachable:
  "validate (demo_program kinds) = Ok () \<Longrightarrow> reachable (demo_program kinds) demo_start"
  by (rule reachable_new [of _ "[task_default, task_default, task_default]" "[None, None, None]" "[]"
      demo_limits 5 3])
    (simp add: exec_new_def demo_defs u32_max_def)

lemma demo_valid:
  "validate demo_asks = Ok ()" "validate demo_cleans = Ok ()" "validate demo_forks = Ok ()"
  "validate demo_loops = Ok ()"
  by (simp_all add: validate_Ok_iff image_closed_def node_closed_def node_targets_def demo_defs)

lemma demo_runs:
  assumes "validate (demo_program kinds) = Ok ()"
  shows "reachable (demo_program kinds) (snd (advance vs (demo_program kinds) demo_start fuel))"
  using demo_reachable [OF assms] host_advance by (rule reachable_step)

lemmas run_defs = advance_def advance_round_def over_budget_def dispatch_def run_task_def
  transition_def ready_step_def ready_node_def request_step_def enter_def silent_def and_then_def
  Let_def is_ready_def set_state_def set_input_def update_task_def start_def exec_push_def
  pool_push_def pool_check_def pool_allocate_def fork_step_def inherit_def image_node_def get_def checked_add_def saturating_add_def
  u64_max_def u32_max_def usize_max_def finish_def influence_result_def ok_or_def

lemma loop_numeral:
  "advance_loop vs img (numeral k) e =
     and_then (advance_round vs img e) (\<lambda>action e.
       case action of Some a \<Rightarrow> (Return a, e) | None \<Rightarrow> advance_loop vs img (pred_numeral k) e)"
  by (simp add: numeral_eq_Suc)

lemma update_numeral: "(x # xs)[numeral k := y] = x # xs[pred_numeral k := y]"
  by (simp add: numeral_eq_Suc)

lemmas eval_defs = run_defs demo_defs loop_numeral update_numeral

text \<open>The first program asks, is answered, and asks again.\<close>

definition demo_waiting :: "(nat, nat) exec" where
  "demo_waiting = snd (advance demo_vals demo_asks demo_start 3)"

definition demo_answered :: "(nat, nat) exec" where
  "demo_answered = snd (complete demo_vals demo_asks demo_waiting 0 1 (HE_Complete (Ok 8)))"

lemma demo_first:
  "\<exists>q. advance demo_vals demo_asks demo_start 3 = (Return (A_Request q), demo_waiting) \<and>
     rq_ticket q = 1"
  by (simp add: eval_defs demo_waiting_def)

lemma demo_delivery:
  "complete demo_vals demo_asks demo_waiting 0 1 (HE_Complete (Ok 8)) = (Return (), demo_answered)"
  by (simp add: eval_defs demo_waiting_def demo_answered_def complete_def event_control_def
    keep_control_def)

lemma demo_second:
  "\<exists>q. fst (advance demo_vals demo_asks demo_answered 5) = Return (A_Request q) \<and> rq_ticket q = 2"
  by (simp add: eval_defs demo_waiting_def demo_answered_def complete_def event_control_def
    keep_control_def return_step_def exec_pop_def pool_pop_def)

lemma demo_asks_reachable: "reachable demo_asks demo_start"
  using demo_reachable demo_valid(1) unfolding demo_asks_def by blast

lemma demo_waiting_reachable: "reachable demo_asks demo_waiting"
  using demo_runs demo_valid(1) unfolding demo_asks_def demo_waiting_def by blast

lemma demo_delivery_step: "host_step\<^sup>*\<^sup>* (demo_asks, demo_waiting) (demo_asks, demo_answered)"
  unfolding demo_answered_def by (rule r_into_rtranclp) (rule host_complete)

lemma stale_refused:
  assumes "exec_inv img e" "\<not> waits e i ticket"
  shows "complete vs img e i ticket ev = (Raise Fault_StaleEvent, e)"
proof -
  have "img_id img = ex_image_id e" "ex_tasks e \<noteq> []"
    using assms(1) inv_exceptD(6) [OF assms(1)] by (auto simp: inv_except_def storage_ok_def)
  then show ?thesis
    using assms(2)
    by (auto simp: complete_def waits_def task_at_def get_def split: option.splits state.splits)
qed

section \<open>Safety\<close>

text \<open>
  C1: no call of the host panics on an execution it can reach. \<open>advance\<close> always returns an action,
  never a fault; \<open>cancel\<close> succeeds; \<open>complete\<close>, \<open>clear_bindings\<close> and \<open>is_pending\<close> succeed or report
  a fault. The state invariant holds throughout: linked frame stacks share no slot, every program
  counter and continuation target is inside the image, joins and parents agree and form a forest,
  and no two tasks wait for one ticket.
\<close>

theorem host_never_panics:
  assumes "reachable img e"
  shows "exec_inv img e \<and> (\<exists>a e'. advance vs img e fuel = (Return a, e')) \<and>
    (\<exists>e'. cancel e = (Return (), e')) \<and> fst (complete vs img e i ticket ev) \<noteq> Panic \<and>
    fst (clear_bindings e lo hi) \<noteq> Panic \<and> is_pending e i ticket \<noteq> Panic"
proof -
  have inv: "exec_inv img e" using assms by (rule reachable_inv)
  have "\<exists>a e'. advance vs img e fuel = (Return a, e')"
    using advance_ends [OF inv, of vs fuel]
    by (cases "advance vs img e fuel"; cases "fst (advance vs img e fuel)") auto
  moreover have "\<exists>e'. cancel e = (Return (), e')" using inv by (rule cancel_inv) blast
  moreover have "ex_tasks e \<noteq> []" using inv_exceptD(6) [OF inv] by auto
  ultimately show ?thesis
    using inv complete_kept [OF inv] clear_bindings_inv [OF inv, of lo hi]
    by (auto simp: is_pending_def) (metis prod.collapse)
qed

theorem host_never_panics_witness:
  "exec_inv demo_asks demo_start \<and>
   (\<exists>a e'. advance demo_vals demo_asks demo_start 3 = (Return a, e'))"
  using host_never_panics [of demo_asks demo_start demo_vals 3] demo_reachable demo_valid(1)
  by (simp add: demo_asks_def)

section \<open>Tickets\<close>

text \<open>
  C17: tickets are never reused. Whatever the host does between two requests, the later one carries
  a larger ticket.
\<close>

theorem tickets_increase:
  assumes "reachable img e"
    and "advance vs img e fuel = (Return (A_Request q), e1)"
    and "host_step\<^sup>*\<^sup>* (img, e1) (img', e2)"
    and "advance vs' img' e2 fuel' = (Return (A_Request q'), e3)"
  shows "rq_ticket q < rq_ticket q'"
proof -
  have inv: "exec_inv img e" using assms(1) by (rule reachable_inv)
  then have q: "exec_inv img e1" "rq_ticket q = ex_ticket e1"
    using advance_ends [OF inv, of vs fuel] assms(2) by (simp_all add: action_ok_def)
  then have "exec_inv img' e2" "ex_ticket e1 \<le> ex_ticket e2"
    using host_steps_inv [OF assms(3)] by (auto simp: tickets_kept_def)
  then show ?thesis
    using advance_ends [of img' e2 vs' fuel'] assms(4) q by (simp add: action_ok_def)
qed

theorem tickets_increase_witness:
  "\<exists>q q'. fst (advance demo_vals demo_asks demo_start 3) = Return (A_Request q) \<and>
     fst (advance demo_vals demo_asks demo_answered 5) = Return (A_Request q') \<and>
     rq_ticket q < rq_ticket q'"
proof -
  obtain q where q: "advance demo_vals demo_asks demo_start 3 = (Return (A_Request q), demo_waiting)"
    using demo_first by blast
  obtain q' e where q': "advance demo_vals demo_asks demo_answered 5 = (Return (A_Request q'), e)"
    using demo_second by (metis prod.collapse)
  show ?thesis
    using tickets_increase [OF demo_asks_reachable q demo_delivery_step q'] q q' by simp
qed

text \<open>
  C2: a completion is delivered at most once. After \<open>complete\<close> has accepted an event for a ticket,
  every later event for that ticket is refused as stale, at whatever task and with whatever content
  it arrives, and the refusal leaves the execution as it was.
\<close>

theorem delivered_once:
  assumes "reachable img e" "complete vs img e i ticket ev = (Return (), e1)"
    and "host_step\<^sup>*\<^sup>* (img, e1) (img', e2)"
  shows "complete vs' img' e2 j ticket ev' = (Raise Fault_StaleEvent, e2)"
proof -
  have inv: "exec_inv img e" using assms(1) by (rule reachable_inv)
  have del: "delivered img i e e1" "waits e i ticket"
    using complete_ends [OF inv, of i ticket vs ev] assms(2) by simp_all
  then have inv1: "exec_inv img e1" and kept: "tickets_kept e e1"
    using settled_tickets [of img e e1] by (auto simp: delivered_def)
  have old: "ticket \<le> ex_ticket e" using waits_bound [OF inv del(2)] by simp
  have none: "\<not> waits e1 k ticket" for k
  proof
    assume w: "waits e1 k ticket"
    then have "waits e k ticket" using kept old unfolding tickets_kept_def by (metis not_le)
    then have "k = i" using inv del(2) by (auto simp: inv_except_def)
    then show False using w del(1) by (simp add: delivered_def)
  qed
  have inv2: "exec_inv img' e2" and kept2: "tickets_kept e1 e2"
    using host_steps_inv [OF assms(3) inv1] by auto
  have "\<not> waits e2 j ticket"
    using none kept2 kept old unfolding tickets_kept_def by (meson le_trans not_le)
  then show ?thesis by (rule stale_refused [OF inv2])
qed

theorem delivered_once_witness:
  "complete demo_vals demo_asks demo_waiting 0 1 (HE_Complete (Ok 8)) = (Return (), demo_answered) \<and>
   complete demo_vals demo_asks demo_answered 0 1 (HE_Complete (Err 4)) =
     (Raise Fault_StaleEvent, demo_answered)"
  using delivered_once [OF demo_waiting_reachable demo_delivery rtranclp.rtrancl_refl] demo_delivery
  by simp

section \<open>Liveness\<close>

text \<open>
  C3: rounds are bounded. Under a step limit, or once cancelled, a turn with more fuel than the steps
  and cleanup steps that remain never yields: it ends in a request, a cancellation request, a wait
  for the host or the result. A program that loops for ever is stopped.
\<close>

theorem bounded_turns:
  assumes "reachable img e" "limited e" "rounds_left e < fuel"
  shows "\<exists>a e'. advance vs img e fuel = (Return a, e') \<and> a \<noteq> A_Yielded"
proof -
  have inv: "exec_inv img e" using assms(1) by (rule reachable_inv)
  then have "img_id img = ex_image_id e" by (simp add: inv_except_def storage_ok_def)
  then have "fst (advance vs img e fuel) \<noteq> Return A_Yielded"
    using loop_spends [OF inv assms(2,3), of vs] by (simp add: advance_def)
  then show ?thesis
    using advance_ends [OF inv, of vs fuel]
    by (cases "advance vs img e fuel"; cases "fst (advance vs img e fuel)") auto
qed

theorem bounded_turns_witness:
  "\<exists>a e'. advance demo_vals demo_loops demo_start 15 = (Return a, e') \<and> a \<noteq> A_Yielded"
proof (rule bounded_turns)
  show "reachable demo_loops demo_start"
    using demo_reachable demo_valid(4) unfolding demo_loops_def by blast
qed (simp_all add: limited_def rounds_left_def demo_start_def demo_limits_def u64_max_def)

text \<open>
  C4: there is no deadlock. When a turn ends waiting, some task does have an outstanding request
  that the host can answer; tasks joining each other for ever cannot happen.
\<close>

theorem waits_for_host:
  assumes "reachable img e" "advance vs img e fuel = (Return A_Waiting, e')"
  shows "\<exists>i ticket. waits e' i ticket"
proof -
  have inv: "exec_inv img e" using assms(1) by (rule reachable_inv)
  then have "img_id img = ex_image_id e" by (simp add: inv_except_def storage_ok_def)
  then show ?thesis
    using loop_waiting [OF inv, of vs fuel e'] assms(2) by (simp add: advance_def)
qed

theorem waits_for_host_witness:
  "\<exists>e'. advance demo_vals demo_asks demo_waiting 3 = (Return A_Waiting, e') \<and>
     (\<exists>i ticket. waits e' i ticket)"
proof -
  have "\<exists>e'. advance demo_vals demo_asks demo_waiting 3 = (Return A_Waiting, e')"
    by (simp add: eval_defs demo_waiting_def)
  then show ?thesis using waits_for_host [OF demo_waiting_reachable] by blast
qed

section \<open>Cleanup and cancellation\<close>

text \<open>
  C5: how a task goes through a \<open>Finally\<close>. The step on which its body has returned, with a value, an
  error or a cancellation alike, enters the cleanup on the input saved at entry, counted as cleaning,
  with the outcome of the body kept in the frame below; only when the task is deeper than the frame
  limit, which a resumed run may have lowered, does that step raise \<open>Fault::Frames\<close> instead. The step
  on which the cleanup has returned gives back the error of the body, else the error of the cleanup,
  else the value of the body, and undoes the count. A task is done only with no frame left, so not
  before each \<open>Finally\<close> it entered has been left. Whether a task is given its next step is the
  scheduler's decision: an exhausted cleanup budget halts the run before it.
\<close>

theorem finally_brackets:
  assumes "reachable img e" "i < task_count e"
  shows "(\<forall>r cleanup v ks. tk_state (task_at e i) = S_Returning r \<longrightarrow> task_frames e i = K_Finally cleanup v # ks \<longrightarrow>
      (if length (task_frames e i) \<le> lm_frames_per_task (ex_limits e)
       then \<exists>e'. transition vs img e i = (Return None, e') \<and>
         tk_state (task_at e' i) = S_Ready \<and> tk_pc (task_at e' i) = cleanup \<and>
         tk_input (task_at e' i) = Some v \<and>
         tk_cleaning (task_at e' i) = tk_cleaning (task_at e i) + 1 \<and>
         task_frames e' i = K_Cleaned (influence_result vs e i r) # ks
       else fst (transition vs img e i) = Raise Fault_Frames)) \<and>
    (\<forall>r original ks. tk_state (task_at e i) = S_Returning r \<longrightarrow> task_frames e i = K_Cleaned original # ks \<longrightarrow>
      (\<exists>e'. transition vs img e i = (Return None, e') \<and>
        tk_state (task_at e' i) = S_Returning (v_influence_result vs
          (case original of Err x \<Rightarrow> Err x | Ok v \<Rightarrow> (case influence_result vs e i r of Err x \<Rightarrow> Err x | Ok _ \<Rightarrow> Ok v))
          (v_retain_result vs original)) \<and>
        tk_cleaning (task_at e' i) = tk_cleaning (task_at e i) - 1 \<and> task_frames e' i = ks)) \<and>
    (\<forall>r. tk_state (task_at e i) = S_Done r \<longrightarrow> task_frames e i = [])"
proof -
  have inv: "exec_inv img e" by (rule reachable_inv [OF assms(1)])
  have "task_frames e i = []" if "tk_state (task_at e i) = S_Done r" for r
    using inv_exceptD(3) [OF inv assms(2)] that by simp
  then show ?thesis using finally_enters [OF inv assms(2)] cleanup_leaves [OF inv assms(2)] by blast
qed

theorem finally_brackets_witness:
  "\<exists>e'. transition demo_vals demo_cleans (snd (advance demo_vals demo_cleans demo_start 2)) 0 =
     (Return None, e') \<and> tk_pc (task_at e' 0) = 3"
proof -
  let ?e = "snd (advance demo_vals demo_cleans demo_start 2)"
  have "reachable demo_cleans ?e"
    using demo_runs demo_valid(2) unfolding demo_cleans_def by blast
  moreover have "0 < task_count ?e" "tk_state (task_at ?e 0) = S_Returning (Err 9)"
    "task_frames ?e 0 = [K_Finally 3 5, K_Finish 0]"
    "length (task_frames ?e 0) \<le> lm_frames_per_task (ex_limits ?e)"
    by (simp_all add: eval_defs task_at_def task_frames_def frames_of_def)
  ultimately show ?thesis using finally_brackets [of demo_cleans ?e 0 demo_vals] by metis
qed

text \<open>
  C18: cancelling a subtree terminates and marks exactly the named task and its descendants; every
  other task, and every other field of the marked ones, is as before.
\<close>

theorem cancel_tree_exact:
  assumes "reachable img e" "root < task_count e" "\<not> is_free (tk_state (task_at e root))"
  shows "\<exists>e'. cancel_tree e root = (Return (), e') \<and> exec_inv img e' \<and>
    (\<forall>i < task_count e. task_at e' i =
       (if (root, i) \<in> (parents e)\<^sup>* then (task_at e i)\<lparr>tk_cancelled := True\<rparr> else task_at e i))"
  using cancel_tree_marks [OF reachable_inv [OF assms(1)] assms(2,3)]
    marks_inv [OF _ reachable_inv [OF assms(1)]]
  by (fastforce simp: rtrancl_eq_or_trancl)

theorem cancel_tree_exact_witness:
  "\<exists>e'. cancel_tree (snd (advance demo_vals demo_forks demo_start 1)) 2 = (Return (), e') \<and>
     tk_cancelled (task_at e' 2)"
proof -
  let ?e = "snd (advance demo_vals demo_forks demo_start 1)"
  have "reachable demo_forks ?e"
    using demo_runs demo_valid(3) unfolding demo_forks_def by blast
  moreover have n: "2 < task_count ?e" "\<not> is_free (tk_state (task_at ?e 2))"
    by (simp_all add: eval_defs task_at_def)
  ultimately obtain e' where "cancel_tree ?e 2 = (Return (), e')"
    "\<forall>i < task_count ?e. task_at e' i =
       (if (2, i) \<in> (parents ?e)\<^sup>* then (task_at ?e i)\<lparr>tk_cancelled := True\<rparr> else task_at ?e i)"
    using cancel_tree_exact by blast
  then show ?thesis using n(1) by (intro exI [of _ e']) auto
qed

section \<open>Suspension\<close>

text \<open>
  C19: suspending an execution and resuming it on its own storage gives the same execution; resuming
  it on storage enlarged with free tasks and empty slots, under limits that do not narrow the
  binding rows, gives an execution with the same tasks, frame stacks and outstanding tickets.
\<close>

theorem suspend_resume:
  assumes "reachable img e"
  shows "resume img (suspend e) (ex_tasks e) (pl_slots (ex_frames e)) (ex_bindings e) = Return e \<and>
    (\<forall>lim n new bindings e'.
       resume img ((suspend e)\<lparr>su_limits := lim\<rparr>) (ex_tasks e @ replicate n task_default)
         (pl_slots (ex_frames e) @ new) bindings = Return e' \<longrightarrow>
       stride e \<le> lm_bindings_per_task lim \<longrightarrow>
       exec_inv img e' \<and> (\<forall>i < task_count e. task_at e' i = task_at e i \<and>
         task_frames e' i = task_frames e i) \<and> (\<forall>i k. waits e' i k = waits e i k))"
proof (intro conjI allI impI)
  have inv: "exec_inv img e" using assms by (rule reachable_inv)
  then show "resume img (suspend e) (ex_tasks e) (pl_slots (ex_frames e)) (ex_bindings e) = Return e"
    by (rule resume_suspended)
  fix lim n new bindings e' i k
  assume "resume img ((suspend e)\<lparr>su_limits := lim\<rparr>) (ex_tasks e @ replicate n task_default)
      (pl_slots (ex_frames e) @ new) bindings = Return e'" "stride e \<le> lm_bindings_per_task lim"
  note grown = resume_grown [OF this]
  show "exec_inv img e'" by (rule grown_inv [OF inv grown])
  show "waits e' i k = waits e i k" by (rule grown_waits [OF grown(1)])
  show "task_at e' i = task_at e i" "task_frames e' i = task_frames e i" if "i < task_count e"
    using grown_frames [OF inv_exceptD(1) [OF inv] grown(1,3) that] by auto
qed

theorem suspend_resume_witness:
  "\<exists>e'. resume demo_asks ((suspend demo_waiting)\<lparr>su_limits := demo_limits\<rparr>)
       (ex_tasks demo_waiting @ replicate 2 task_default)
       (pl_slots (ex_frames demo_waiting) @ [None]) [] = Return e' \<and> waits e' 0 1"
proof -
  have "\<exists>e'. resume demo_asks ((suspend demo_waiting)\<lparr>su_limits := demo_limits\<rparr>)
       (ex_tasks demo_waiting @ replicate 2 task_default)
       (pl_slots (ex_frames demo_waiting) @ [None]) [] = Return e'"
    "stride demo_waiting \<le> lm_bindings_per_task demo_limits" "waits demo_waiting 0 1"
    by (simp_all add: resume_def suspend_def exec_view_of_def demo_waiting_def waits_def task_at_def
      eval_defs)
  then show ?thesis using suspend_resume [OF demo_waiting_reachable] by blast
qed

end
