(* ===== verification/Authority.thy ===== *)
theory Authority
  imports Xolotl_Prelude
begin

unbundle bit_operations_syntax

text \<open>
  Capability handles of \<open>xolotl-core\<close> (\<open>authority.rs\<close>, \<open>authority/slot.rs\<close>): generational
  slots, delegation with attenuated method rights, release and revocation. Method bitmaps are
  64-bit words.
\<close>

section \<open>Slots\<close>

record handle_key =
  hk_slot :: u32
  hk_generation :: u64

datatype authority_error = Capacity | Stale | Owner | Rights

datatype slot_state = Vacant | Active | Released

record handle_slot =
  hs_generation :: u64
  hs_state :: slot_state
  hs_parent :: "handle_key option"
  hs_children :: usize

datatype slot_change = Unchanged | Retained | Reclaimed "handle_key option"

definition slot_vacant :: "u64 \<Rightarrow> handle_slot" where
  "slot_vacant g = \<lparr>hs_generation = g, hs_state = Vacant, hs_parent = None, hs_children = 0\<rparr>"

definition slot_default :: handle_slot where
  "slot_default = \<lparr>hs_generation = 0, hs_state = Vacant, hs_parent = None, hs_children = 0\<rparr>"

definition reusable :: "handle_slot \<Rightarrow> bool" where
  "reusable s \<longleftrightarrow> hs_state s = Vacant \<and> hs_generation s < u64_max"

definition slot_matches :: "handle_slot \<Rightarrow> u64 \<Rightarrow> bool" where
  "slot_matches s g \<longleftrightarrow> hs_state s = Active \<and> hs_generation s = g"

definition slot_retains :: "handle_slot \<Rightarrow> u64 \<Rightarrow> bool" where
  "slot_retains s g \<longleftrightarrow> hs_state s \<noteq> Vacant \<and> hs_generation s = g"

definition slot_install ::
  "handle_slot \<Rightarrow> handle_key option \<Rightarrow> (u64, authority_error) result \<times> handle_slot" where
  "slot_install s parent =
     (if \<not> reusable s then (Err Capacity, s)
      else if (case parent of Some k \<Rightarrow> hk_generation k = 0 | None \<Rightarrow> False) then (Err Stale, s)
      else (Ok (hs_generation s + 1),
        s\<lparr>hs_generation := hs_generation s + 1, hs_state := Active, hs_parent := parent\<rparr>))"

definition attach_child ::
  "handle_slot \<Rightarrow> u64 \<Rightarrow> (unit, authority_error) result \<times> handle_slot" where
  "attach_child s g =
     (if \<not> slot_matches s g then (Err Stale, s)
      else (case checked_add usize_max (hs_children s) 1 of
              None \<Rightarrow> (Err Capacity, s)
            | Some n \<Rightarrow> (Ok (), s\<lparr>hs_children := n\<rparr>)))"

definition slot_reclaim :: "handle_slot \<Rightarrow> slot_change \<times> handle_slot" where
  "slot_reclaim s =
     (Reclaimed (hs_parent s), s\<lparr>hs_state := Vacant, hs_children := 0, hs_parent := None\<rparr>)"

definition slot_release :: "handle_slot \<Rightarrow> u64 \<Rightarrow> slot_change \<times> handle_slot" where
  "slot_release s g =
     (if \<not> slot_matches s g then (Unchanged, s)
      else let s' = s\<lparr>hs_state := Released\<rparr> in
        if hs_children s' = 0 then slot_reclaim s' else (Retained, s'))"

definition slot_revoke :: "handle_slot \<Rightarrow> u64 \<Rightarrow> slot_change \<times> handle_slot" where
  "slot_revoke s g = (if \<not> slot_retains s g then (Unchanged, s) else slot_reclaim s)"

definition detach_child :: "handle_slot \<Rightarrow> u64 \<Rightarrow> slot_change \<times> handle_slot" where
  "detach_child s g =
     (if \<not> slot_retains s g \<or> hs_children s = 0 then (Unchanged, s)
      else let s' = s\<lparr>hs_children := hs_children s - 1\<rparr> in
        if hs_children s' = 0 \<and> hs_state s' = Released then slot_reclaim s' else (Retained, s'))"

text \<open>The ancestor walk of \<open>validate\<close>: \<open>remaining\<close> bounds it even on cyclic metadata.\<close>

fun validate_ancestors ::
  "(handle_key \<Rightarrow> handle_slot option) \<Rightarrow> nat \<Rightarrow> handle_key option \<Rightarrow> (unit, authority_error) result"
where
  "validate_ancestors lookup remaining None = Ok ()"
| "validate_ancestors lookup 0 (Some k) = Err Stale"
| "validate_ancestors lookup (Suc n) (Some k) =
     (case lookup k of
        None \<Rightarrow> Err Stale
      | Some a \<Rightarrow>
          if \<not> slot_retains a (hk_generation k) then Err Stale
          else validate_ancestors lookup n (hs_parent a))"

definition slot_validate ::
  "handle_slot \<Rightarrow> u64 \<Rightarrow> usize \<Rightarrow> (handle_key \<Rightarrow> handle_slot option) \<Rightarrow>
   (unit, authority_error) result" where
  "slot_validate s g capacity lookup =
     (if \<not> slot_matches s g then Err Stale
      else validate_ancestors lookup capacity (hs_parent s))"

section \<open>Tables\<close>

record handle =
  h_owner :: u64
  h_resource :: u32
  h_methods :: "64 word"
  h_slot :: handle_slot

type_synonym handle_table = "handle list"

definition handle_default :: handle where
  "handle_default = \<lparr>h_owner = 0, h_resource = 0, h_methods = 0, h_slot = slot_default\<rparr>"

definition table_lookup :: "handle_table \<Rightarrow> handle_key \<Rightarrow> handle_slot option" where
  "table_lookup t k = map_option h_slot (get t (hk_slot k))"

text \<open>\<open>iter().enumerate().find(reusable)\<close>: the first reusable index.\<close>

definition find_reusable :: "handle_table \<Rightarrow> nat option" where
  "find_reusable t =
     (case filter (\<lambda>i. reusable (h_slot (t ! i))) [0..<length t] of [] \<Rightarrow> None | i # _ \<Rightarrow> Some i)"

definition store_handle ::
  "handle_table \<Rightarrow> nat \<Rightarrow> handle_slot \<Rightarrow> u64 \<Rightarrow> u32 \<Rightarrow> 64 word \<Rightarrow> handle_table" where
  "store_handle t i s owner resource methods =
     t[i := \<lparr>h_owner = owner, h_resource = resource, h_methods = methods, h_slot = s\<rparr>]"

definition install_with_parent ::
  "handle_table \<Rightarrow> u64 \<Rightarrow> u32 \<Rightarrow> 64 word \<Rightarrow> handle_key option \<Rightarrow>
   (handle_key, authority_error) comp \<times> handle_table" where
  "install_with_parent t owner resource methods parent =
     (case find_reusable t of
        None \<Rightarrow> (Raise Capacity, t)
      | Some i \<Rightarrow>
          if u32_max < i then (Raise Capacity, t)
          else (case slot_install (h_slot (t ! i)) parent of
                  (Err e, _) \<Rightarrow> (Raise e, t)
                | (Ok g, authority) \<Rightarrow>
                    (case parent of
                       None \<Rightarrow>
                         (Return \<lparr>hk_slot = i, hk_generation = g\<rparr>,
                          store_handle t i authority owner resource methods)
                     | Some p \<Rightarrow>
                         if length t \<le> hk_slot p then (Panic, t)
                         else (case attach_child (h_slot (t ! hk_slot p)) (hk_generation p) of
                                 (Err e, _) \<Rightarrow> (Raise e, t)
                               | (Ok _, ps) \<Rightarrow>
                                   (Return \<lparr>hk_slot = i, hk_generation = g\<rparr>,
                                    store_handle (t[hk_slot p := (t ! hk_slot p)\<lparr>h_slot := ps\<rparr>])
                                      i authority owner resource methods)))))"

definition install ::
  "handle_table \<Rightarrow> u64 \<Rightarrow> u32 \<Rightarrow> 64 word \<Rightarrow> (handle_key, authority_error) comp \<times> handle_table" where
  "install t owner resource methods = install_with_parent t owner resource methods None"

definition table_local :: "handle_table \<Rightarrow> handle_key \<Rightarrow> u64 \<Rightarrow> (handle, authority_error) result" where
  "table_local t k owner =
     bind_result (ok_or Stale (get t (hk_slot k))) (\<lambda>h.
       if \<not> slot_retains (h_slot h) (hk_generation k) then Err Stale
       else if h_owner h \<noteq> owner then Err Owner
       else Ok h)"

definition table_get :: "handle_table \<Rightarrow> handle_key \<Rightarrow> u64 \<Rightarrow> (handle, authority_error) result" where
  "table_get t k owner =
     bind_result (ok_or Stale (get t (hk_slot k))) (\<lambda>h.
       bind_result (slot_validate (h_slot h) (hk_generation k) (length t) (table_lookup t)) (\<lambda>_.
         if h_owner h \<noteq> owner then Err Owner else Ok h))"

definition checked_shl_1 :: "nat \<Rightarrow> 64 word option" where
  "checked_shl_1 m = (if m < 64 then Some (push_bit m 1) else None)"

definition authorize ::
  "handle_table \<Rightarrow> handle_key \<Rightarrow> u64 \<Rightarrow> nat \<Rightarrow> (u32, authority_error) result" where
  "authorize t k owner method =
     bind_result (table_get t k owner) (\<lambda>h.
       bind_result (ok_or Rights (checked_shl_1 method)) (\<lambda>b.
         if h_methods h AND b = 0 then Err Rights else Ok (h_resource h)))"

definition derive ::
  "handle_table \<Rightarrow> handle_key \<Rightarrow> u64 \<Rightarrow> u64 \<Rightarrow> 64 word \<Rightarrow>
   (handle_key, authority_error) comp \<times> handle_table" where
  "derive t parent owner child methods =
     (case table_get t parent owner of
        Err e \<Rightarrow> (Raise e, t)
      | Ok h \<Rightarrow>
          if methods AND NOT (h_methods h) \<noteq> 0 then (Raise Rights, t)
          else install_with_parent t child (h_resource h) methods (Some parent))"

definition set_slot :: "handle_table \<Rightarrow> nat \<Rightarrow> handle_slot \<Rightarrow> handle_table" where
  "set_slot t i s = t[i := (t ! i)\<lparr>h_slot := s\<rparr>]"

definition occupied :: "handle_table \<Rightarrow> nat" where
  "occupied t = length (filter (\<lambda>h. hs_state (h_slot h) \<noteq> Vacant) t)"

lemma length_set_slot [simp]: "length (set_slot t i s) = length t"
  by (simp add: set_slot_def)

lemma length_filter_update:
  assumes "i < length xs"
  shows "length (filter P (xs[i := y])) + (if P (xs ! i) then 1 else 0) =
    length (filter P xs) + (if P y then 1 else 0)"
  using assms
proof (induction xs arbitrary: i)
  case (Cons x xs)
  then show ?case by (cases i) auto
qed simp

lemma occupied_set_slot:
  assumes "i < length t"
  shows "occupied (set_slot t i s) + (if hs_state (h_slot (t ! i)) \<noteq> Vacant then 1 else 0) =
    occupied t + (if hs_state s \<noteq> Vacant then 1 else 0)"
  using length_filter_update [OF assms, of "\<lambda>h. hs_state (h_slot h) \<noteq> Vacant"]
  by (simp add: occupied_def set_slot_def)

lemma detach_child_change:
  assumes "detach_child s g = (ch, s')"
  shows "(\<exists>p. ch = Reclaimed p \<and> hs_state s = Released \<and> hs_state s' = Vacant) \<or>
    ((ch = Retained \<or> ch = Unchanged) \<and> hs_state s' = hs_state s)"
  using assms
  by (auto simp: detach_child_def slot_reclaim_def slot_retains_def Let_def split: if_splits)

text \<open>
  The loop of \<open>reclaim_ancestors\<close>. It stops because each round that continues has vacated one
  more slot.
\<close>

function reclaim_ancestors :: "handle_table \<Rightarrow> slot_change \<Rightarrow> handle_table" where
  "reclaim_ancestors t change =
     (case change of
        Reclaimed (Some p) \<Rightarrow>
          if length t \<le> hk_slot p then t
          else let (change', s) = detach_child (h_slot (t ! hk_slot p)) (hk_generation p)
               in reclaim_ancestors (set_slot t (hk_slot p) s) change'
      | _ \<Rightarrow> t)"
  by pat_completeness auto
termination
proof (relation "measure (\<lambda>(t, change). 2 * occupied t +
    (case change of Reclaimed _ \<Rightarrow> 1 | _ \<Rightarrow> 0))", goal_cases)
  case (2 t change x3 p x change' s)
  then have "detach_child (h_slot (t ! hk_slot p)) (hk_generation p) = (change', s)"
    "hk_slot p < length t"
    by auto
  then show ?case
    using detach_child_change [of "h_slot (t ! hk_slot p)" "hk_generation p" change' s]
      occupied_set_slot [of "hk_slot p" t s] 2
    by auto
qed simp

declare reclaim_ancestors.simps [simp del]

definition release ::
  "handle_table \<Rightarrow> handle_key \<Rightarrow> u64 \<Rightarrow> (unit, authority_error) result \<times> handle_table" where
  "release t k owner =
     (case table_local t k owner of
        Err e \<Rightarrow> (Err e, t)
      | Ok h \<Rightarrow>
          let (change, s) = slot_release (h_slot h) (hk_generation k);
              t' = set_slot t (hk_slot k) s
          in if change = Unchanged then (Err Stale, t')
             else (Ok (), reclaim_ancestors t' change))"

definition revoke ::
  "handle_table \<Rightarrow> handle_key \<Rightarrow> u64 \<Rightarrow> (unit, authority_error) result \<times> handle_table" where
  "revoke t k owner =
     (case table_local t k owner of
        Err e \<Rightarrow> (Err e, t)
      | Ok h \<Rightarrow>
          let (change, s) = slot_revoke (h_slot h) (hk_generation k)
          in (Ok (), reclaim_ancestors (set_slot t (hk_slot k) s) change))"

end
