(* ===== verification/Authority_Invariant.thy ===== *)
theory Authority_Invariant
  imports Authority
begin

unbundle bit_operations_syntax

text \<open>
  The invariant of handle tables and what the four table operations do to authority: exact
  descriptions of \<open>authorize\<close> after \<open>install\<close>, \<open>derive\<close>, \<open>release\<close> and \<open>revoke\<close>, attenuation
  along delegation chains, and that a dead key never comes back to life.
\<close>

section \<open>Delegation chains\<close>

definition slot_at :: "handle_table \<Rightarrow> nat \<Rightarrow> handle_slot" where
  "slot_at t i = h_slot (t ! i)"

definition key_at :: "handle_table \<Rightarrow> nat \<Rightarrow> handle_key" where
  "key_at t i = \<lparr>hk_slot = i, hk_generation = hs_generation (slot_at t i)\<rparr>"

definition live :: "handle_table \<Rightarrow> handle_key \<Rightarrow> bool" where
  "live t k \<longleftrightarrow> hk_slot k < length t \<and> slot_retains (slot_at t (hk_slot k)) (hk_generation k)"

definition kids :: "handle_table \<Rightarrow> handle_key \<Rightarrow> nat set" where
  "kids t k = {j. j < length t \<and> hs_parent (slot_at t j) = Some k}"

definition edges :: "handle_table \<Rightarrow> (nat \<times> nat) set" where
  "edges t = {(hk_slot k, i) | i k. i < length t \<and> hs_parent (slot_at t i) = Some k \<and> live t k}"

text \<open>\<open>chain t p ks\<close>: the ancestors named by \<open>p\<close> and its parents are \<open>ks\<close>, all still retained.\<close>

primrec chain :: "handle_table \<Rightarrow> handle_key option \<Rightarrow> handle_key list \<Rightarrow> bool" where
  "chain t p [] \<longleftrightarrow> p = None"
| "chain t p (k # ks) \<longleftrightarrow> p = Some k \<and> live t k \<and> chain t (hs_parent (slot_at t (hk_slot k))) ks"

definition valid :: "handle_table \<Rightarrow> handle_key \<Rightarrow> handle_key list \<Rightarrow> bool" where
  "valid t k ks \<longleftrightarrow>
     hk_slot k < length t \<and> slot_matches (slot_at t (hk_slot k)) (hk_generation k) \<and>
     chain t (hs_parent (slot_at t (hk_slot k))) ks"

text \<open>\<open>under t d k\<close>: \<open>d\<close> is \<open>k\<close> or was delegated, directly or not, from \<open>k\<close>.\<close>

definition under :: "handle_table \<Rightarrow> handle_key \<Rightarrow> handle_key \<Rightarrow> bool" where
  "under t d k \<longleftrightarrow> d = k \<or> (\<exists>ks. valid t d ks \<and> k \<in> set ks)"

definition slot_ok :: "handle_table \<Rightarrow> handle_key option \<Rightarrow> nat \<Rightarrow> bool" where
  "slot_ok t pending i \<longleftrightarrow>
     (let s = slot_at t i in
        hs_generation s \<le> u64_max \<and>
        (hs_state s = Vacant \<longrightarrow> hs_parent s = None \<and> hs_children s = 0) \<and>
        (hs_state s \<noteq> Vacant \<longrightarrow> 1 \<le> hs_generation s \<and>
           hs_children s = card (kids t (key_at t i)) +
             (if pending = Some (key_at t i) then 1 else 0)) \<and>
        (hs_state s = Released \<longrightarrow> 0 < hs_children s))"

definition parent_ok :: "handle_table \<Rightarrow> nat \<Rightarrow> handle_key \<Rightarrow> bool" where
  "parent_ok t i k \<longleftrightarrow>
     hk_slot k < length t \<and> hk_generation k \<le> hs_generation (slot_at t (hk_slot k)) \<and>
     (live t k \<longrightarrow> h_methods (t ! i) AND NOT (h_methods (t ! hk_slot k)) = 0 \<and>
        h_resource (t ! i) = h_resource (t ! hk_slot k))"

text \<open>
  The invariant. \<open>pending\<close> is the parent whose child count still includes a child that has just
  been reclaimed, between two rounds of \<open>reclaim_ancestors\<close>; it is \<open>None\<close> between operations.
\<close>

definition table_inv :: "handle_table \<Rightarrow> handle_key option \<Rightarrow> bool" where
  "table_inv t pending \<longleftrightarrow>
     (\<forall>i < length t. slot_ok t pending i) \<and>
     (\<forall>i < length t. \<forall>k. hs_parent (slot_at t i) = Some k \<longrightarrow> parent_ok t i k) \<and>
     acyclic (edges t)"

lemma chain_unique: "chain t p ks \<Longrightarrow> chain t p ks' \<Longrightarrow> ks = ks'"
proof (induction ks arbitrary: p ks')
  case Nil
  then show ?case by (cases ks') auto
next
  case (Cons k ks)
  then show ?case by (cases ks') auto
qed

lemma chain_live: "chain t p ks \<Longrightarrow> k \<in> set ks \<Longrightarrow> live t k"
  by (induction ks arbitrary: p) auto

lemma chain_edges:
  assumes "chain t p ks" "p = Some k" "k' \<in> set ks"
  shows "(hk_slot k', hk_slot k) \<in> (edges t)\<^sup>*"
  using assms
proof (induction ks arbitrary: p k)
  case (Cons k0 ks)
  then have [simp]: "k0 = k" by simp
  show ?case
  proof (cases "k' = k")
    case False
    with Cons.prems obtain k1 where k1: "hs_parent (slot_at t (hk_slot k)) = Some k1"
      "chain t (Some k1) ks" "k' \<in> set ks" "live t k1" "live t k"
      by (cases ks) auto
    then have "(hk_slot k1, hk_slot k) \<in> edges t"
      by (auto simp: edges_def live_def)
    with Cons.IH [OF k1(2) refl k1(3)] show ?thesis by (rule rtrancl_into_rtrancl)
  qed simp
qed simp

lemma chain_distinct:
  assumes "acyclic (edges t)" "chain t p ks"
  shows "distinct (map hk_slot ks)"
  using assms(2)
proof (induction ks arbitrary: p)
  case (Cons k ks)
  have "hk_slot k \<notin> hk_slot ` set ks"
  proof
    assume "hk_slot k \<in> hk_slot ` set ks"
    then obtain k' where k': "k' \<in> set ks" "hk_slot k' = hk_slot k" by auto
    with Cons.prems obtain k1 where k1: "hs_parent (slot_at t (hk_slot k)) = Some k1"
      "chain t (Some k1) ks" "live t k1" "live t k"
      by (cases ks) auto
    then have "(hk_slot k1, hk_slot k) \<in> edges t" by (auto simp: edges_def live_def)
    with chain_edges [OF k1(2) refl k'(1)] k'(2) have "(hk_slot k, hk_slot k) \<in> (edges t)\<^sup>+"
      by (simp add: rtrancl_into_trancl1)
    with assms(1) show False by (simp add: acyclic_def)
  qed
  with Cons show ?case by auto
qed simp

lemma chain_length:
  assumes "acyclic (edges t)" "chain t p ks"
  shows "length ks \<le> length t"
proof -
  have "set (map hk_slot ks) \<subseteq> {..<length t}"
    using chain_live [OF assms(2)] by (auto simp: live_def)
  then have "card (set (map hk_slot ks)) \<le> length t"
    by (metis card_lessThan card_mono finite_lessThan)
  then show ?thesis using distinct_card [OF chain_distinct [OF assms]] by simp
qed

lemma validate_ancestors_iff:
  "validate_ancestors (table_lookup t) n p = Ok () \<longleftrightarrow> (\<exists>ks. chain t p ks \<and> length ks \<le> n)"
proof (induction n arbitrary: p)
  case 0
  show ?case by (cases p) auto
next
  case (Suc n)
  show ?case
  proof (cases p)
    case None
    then show ?thesis by (auto intro: exI [of _ "[]"])
  next
    case (Some k)
    have "validate_ancestors (table_lookup t) (Suc n) p = Ok () \<longleftrightarrow>
        live t k \<and> validate_ancestors (table_lookup t) n (hs_parent (slot_at t (hk_slot k))) = Ok ()"
      using Some by (auto simp: table_lookup_def live_def slot_at_def split: option.splits if_splits)
    also have "\<dots> \<longleftrightarrow> (\<exists>ks. chain t p ks \<and> length ks \<le> Suc n)"
    proof
      assume "live t k \<and> validate_ancestors (table_lookup t) n (hs_parent (slot_at t (hk_slot k))) = Ok ()"
      then obtain ks where "live t k" "chain t (hs_parent (slot_at t (hk_slot k))) ks" "length ks \<le> n"
        using Suc.IH by auto
      with Some have "chain t p (k # ks) \<and> length (k # ks) \<le> Suc n" by simp
      then show "\<exists>ks. chain t p ks \<and> length ks \<le> Suc n" by blast
    next
      assume "\<exists>ks. chain t p ks \<and> length ks \<le> Suc n"
      then obtain ks where ks: "chain t p ks" "length ks \<le> Suc n" by blast
      with Some obtain ks' where "ks = k # ks'" by (cases ks) auto
      with ks Suc.IH show "live t k \<and>
          validate_ancestors (table_lookup t) n (hs_parent (slot_at t (hk_slot k))) = Ok ()"
        by auto
    qed
    finally show ?thesis .
  qed
qed

lemma validate_ancestors_Err: "validate_ancestors lookup n p \<noteq> Ok () \<Longrightarrow>
    validate_ancestors lookup n p = Err Stale"
  by (induction lookup n p rule: validate_ancestors.induct) (auto split: option.splits if_splits)

text \<open>On a table that satisfies the invariant the walk's bound never rejects a live chain.\<close>

lemma table_get_eq:
  assumes "acyclic (edges t)"
  shows "table_get t k owner =
    (if \<not> (\<exists>ks. valid t k ks) then Err Stale
     else if h_owner (t ! hk_slot k) \<noteq> owner then Err Owner else Ok (t ! hk_slot k))"
proof (cases "hk_slot k < length t \<and> slot_matches (slot_at t (hk_slot k)) (hk_generation k)")
  case False
  then show ?thesis
    by (auto simp: table_get_def valid_def slot_validate_def slot_at_def ok_or_def get_def)
next
  case True
  let ?v = "validate_ancestors (table_lookup t) (length t) (hs_parent (slot_at t (hk_slot k)))"
  have get: "table_get t k owner =
      bind_result ?v (\<lambda>_. if h_owner (t ! hk_slot k) \<noteq> owner then Err Owner else Ok (t ! hk_slot k))"
    using True by (simp add: table_get_def slot_validate_def slot_at_def get_def)
  have "(\<exists>ks. valid t k ks) \<longleftrightarrow> ?v = Ok ()"
    using True chain_length [OF assms] by (auto simp: valid_def validate_ancestors_iff)
  then show ?thesis
    using validate_ancestors_Err [of "table_lookup t"] by (cases "?v = Ok ()") (auto simp: get)
qed

section \<open>Vacating slots keeps the invariant\<close>

definition vacated :: "handle_slot \<Rightarrow> handle_slot" where
  "vacated s = s\<lparr>hs_state := Vacant, hs_children := 0, hs_parent := None\<rparr>"

lemma slot_at_set_slot:
  "i < length t \<Longrightarrow> slot_at (set_slot t i s) j = (if j = i then s else slot_at t j)"
  by (simp add: slot_at_def set_slot_def)

lemma fields_set_slot [simp]:
  "h_owner (set_slot t i s ! j) = h_owner (t ! j)"
  "h_resource (set_slot t i s ! j) = h_resource (t ! j)"
  "h_methods (set_slot t i s ! j) = h_methods (t ! j)"
  by (cases "i < length t"; cases "j = i"; simp add: set_slot_def list_update_beyond)+

lemma finite_kids [simp]: "finite (kids t k)"
  by (simp add: kids_def)

lemma table_invD:
  assumes "table_inv t pending"
  shows "i < length t \<Longrightarrow> slot_ok t pending i"
    and "i < length t \<Longrightarrow> hs_parent (slot_at t i) = Some k \<Longrightarrow> parent_ok t i k"
    and "acyclic (edges t)"
  using assms by (auto simp: table_inv_def)

definition vacate :: "handle_table \<Rightarrow> nat \<Rightarrow> handle_table" where
  "vacate t i = set_slot t i (vacated (slot_at t i))"

lemma length_vacate [simp]: "length (vacate t i) = length t"
  by (simp add: vacate_def)

lemma vacate_fields [simp]:
  "h_owner (vacate t i ! j) = h_owner (t ! j)"
  "h_resource (vacate t i ! j) = h_resource (t ! j)"
  "h_methods (vacate t i ! j) = h_methods (t ! j)"
  by (simp_all add: vacate_def)

lemma slot_at_vacate:
  "i < length t \<Longrightarrow> slot_at (vacate t i) j = (if j = i then vacated (slot_at t i) else slot_at t j)"
  by (simp add: vacate_def slot_at_set_slot)

lemma key_at_vacate [simp]: "i < length t \<Longrightarrow> key_at (vacate t i) j = key_at t j"
  by (simp add: key_at_def slot_at_vacate vacated_def)

lemma live_vacate: "i < length t \<Longrightarrow> live (vacate t i) k \<longleftrightarrow> live t k \<and> hk_slot k \<noteq> i"
  by (auto simp: live_def slot_at_vacate vacated_def slot_retains_def)

lemma kids_vacate: "i < length t \<Longrightarrow> kids (vacate t i) k = kids t k - {i}"
  by (auto simp: kids_def slot_at_vacate vacated_def)

lemma edges_vacate: "i < length t \<Longrightarrow> edges (vacate t i) \<subseteq> edges t"
  by (auto simp: edges_def slot_at_vacate live_vacate vacated_def split: if_splits)

lemma vacate_inv:
  assumes inv: "table_inv t pending" and i: "i < length t"
    and occ: "hs_state (slot_at t i) \<noteq> Vacant"
    and pending: "pending = None \<or> pending = Some (key_at t i)"
  shows "table_inv (vacate t i) (hs_parent (slot_at t i))"
  unfolding table_inv_def
proof (intro conjI allI impI)
  fix j assume j: "j < length (vacate t i)"
  then have ok: "slot_ok t pending j" using table_invD(1) [OF inv] by simp
  show "slot_ok (vacate t i) (hs_parent (slot_at t i)) j"
  proof (cases "j = i")
    case True
    with ok show ?thesis
      by (auto simp: slot_ok_def Let_def slot_at_vacate i vacated_def)
  next
    case False
    have "hs_state (slot_at t j) \<noteq> Vacant \<Longrightarrow>
        hs_children (slot_at t j) = card (kids t (key_at t j))"
      using ok pending False by (auto simp: slot_ok_def Let_def key_at_def)
    moreover have "card (kids t (key_at t j)) = card (kids t (key_at t j) - {i}) +
        (if hs_parent (slot_at t i) = Some (key_at t j) then 1 else 0)"
      using i card_Suc_Diff1 [of "kids t (key_at t j)" i] by (auto simp: kids_def)
    ultimately show ?thesis
      using ok False by (auto simp: slot_ok_def Let_def slot_at_vacate i kids_vacate)
  qed
next
  fix j k assume "j < length (vacate t i)" "hs_parent (slot_at (vacate t i) j) = Some k"
  then have "j \<noteq> i" "j < length t" "hs_parent (slot_at t j) = Some k"
    by (auto simp: slot_at_vacate i vacated_def split: if_splits)
  then show "parent_ok (vacate t i) j k"
    using table_invD(2) [OF inv]
    by (auto simp: parent_ok_def live_vacate i slot_at_vacate vacated_def)
next
  show "acyclic (edges (vacate t i))"
    using acyclic_subset [OF table_invD(3) [OF inv] edges_vacate [OF i]] .
qed

text \<open>Vacating a slot cuts exactly the chains through it.\<close>

lemma chain_vacate:
  assumes "i < length t"
  shows "chain (vacate t i) p ks \<longleftrightarrow> chain t p ks \<and> i \<notin> hk_slot ` set ks"
proof (induction ks arbitrary: p)
  case (Cons k ks)
  show ?case
  proof (cases "p = Some k \<and> hk_slot k \<noteq> i")
    case True
    with Cons.IH assms show ?thesis by (auto simp: live_vacate slot_at_vacate)
  next
    case False
    then show ?thesis using assms by (auto simp: live_vacate)
  qed
qed simp

lemma valid_vacate:
  assumes "i < length t"
  shows "valid (vacate t i) d ks \<longleftrightarrow> valid t d ks \<and> hk_slot d \<noteq> i \<and> i \<notin> hk_slot ` set ks"
  using assms
  by (auto simp: valid_def chain_vacate slot_at_vacate vacated_def slot_matches_def split: if_splits)

section \<open>Reclaiming ancestors\<close>

definition decremented :: "handle_table \<Rightarrow> nat \<Rightarrow> handle_table" where
  "decremented t i = set_slot t i ((slot_at t i)\<lparr>hs_children := hs_children (slot_at t i) - 1\<rparr>)"

text \<open>
  One round of the loop on a table with a pending parent: the parent is gone, or it loses a
  child, or it was released and that child was its last.
\<close>

lemma reclaim_ancestors_None [simp]:
  "reclaim_ancestors t (Reclaimed None) = t"
  "reclaim_ancestors t Unchanged = t"
  "reclaim_ancestors t Retained = t"
  by (simp_all add: reclaim_ancestors.simps)

lemma reclaim_ancestors_step:
  assumes inv: "table_inv t (Some p)"
  shows "(\<not> live t p \<and> reclaim_ancestors t (Reclaimed (Some p)) = t) \<or>
    (live t p \<and> (hs_state (slot_at t (hk_slot p)) = Active \<or> hs_children (slot_at t (hk_slot p)) > 1) \<and>
       reclaim_ancestors t (Reclaimed (Some p)) = decremented t (hk_slot p)) \<or>
    (live t p \<and> hs_state (slot_at t (hk_slot p)) = Released \<and> kids t p = {} \<and>
       reclaim_ancestors t (Reclaimed (Some p)) =
         reclaim_ancestors (vacate t (hk_slot p)) (Reclaimed (hs_parent (slot_at t (hk_slot p)))))"
proof (cases "live t p")
  case False
  then show ?thesis
    by (auto simp: reclaim_ancestors.simps [of t] live_def detach_child_def slot_at_def set_slot_def)
next
  case True
  let ?i = "hk_slot p" and ?s = "slot_at t (hk_slot p)"
  have i: "?i < length t" and ret: "slot_retains ?s (hk_generation p)" using True by (auto simp: live_def)
  have key: "key_at t ?i = p" using ret by (cases p) (simp add: key_at_def slot_retains_def)
  have n: "hs_children ?s = Suc (card (kids t p))"
    using table_invD(1) [OF inv i] ret by (auto simp: slot_ok_def Let_def key slot_retains_def)
  have unfold: "reclaim_ancestors t (Reclaimed (Some p)) =
      (case detach_child ?s (hk_generation p) of (c, s) \<Rightarrow> reclaim_ancestors (set_slot t ?i s) c)"
    using i by (subst reclaim_ancestors.simps) (simp add: slot_at_def)
  show ?thesis
  proof (cases "hs_state ?s = Released \<and> hs_children ?s = 1")
    case True
    then have "detach_child ?s (hk_generation p) = (Reclaimed (hs_parent ?s), vacated ?s)"
      using ret by (simp add: detach_child_def slot_reclaim_def vacated_def)
    with True \<open>live t p\<close> n show ?thesis by (simp add: unfold vacate_def)
  next
    case False
    then have "detach_child ?s (hk_generation p) =
        (Retained, ?s\<lparr>hs_children := hs_children ?s - 1\<rparr>)"
      using ret n by (auto simp: detach_child_def Let_def)
    moreover have "hs_state ?s = Active \<or> hs_children ?s > 1"
      using False n ret by (cases "hs_state ?s") (auto simp: slot_retains_def)
    ultimately show ?thesis using \<open>live t p\<close> by (simp add: unfold decremented_def)
  qed
qed

lemma decremented_slot_at:
  "i < length t \<Longrightarrow> slot_at (decremented t i) j =
     (if j = i then (slot_at t i)\<lparr>hs_children := hs_children (slot_at t i) - 1\<rparr> else slot_at t j)"
  by (simp add: decremented_def slot_at_set_slot)

lemma decremented_structure:
  assumes "i < length t"
  shows "length (decremented t i) = length t" "key_at (decremented t i) = key_at t"
    "live (decremented t i) = live t" "kids (decremented t i) = kids t"
    "edges (decremented t i) = edges t" "chain (decremented t i) = chain t"
    "valid (decremented t i) = valid t"
proof -
  have s: "hs_parent (slot_at (decremented t i) j) = hs_parent (slot_at t j)"
    "hs_state (slot_at (decremented t i) j) = hs_state (slot_at t j)"
    "hs_generation (slot_at (decremented t i) j) = hs_generation (slot_at t j)" for j
    using assms by (auto simp: decremented_slot_at)
  show len: "length (decremented t i) = length t" by (simp add: decremented_def)
  show key: "key_at (decremented t i) = key_at t" by (auto simp: key_at_def s)
  show live: "live (decremented t i) = live t"
    by (auto simp: live_def fun_eq_iff slot_retains_def s len)
  show "kids (decremented t i) = kids t" by (auto simp: kids_def fun_eq_iff s len)
  show "edges (decremented t i) = edges t" by (auto simp: edges_def s len live)
  have chain: "chain (decremented t i) p ks = chain t p ks" for p ks
    by (induction ks arbitrary: p) (auto simp: s live)
  then show "chain (decremented t i) = chain t" by (simp add: fun_eq_iff)
  show "valid (decremented t i) = valid t"
    by (auto simp: valid_def fun_eq_iff slot_matches_def s len chain)
qed

lemma decremented_inv:
  assumes inv: "table_inv t (Some p)" and live: "live t p"
    and many: "hs_state (slot_at t (hk_slot p)) = Active \<or> hs_children (slot_at t (hk_slot p)) > 1"
  shows "table_inv (decremented t (hk_slot p)) None"
proof -
  let ?i = "hk_slot p"
  have i: "?i < length t" using live by (simp add: live_def)
  have key: "key_at t ?i = p"
    using live by (cases p) (simp add: key_at_def slot_retains_def live_def)
  note st = decremented_structure [OF i]
  have "slot_ok (decremented t ?i) None j" if "j < length t" for j
    using table_invD(1) [OF inv that] many live that
    by (auto simp: slot_ok_def Let_def st decremented_slot_at [OF i] key live_def slot_retains_def
        key_at_def)
  moreover have "parent_ok (decremented t ?i) j k"
    if "j < length t" "hs_parent (slot_at t j) = Some k" for j k
    using table_invD(2) [OF inv that]
    by (auto simp: parent_ok_def st decremented_slot_at [OF i])
      (auto simp: decremented_def)
  ultimately show ?thesis
    using table_invD(3) [OF inv] i
    by (auto simp: table_inv_def st decremented_slot_at [OF i] split: if_splits)
qed

text \<open>What every release and revocation keeps: owners, resources, methods and generations.\<close>

definition same_rights :: "handle_table \<Rightarrow> handle_table \<Rightarrow> bool" where
  "same_rights t t' \<longleftrightarrow>
     length t' = length t \<and>
     (\<forall>j < length t. h_owner (t' ! j) = h_owner (t ! j) \<and> h_resource (t' ! j) = h_resource (t ! j) \<and>
        h_methods (t' ! j) = h_methods (t ! j) \<and>
        hs_generation (slot_at t' j) = hs_generation (slot_at t j))"

lemma same_rights_refl [simp]: "same_rights t t"
  by (simp add: same_rights_def)

lemma same_rights_trans: "same_rights t u \<Longrightarrow> same_rights u v \<Longrightarrow> same_rights t v"
  by (auto simp: same_rights_def)

lemma same_rights_vacate: "i < length t \<Longrightarrow> same_rights t (vacate t i)"
  by (auto simp: same_rights_def slot_at_vacate vacated_def)

lemma same_rights_decremented: "i < length t \<Longrightarrow> same_rights t (decremented t i)"
  by (auto simp: same_rights_def decremented_slot_at) (auto simp: decremented_def)

lemma live_key_at: "live t k \<Longrightarrow> key_at t (hk_slot k) = k"
  by (cases k) (simp add: key_at_def live_def slot_retains_def)

lemma chain_kid:
  assumes "chain t p ks" "k \<in> set ks"
  shows "p = Some k \<or> kids t k \<noteq> {}"
  using assms
proof (induction ks arbitrary: p)
  case (Cons k0 ks)
  show ?case
  proof (cases "k = k0")
    case False
    with Cons.prems Cons.IH have "hs_parent (slot_at t (hk_slot k0)) = Some k \<or> kids t k \<noteq> {}"
      by auto
    moreover have "hk_slot k0 < length t" using Cons.prems by (simp add: live_def)
    ultimately show ?thesis by (auto simp: kids_def)
  qed (use Cons.prems in simp)
qed simp

lemma valid_kid: "valid t d ks \<Longrightarrow> k \<in> set ks \<Longrightarrow> kids t k \<noteq> {}"
  using chain_kid [of t "hs_parent (slot_at t (hk_slot d))" ks k]
  by (auto simp: valid_def kids_def)

lemma valid_vacate_released:
  assumes "live t p" "hs_state (slot_at t (hk_slot p)) = Released" "kids t p = {}"
  shows "valid (vacate t (hk_slot p)) d ks \<longleftrightarrow> valid t d ks"
proof -
  have "hk_slot p \<notin> hk_slot ` set ks" if "valid t d ks"
  proof
    assume "hk_slot p \<in> hk_slot ` set ks"
    then obtain k where k: "k \<in> set ks" "hk_slot k = hk_slot p" by auto
    then have "live t k" using that chain_live by (auto simp: valid_def)
    then have "k = p" using live_key_at assms(1) k(2) by metis
    with valid_kid [OF that k(1)] assms(3) show False by simp
  qed
  moreover have "hk_slot d \<noteq> hk_slot p" if "valid t d ks"
    using that assms(2) by (auto simp: valid_def slot_matches_def)
  ultimately show ?thesis
    using assms(1) by (auto simp: valid_vacate live_def)
qed

lemma reclaim_ancestors_keeps:
  assumes "table_inv t p"
  shows "table_inv (reclaim_ancestors t (Reclaimed p)) None"
    "valid (reclaim_ancestors t (Reclaimed p)) = valid t"
    "same_rights t (reclaim_ancestors t (Reclaimed p))"
proof -
  have "table_inv (reclaim_ancestors t (Reclaimed p)) None \<and>
      valid (reclaim_ancestors t (Reclaimed p)) = valid t \<and>
      same_rights t (reclaim_ancestors t (Reclaimed p))"
    using assms
  proof (induction "occupied t" arbitrary: t p rule: less_induct)
    case less
    show ?case
    proof (cases p)
      case None
      with less.prems show ?thesis by simp
    next
      case (Some k)
      let ?i = "hk_slot k"
      consider (gone) "\<not> live t k" "reclaim_ancestors t (Reclaimed (Some k)) = t"
        | (kept) "live t k" "hs_state (slot_at t ?i) = Active \<or> hs_children (slot_at t ?i) > 1"
            "reclaim_ancestors t (Reclaimed (Some k)) = decremented t ?i"
        | (last) "live t k" "hs_state (slot_at t ?i) = Released" "kids t k = {}"
            "reclaim_ancestors t (Reclaimed (Some k)) =
               reclaim_ancestors (vacate t ?i) (Reclaimed (hs_parent (slot_at t ?i)))"
        using reclaim_ancestors_step [of t k] less.prems Some by blast
      then show ?thesis
      proof cases
        case gone
        have "table_inv t None"
          unfolding table_inv_def
        proof (intro conjI allI impI)
          fix j assume j: "j < length t"
          have "hs_state (slot_at t j) \<noteq> Vacant \<Longrightarrow> Some k \<noteq> Some (key_at t j)"
            using gone(1) j by (auto simp: live_def key_at_def slot_retains_def)
          then show "slot_ok t None j"
            using table_invD(1) [OF less.prems j] Some by (auto simp: slot_ok_def Let_def)
        qed (use less.prems table_invD in blast)+
        with gone Some show ?thesis by simp
      next
        case kept
        then have i: "?i < length t" by (simp add: live_def)
        show ?thesis
          using kept Some decremented_inv [of t k] less.prems decremented_structure [OF i]
            same_rights_decremented [OF i] by simp
      next
        case last
        then have i: "?i < length t" by (simp add: live_def)
        have inv: "table_inv (vacate t ?i) (hs_parent (slot_at t ?i))"
          using vacate_inv [OF less.prems i] last Some live_key_at [of t k] by auto
        have "occupied (vacate t ?i) < occupied t"
          using occupied_set_slot [OF i, of "vacated (slot_at t ?i)"] last
          by (simp add: vacate_def vacated_def slot_at_def)
        from less.hyps [OF this inv] last Some show ?thesis
          using valid_vacate_released [of t k] same_rights_vacate [OF i]
          by (auto simp: fun_eq_iff intro: same_rights_trans)
      qed
    qed
  qed
  then show "table_inv (reclaim_ancestors t (Reclaimed p)) None"
    "valid (reclaim_ancestors t (Reclaimed p)) = valid t"
    "same_rights t (reclaim_ancestors t (Reclaimed p))" by auto
qed

section \<open>Authorization as a function of the valid keys\<close>

lemma word_and_not_zero:
  "(a :: 64 word) AND NOT b = 0 \<longleftrightarrow> (\<forall>m < 64. bit a m \<longrightarrow> bit b m)"
  by (auto simp: bit_eq_iff bit_simps)

lemma authorize_eq:
  assumes "acyclic (edges t)"
  shows "authorize t k owner m =
    (if \<not> (\<exists>ks. valid t k ks) then Err Stale
     else if h_owner (t ! hk_slot k) \<noteq> owner then Err Owner
     else if m < 64 \<and> bit (h_methods (t ! hk_slot k)) m then Ok (h_resource (t ! hk_slot k))
     else Err Rights)"
  by (auto simp: authorize_def table_get_eq [OF assms] checked_shl_1_def
      and_exp_eq_0_iff_not_bit)

lemma authorize_cong:
  assumes "acyclic (edges t)" "acyclic (edges t')" "same_rights t t'"
    and "(\<exists>ks. valid t' d ks) \<longleftrightarrow> (\<exists>ks. valid t d ks)"
  shows "authorize t' d owner m = authorize t d owner m"
  using assms by (auto simp: authorize_eq same_rights_def valid_def)

section \<open>Release and revocation\<close>

lemma table_local_Ok:
  "table_local t k owner = Ok h \<longleftrightarrow> live t k \<and> h_owner (t ! hk_slot k) = owner \<and> h = t ! hk_slot k"
  by (auto simp: table_local_def live_def slot_at_def split: if_splits)

lemma revoke_Ok:
  assumes "revoke t k owner = (Ok (), t')"
  shows "live t k" "t' = reclaim_ancestors (vacate t (hk_slot k))
    (Reclaimed (hs_parent (slot_at t (hk_slot k))))"
  using assms
  by (auto simp: revoke_def table_local_Ok Let_def slot_revoke_def slot_reclaim_def live_def
      slot_at_def vacate_def vacated_def split: result.splits)

text \<open>Vacating a live key and reclaiming upwards revokes the key and what was delegated from it.\<close>

lemma vacate_authorize:
  assumes inv: "table_inv t None" and live: "live t k"
    and t': "t' = reclaim_ancestors (vacate t (hk_slot k))
      (Reclaimed (hs_parent (slot_at t (hk_slot k))))"
  shows "table_inv t' None" "same_rights t t'"
    "authorize t' d o' m = (if under t d k then Err Stale else authorize t d o' m)"
proof -
  let ?i = "hk_slot k" and ?u = "vacate t (hk_slot k)"
  have i: "?i < length t" using live by (simp add: live_def)
  have u: "table_inv ?u (hs_parent (slot_at t ?i))"
    using vacate_inv [OF inv i] live by (auto simp: live_def slot_retains_def)
  note keeps = reclaim_ancestors_keeps [OF u, folded t']
  show inv': "table_inv t' None" by (rule keeps(1))
  show rights: "same_rights t t'"
    using same_rights_trans [OF same_rights_vacate [OF i] keeps(3)] .
  have valid: "valid t' d ks \<longleftrightarrow> valid t d ks \<and> d \<noteq> k \<and> k \<notin> set ks" for ks
  proof -
    have "hk_slot d \<noteq> ?i \<longleftrightarrow> d \<noteq> k" if "valid t d ks"
      using that live by (cases d; cases k) (auto simp: valid_def live_def slot_matches_def slot_retains_def)
    moreover have "?i \<in> hk_slot ` set ks \<longleftrightarrow> k \<in> set ks" if "valid t d ks"
      using that live chain_live live_key_at by (metis (no_types, lifting) image_iff valid_def)
    ultimately show ?thesis by (auto simp: keeps(2) valid_vacate [OF i])
  qed
  show "authorize t' d o' m = (if under t d k then Err Stale else authorize t d o' m)"
  proof (cases "under t d k")
    case True
    then have "\<not> (\<exists>ks. valid t' d ks)"
      using valid chain_unique by (metis under_def valid_def)
    with True show ?thesis by (simp add: authorize_eq [OF table_invD(3) [OF inv']])
  next
    case False
    then have "(\<exists>ks. valid t' d ks) \<longleftrightarrow> (\<exists>ks. valid t d ks)"
      using valid by (auto simp: under_def)
    with False show ?thesis
      using authorize_cong [OF table_invD(3) [OF inv] table_invD(3) [OF inv'] rights] by simp
  qed
qed

lemma revoke_laws:
  assumes "table_inv t None" "revoke t k owner = (Ok (), t')"
  shows "table_inv t' None" "same_rights t t'"
    "authorize t' d o' m = (if under t d k then Err Stale else authorize t d o' m)"
  using vacate_authorize [OF assms(1) revoke_Ok [OF assms(2)]] by auto

lemma release_laws:
  assumes inv: "table_inv t None" and release: "release t k owner = (Ok (), t')"
  shows "table_inv t' None" "same_rights t t'"
    "authorize t' d o' m = (if d = k then Err Stale else authorize t d o' m)"
proof -
  let ?i = "hk_slot k" and ?s = "slot_at t (hk_slot k)"
  have live: "live t k" and matches: "slot_matches ?s (hk_generation k)"
    and t': "t' = (if hs_children ?s = 0
        then reclaim_ancestors (vacate t ?i) (Reclaimed (hs_parent ?s))
        else set_slot t ?i (?s\<lparr>hs_state := Released\<rparr>))"
    using release
    by (auto simp: release_def table_local_Ok Let_def slot_release_def slot_reclaim_def
        slot_at_def vacate_def vacated_def split: result.splits if_splits prod.splits)
  have i: "?i < length t" using live by (simp add: live_def)
  have kids: "hs_children ?s = card (kids t k)"
    using table_invD(1) [OF inv i] live live_key_at [OF live]
    by (auto simp: slot_ok_def Let_def live_def slot_retains_def)
  have "table_inv t' None \<and> same_rights t t' \<and>
      authorize t' d o' m = (if d = k then Err Stale else authorize t d o' m)"
  proof (cases "hs_children ?s = 0")
    case True
    then have "under t d k \<longleftrightarrow> d = k"
      using valid_kid [of t d _ k] kids by (auto simp: under_def)
    with vacate_authorize [OF inv live, of t'] True t' show ?thesis by auto
  next
    case False
    then have t': "t' = set_slot t ?i (?s\<lparr>hs_state := Released\<rparr>)" by (simp add: t')
    have s: "slot_at t' j = (if j = ?i then ?s\<lparr>hs_state := Released\<rparr> else slot_at t j)" for j
      using i by (simp add: t' slot_at_set_slot)
    have same: "length t' = length t" "hs_parent (slot_at t' j) = hs_parent (slot_at t j)"
      "hs_generation (slot_at t' j) = hs_generation (slot_at t j)" "key_at t' j = key_at t j"
      "kids t' q = kids t q" for j q
      by (simp_all add: s t' key_at_def kids_def)
        (auto simp: kids_def slot_at_set_slot i t')
    have lives: "live t' q \<longleftrightarrow> live t q" for q
      using live matches by (auto simp: live_def slot_retains_def s same slot_matches_def)
    have chain: "chain t' p ks \<longleftrightarrow> chain t p ks" for p ks
      by (induction ks arbitrary: p) (auto simp: lives same)
    have valid: "valid t' d ks \<longleftrightarrow> valid t d ks \<and> d \<noteq> k" for ks
      using matches by (cases d; cases k) (auto simp: valid_def chain same s slot_matches_def)
    have edges: "edges t' = edges t" by (auto simp: edges_def same lives)
    have "slot_ok t' None j" if "j < length t" for j
      using table_invD(1) [OF inv that] False matches
      by (auto simp: slot_ok_def Let_def same s slot_matches_def)
    moreover have "parent_ok t' j q" if "j < length t" "hs_parent (slot_at t j) = Some q" for j q
      using table_invD(2) [OF inv that] by (auto simp: parent_ok_def same lives) (auto simp: t')
    ultimately have inv': "table_inv t' None"
      using table_invD(3) [OF inv] by (auto simp: table_inv_def same edges)
    have rights: "same_rights t t'" by (auto simp: same_rights_def same) (auto simp: t')
    have "authorize t' d o' m = (if d = k then Err Stale else authorize t d o' m)"
      using authorize_cong [OF table_invD(3) [OF inv] table_invD(3) [OF inv'] rights, of d o' m]
        authorize_eq [OF table_invD(3) [OF inv'], of k o' m] valid
      by (cases "d = k") auto
    with inv' rights show ?thesis by blast
  qed
  then show "table_inv t' None" "same_rights t t'"
    "authorize t' d o' m = (if d = k then Err Stale else authorize t d o' m)" by auto
qed

section \<open>Installing and deriving\<close>

lemma find_reusable_Some:
  assumes "find_reusable t = Some i"
  shows "i < length t" "reusable (slot_at t i)"
proof -
  let ?f = "filter (\<lambda>i. reusable (h_slot (t ! i))) [0..<length t]"
  obtain rest where "?f = i # rest"
    using assms by (auto simp: find_reusable_def split: list.splits)
  then have "i \<in> set ?f" by (simp only: list.set_intros)
  then show "i < length t" "reusable (slot_at t i)" by (auto simp: slot_at_def)
qed

text \<open>The table after an admission: a fresh generation in a reusable slot, one more child of the parent.\<close>

definition admitted ::
  "handle_table \<Rightarrow> nat \<Rightarrow> u64 \<Rightarrow> u32 \<Rightarrow> 64 word \<Rightarrow> handle_key option \<Rightarrow> handle_table" where
  "admitted t i owner resource methods parent =
     store_handle
       (case parent of
          None \<Rightarrow> t
        | Some p \<Rightarrow> set_slot t (hk_slot p)
            ((slot_at t (hk_slot p))\<lparr>hs_children := hs_children (slot_at t (hk_slot p)) + 1\<rparr>))
       i ((slot_at t i)\<lparr>hs_generation := hs_generation (slot_at t i) + 1, hs_state := Active,
            hs_parent := parent\<rparr>)
       owner resource methods"

lemma install_with_parent_Return:
  assumes "install_with_parent t owner resource methods parent = (Return k, t')"
  obtains i where "i < length t" "reusable (slot_at t i)" "hk_slot k = i"
    "hk_generation k = hs_generation (slot_at t i) + 1"
    "t' = admitted t i owner resource methods parent"
proof -
  from assms obtain i where i: "find_reusable t = Some i"
    by (auto simp: install_with_parent_def split: option.splits)
  show ?thesis
    by (rule that [OF find_reusable_Some [OF i]])
      (use assms i in \<open>auto simp: install_with_parent_def slot_install_def attach_child_def
        admitted_def set_slot_def slot_at_def split: option.splits if_splits result.splits prod.splits\<close>)
qed

lemma admitted_slot_at:
  assumes "i < length t" "\<And>p. parent = Some p \<Longrightarrow> hk_slot p < length t \<and> hk_slot p \<noteq> i"
  shows "slot_at (admitted t i owner resource methods parent) j =
    (if j = i then (slot_at t i)\<lparr>hs_generation := hs_generation (slot_at t i) + 1,
        hs_state := Active, hs_parent := parent\<rparr>
     else if parent \<noteq> None \<and> j = hk_slot (the parent)
       then (slot_at t j)\<lparr>hs_children := hs_children (slot_at t j) + 1\<rparr>
     else slot_at t j)"
  using assms
  by (auto simp: admitted_def store_handle_def slot_at_def set_slot_def split: option.splits)

lemma admitted_fields:
  assumes "i < length t" "j < length t"
  shows "length (admitted t i owner resource methods parent) = length t"
    "h_owner (admitted t i owner resource methods parent ! j) = (if j = i then owner else h_owner (t ! j))"
    "h_resource (admitted t i owner resource methods parent ! j) =
       (if j = i then resource else h_resource (t ! j))"
    "h_methods (admitted t i owner resource methods parent ! j) =
       (if j = i then methods else h_methods (t ! j))"
  using assms by (auto simp: admitted_def store_handle_def split: option.splits)

lemma admitted_laws:
  assumes inv: "table_inv t None" and i: "i < length t" and free: "reusable (slot_at t i)"
    and k: "k = \<lparr>hk_slot = i, hk_generation = hs_generation (slot_at t i) + 1\<rparr>"
    and parent: "\<And>p. parent = Some p \<Longrightarrow> live t p \<and>
      methods AND NOT (h_methods (t ! hk_slot p)) = 0 \<and> resource = h_resource (t ! hk_slot p)"
    and t': "t' = admitted t i owner resource methods parent"
  shows "table_inv t' None"
    "valid t' d ks \<longleftrightarrow> (if d = k then chain t parent ks else valid t d ks)"
    "\<not> valid t k ks"
proof -
  have vac: "hs_state (slot_at t i) = Vacant" "hs_generation (slot_at t i) < u64_max"
    using free by (auto simp: reusable_def)
  have pi: "hk_slot p < length t \<and> hk_slot p \<noteq> i" if "parent = Some p" for p
    using parent [OF that] vac by (auto simp: live_def slot_retains_def)
  have s: "slot_at t' j =
    (if j = i then (slot_at t i)\<lparr>hs_generation := hs_generation (slot_at t i) + 1,
        hs_state := Active, hs_parent := parent\<rparr>
     else if parent \<noteq> None \<and> j = hk_slot (the parent)
       then (slot_at t j)\<lparr>hs_children := hs_children (slot_at t j) + 1\<rparr>
     else slot_at t j)" for j
    unfolding t' by (rule admitted_slot_at [OF i pi])
  note f = admitted_fields [OF i, where parent = parent and owner = owner and
      resource = resource and methods = methods, folded t']
  have len: "length t' = length t" using f(1) [OF i] .
  have nokids: "kids t k = {}"
    using table_invD(2) [OF inv] by (fastforce simp: kids_def parent_ok_def k)
  have vp: "hs_parent (slot_at t i) = None"
    using table_invD(1) [OF inv i] vac by (auto simp: slot_ok_def Let_def)
  have pk: "parent \<noteq> Some k"
    using parent vac by (auto simp: live_def k slot_retains_def)
  have par: "hs_parent (slot_at t' j) = (if j = i then parent else hs_parent (slot_at t j))" for j
    by (simp add: s)
  have lives: "live t' q \<longleftrightarrow> q = k \<or> live t q" for q
    using vac i by (cases q) (auto simp: live_def slot_retains_def s len k)
  have kids': "kids t' q = kids t q \<union> (if parent = Some q then {i} else {})" for q
    using i vp by (auto simp: kids_def par len)
  have notin: "i \<notin> kids t q" for q using vp by (simp add: kids_def)
  have chain: "q \<noteq> Some k \<Longrightarrow> chain t' q ks \<longleftrightarrow> chain t q ks" for q ks
  proof (induction ks arbitrary: q)
    case (Cons a ks)
    show ?case
    proof (cases "live t a \<and> q = Some a")
      case True
      then have "hk_slot a < length t" "hk_slot a \<noteq> i" using vac by (auto simp: live_def slot_retains_def)
      moreover from this nokids have "hs_parent (slot_at t (hk_slot a)) \<noteq> Some k" by (auto simp: kids_def)
      ultimately show ?thesis using True Cons.IH by (simp add: par lives)
    qed (use Cons.prems in \<open>auto simp: lives\<close>)
  qed simp
  show valid: "valid t' d ks \<longleftrightarrow> (if d = k then chain t parent ks else valid t d ks)" for d ks
  proof (cases "hk_slot d = i")
    case True
    then show ?thesis
      using chain [OF pk] vac i by (cases d) (auto simp: valid_def len s slot_matches_def k)
  next
    case False
    then have "d \<noteq> k" by (auto simp: k)
    have "hk_slot d < length t \<Longrightarrow> hs_parent (slot_at t (hk_slot d)) \<noteq> Some k"
      using nokids by (auto simp: kids_def)
    with False \<open>d \<noteq> k\<close> show ?thesis
      using chain by (auto simp: valid_def len par s slot_matches_def)
  qed
  show "\<not> valid t k ks" using vac by (simp add: valid_def k slot_matches_def)
  have "slot_ok t' None j" if j: "j < length t" for j
  proof (cases "j = i")
    case True
    have "hs_children (slot_at t i) = 0"
      using table_invD(1) [OF inv i] vac by (auto simp: slot_ok_def Let_def)
    moreover have "kids t' (key_at t' i) = {}"
      using nokids pk k by (simp add: kids' key_at_def s)
    ultimately show ?thesis using True vac by (auto simp: slot_ok_def Let_def s)
  next
    case False
    have key: "key_at t' j = key_at t j" using False by (simp add: key_at_def s)
    have "parent = Some (key_at t j) \<longleftrightarrow> parent \<noteq> None \<and> j = hk_slot (the parent)"
      using parent live_key_at by (cases parent) (auto simp: key_at_def)
    moreover have "parent = Some (key_at t j) \<Longrightarrow> hs_state (slot_at t j) \<noteq> Vacant"
      using parent by (auto simp: live_def slot_retains_def key_at_def)
    ultimately show ?thesis
      using table_invD(1) [OF inv j] False notin
      by (auto simp: slot_ok_def Let_def s key kids')
  qed
  moreover have "parent_ok t' j q" if "j < length t'" "hs_parent (slot_at t' j) = Some q" for j q
  proof (cases "j = i")
    case True
    with that have q: "parent = Some q" by (simp add: par)
    with parent [OF q] pi [OF q] i show ?thesis
      by (auto simp: parent_ok_def True len f s live_def slot_retains_def)
  next
    case False
    with that have j: "j < length t" "hs_parent (slot_at t j) = Some q" by (auto simp: par len)
    then have "q \<noteq> k" using nokids by (auto simp: kids_def)
    moreover have "live t q \<Longrightarrow> hk_slot q \<noteq> i" using vac by (auto simp: live_def slot_retains_def)
    ultimately show ?thesis
      using table_invD(2) [OF inv j] False j(1)
      by (auto simp: parent_ok_def lives len f s)
  qed
  moreover have "acyclic (edges t')"
  proof -
    have "edges t' \<subseteq> edges t \<union> (case parent of Some p \<Rightarrow> {(hk_slot p, i)} | None \<Rightarrow> {})"
      using nokids pk by (auto simp: edges_def par len lives kids_def split: if_splits)
    moreover have "acyclic (edges t \<union> (case parent of Some p \<Rightarrow> {(hk_slot p, i)} | None \<Rightarrow> {}))"
    proof (cases parent)
      case (Some p)
      have "(i, x) \<notin> edges t" for x using vac by (auto simp: edges_def live_def slot_retains_def)
      then have "(i, hk_slot p) \<notin> (edges t)\<^sup>*"
        using pi [OF Some] by (auto elim: converse_rtranclE)
      with Some table_invD(3) [OF inv] show ?thesis by (simp add: acyclic_insert)
    qed (use table_invD(3) [OF inv] in simp)
    ultimately show ?thesis by (rule acyclic_subset [rotated])
  qed
  ultimately show "table_inv t' None" by (auto simp: table_inv_def len)
qed

text \<open>An admission gives the new key its rights, and no other key anything.\<close>

lemma install_with_parent_laws:
  assumes inv: "table_inv t None"
    and inst: "install_with_parent t owner resource methods parent = (Return k, t')"
    and parent: "\<And>p. parent = Some p \<Longrightarrow> live t p \<and>
      methods AND NOT (h_methods (t ! hk_slot p)) = 0 \<and> resource = h_resource (t ! hk_slot p)"
    and ancestors: "chain t parent ks"
  shows "table_inv t' None" "valid t' k ks"
    "authorize t k o' m = Err Stale"
    "authorize t' d o' m =
      (if d = k then (if o' \<noteq> owner then Err Owner
         else if m < 64 \<and> bit methods m then Ok resource else Err Rights)
       else authorize t d o' m)"
proof -
  from install_with_parent_Return [OF inst] obtain i where i: "i < length t"
    "reusable (slot_at t i)" "k = \<lparr>hk_slot = i, hk_generation = hs_generation (slot_at t i) + 1\<rparr>"
    "t' = admitted t i owner resource methods parent"
    by (metis handle_key.surjective unit.exhaust)
  note laws = admitted_laws [OF inv i(1,2,3) parent i(4)]
  show inv': "table_inv t' None" by (rule laws(1))
  show valid: "valid t' k ks" using ancestors by (simp add: laws(2))
  show "authorize t k o' m = Err Stale"
    using laws(3) by (simp add: authorize_eq [OF table_invD(3) [OF inv]])
  note auth = authorize_eq [OF table_invD(3) [OF inv]] authorize_eq [OF table_invD(3) [OF inv']]
  have fields: "j < length t \<Longrightarrow> h_owner (t' ! j) = (if j = i then owner else h_owner (t ! j))"
    "j < length t \<Longrightarrow> h_resource (t' ! j) = (if j = i then resource else h_resource (t ! j))"
    "j < length t \<Longrightarrow> h_methods (t' ! j) = (if j = i then methods else h_methods (t ! j))" for j
    using admitted_fields [OF i(1)] i(4) by simp_all
  have slot: "hk_slot k = i" by (simp add: i(3))
  have other: "hk_slot d < length t \<and> hk_slot d \<noteq> i" if "valid t d ks" for ks
    using that i(2) by (auto simp: valid_def slot_matches_def reusable_def)
  show "authorize t' d o' m =
      (if d = k then (if o' \<noteq> owner then Err Owner
         else if m < 64 \<and> bit methods m then Ok resource else Err Rights)
       else authorize t d o' m)"
  proof (cases "d = k")
    case True
    have "\<exists>ks. valid t' k ks" using valid by blast
    with True show ?thesis by (simp add: auth(2) fields i(1) slot)
  next
    case False
    then have eq: "valid t' d = valid t d" by (simp add: laws(2) fun_eq_iff)
    show ?thesis
    proof (cases "\<exists>ks. valid t d ks")
      case True
      then have "hk_slot d < length t" "hk_slot d \<noteq> i" using other by blast+
      then show ?thesis by (simp add: auth eq fields False)
    qed (simp add: auth eq False)
  qed
qed

lemma valid_live: "valid t k ks \<Longrightarrow> live t k"
  by (simp add: valid_def live_def slot_matches_def slot_retains_def)

lemma derive_Return:
  assumes "table_inv t None" "derive t p owner child methods = (Return k, t')"
  obtains ks where "valid t p ks" "h_owner (t ! hk_slot p) = owner"
    "methods AND NOT (h_methods (t ! hk_slot p)) = 0"
    "install_with_parent t child (h_resource (t ! hk_slot p)) methods (Some p) = (Return k, t')"
  using assms
  by (auto simp: derive_def table_get_eq [OF table_invD(3) [OF assms(1)]] split: if_splits)

lemma derive_laws:
  assumes inv: "table_inv t None" and derive: "derive t p owner child methods = (Return k, t')"
  shows "table_inv t' None" "under t' k p"
    "authorize t k o' m = Err Stale"
    "authorize t' d o' m =
      (if d = k then (if o' \<noteq> child then Err Owner
         else if m < 64 \<and> bit methods m then Ok (h_resource (t ! hk_slot p)) else Err Rights)
       else authorize t d o' m)"
    "authorize t' k o' m = Ok r \<Longrightarrow> authorize t p owner m = Ok r"
proof -
  from derive_Return [OF inv derive] obtain ks where ks: "valid t p ks"
    "h_owner (t ! hk_slot p) = owner" "methods AND NOT (h_methods (t ! hk_slot p)) = 0"
    "install_with_parent t child (h_resource (t ! hk_slot p)) methods (Some p) = (Return k, t')"
    by metis
  have chain: "chain t (Some p) (p # ks)" using ks(1) valid_live by (auto simp: valid_def)
  have ok: "live t q \<and> methods AND NOT (h_methods (t ! hk_slot q)) = 0 \<and>
      h_resource (t ! hk_slot p) = h_resource (t ! hk_slot q)" if "Some p = Some q" for q
    using that ks valid_live by auto
  note laws = install_with_parent_laws [OF inv ks(4) ok chain]
  show "table_inv t' None" by (rule laws(1))
  show "authorize t k o' m = Err Stale" by (rule laws(3))
  show "under t' k p" using laws(2) by (auto simp: under_def)
  show eq: "authorize t' d o' m =
      (if d = k then (if o' \<noteq> child then Err Owner
         else if m < 64 \<and> bit methods m then Ok (h_resource (t ! hk_slot p)) else Err Rights)
       else authorize t d o' m)" for d by (rule laws(4))
  show "authorize t' k o' m = Ok r \<Longrightarrow> authorize t p owner m = Ok r"
    using ks(1,2,3)
    by (auto simp: eq authorize_eq [OF table_invD(3) [OF inv]] word_and_not_zero split: if_splits)
qed

lemma install_laws:
  assumes inv: "table_inv t None" and inst: "install t owner resource methods = (Return k, t')"
  shows "table_inv t' None" "authorize t k o' m = Err Stale"
    "authorize t' d o' m =
      (if d = k then (if o' \<noteq> owner then Err Owner
         else if m < 64 \<and> bit methods m then Ok resource else Err Rights)
       else authorize t d o' m)"
  using install_with_parent_laws [OF inv inst [unfolded install_def], of "[]"] by auto

text \<open>Operations that fail leave the table as it was, and none panics.\<close>

lemma install_with_parent_fails:
  assumes "install_with_parent t owner resource methods parent = (r, t')" "\<nexists>k. r = Return k"
  shows "t' = t"
  using assms
  by (auto simp: install_with_parent_def split: option.splits if_splits result.splits prod.splits)

lemma install_no_panic: "fst (install t owner resource methods) \<noteq> Panic"
  by (auto simp: install_def install_with_parent_def slot_install_def
      split: option.splits result.splits prod.splits)

lemma derive_no_panic:
  assumes "acyclic (edges t)"
  shows "fst (derive t p owner child methods) \<noteq> Panic"
proof -
  have "hk_slot p < length t" if "valid t p ks" for ks using that by (simp add: valid_def)
  then show ?thesis
    by (auto simp: derive_def table_get_eq [OF assms] install_with_parent_def
        split: option.splits result.splits prod.splits)
qed

lemma set_slot_same [simp]: "set_slot t i (h_slot (t ! i)) = t"
  by (simp add: set_slot_def)

lemma release_fails: "release t k owner = (Err e, t') \<Longrightarrow> t' = t"
  by (auto simp: release_def Let_def slot_release_def table_local_Ok slot_reclaim_def
      split: result.splits if_splits prod.splits)

lemma revoke_fails: "revoke t k owner = (Err e, t') \<Longrightarrow> t' = t"
  by (auto simp: revoke_def Let_def split: result.splits prod.splits)

end
