(* ===== verification/Authority_Contract.thy ===== *)
theory Authority_Contract
  imports Authority_Invariant
begin

text \<open>
  The contract of delegated handles as a locale, proved for the handle table of \<open>authority.rs\<close>, and
  what follows for every table that its operations can produce.
\<close>

section \<open>The handle contract\<close>

text \<open>
  What a holder of handles may rely on, whatever represents the table. \<open>permits t d o m\<close> is the
  answer of the authorization check for key \<open>d\<close>, owner \<open>o\<close> and method \<open>m\<close>; \<open>below t d k\<close> says that
  \<open>d\<close> is \<open>k\<close> or was delegated from it.
\<close>

locale handle_authority =
  fixes inv :: "'t \<Rightarrow> bool"
    and permits :: "'t \<Rightarrow> 'k \<Rightarrow> u64 \<Rightarrow> nat \<Rightarrow> (u32, authority_error) result"
    and below :: "'t \<Rightarrow> 'k \<Rightarrow> 'k \<Rightarrow> bool"
    and delegate :: "'t \<Rightarrow> 'k \<Rightarrow> u64 \<Rightarrow> u64 \<Rightarrow> 64 word \<Rightarrow> ('k, authority_error) comp \<times> 't"
    and give_up :: "'t \<Rightarrow> 'k \<Rightarrow> u64 \<Rightarrow> (unit, authority_error) result \<times> 't"
    and withdraw :: "'t \<Rightarrow> 'k \<Rightarrow> u64 \<Rightarrow> (unit, authority_error) result \<times> 't"
  assumes delegate_inv: "inv t \<Longrightarrow> delegate t p a c ms = (Return k, t') \<Longrightarrow> inv t'"
    and delegate_below: "inv t \<Longrightarrow> delegate t p a c ms = (Return k, t') \<Longrightarrow> below t' k p"
    and delegate_fresh: "inv t \<Longrightarrow> delegate t p a c ms = (Return k, t') \<Longrightarrow>
      permits t k o' m = Err Stale"
    and delegate_within: "inv t \<Longrightarrow> delegate t p a c ms = (Return k, t') \<Longrightarrow>
      permits t' k o' m = Ok r \<Longrightarrow> o' = c \<and> bit ms m \<and> permits t p a m = Ok r"
    and delegate_others: "inv t \<Longrightarrow> delegate t p a c ms = (Return k, t') \<Longrightarrow> d \<noteq> k \<Longrightarrow>
      permits t' d o' m = permits t d o' m"
    and give_up_inv: "inv t \<Longrightarrow> give_up t k a = (Ok (), t') \<Longrightarrow> inv t'"
    and give_up_permits: "inv t \<Longrightarrow> give_up t k a = (Ok (), t') \<Longrightarrow>
      permits t' d o' m = (if d = k then Err Stale else permits t d o' m)"
    and withdraw_inv: "inv t \<Longrightarrow> withdraw t k a = (Ok (), t') \<Longrightarrow> inv t'"
    and withdraw_permits: "inv t \<Longrightarrow> withdraw t k a = (Ok (), t') \<Longrightarrow>
      permits t' d o' m = (if below t d k then Err Stale else permits t d o' m)"
begin

text \<open>A chain of delegations, each made by the holder of the previous handle.\<close>

inductive delegated :: "'t \<Rightarrow> 'k \<Rightarrow> u64 \<Rightarrow> 't \<Rightarrow> 'k \<Rightarrow> u64 \<Rightarrow> bool" where
  delegated_refl: "delegated t k a t k a"
| delegated_step: "delegated t k a t1 k1 a1 \<Longrightarrow> delegate t1 k1 a1 a2 ms = (Return k2, t2) \<Longrightarrow>
    delegated t k a t2 k2 a2"

lemma delegated_inv: "delegated t k a t' k' a' \<Longrightarrow> inv t \<Longrightarrow> inv t'"
  by (induction rule: delegated.induct) (auto intro: delegate_inv)

lemma delegated_attenuates:
  "delegated t k a t' k' a' \<Longrightarrow> inv t \<Longrightarrow> permits t' k' a' m = Ok r \<Longrightarrow> permits t k a m = Ok r"
  by (induction arbitrary: r rule: delegated.induct)
    (use delegate_within delegated_inv in blast)+

lemma delegated_permits_keeps:
  "delegated t k a t' k' a' \<Longrightarrow> inv t \<Longrightarrow> permits t d o' m \<noteq> Err Stale \<Longrightarrow>
   permits t' d o' m = permits t d o' m"
proof (induction rule: delegated.induct)
  case (delegated_step t k a t1 k1 a1 a2 ms k2 t2)
  then have "inv t1" using delegated_inv by blast
  then show ?case
    using delegated_step delegate_fresh [OF \<open>inv t1\<close> delegated_step.hyps(2), of o' m]
      delegate_others [OF \<open>inv t1\<close> delegated_step.hyps(2), of d] by metis
qed simp

lemma withdraw_reaches_child:
  assumes "inv t" "delegate t p a c ms = (Return k, t1)" "withdraw t1 p a = (Ok (), t2)"
  shows "permits t2 k o' m = Err Stale"
  using assms delegate_below delegate_inv withdraw_permits by metis

lemma give_up_spares_child:
  assumes "inv t" "delegate t p a c ms = (Return k, t1)" "give_up t1 p a = (Ok (), t2)"
    and "permits t p o' m \<noteq> Err Stale"
  shows "permits t2 k c m = permits t1 k c m"
  using assms delegate_fresh delegate_inv give_up_permits by metis

end

lemma derive_within:
  assumes "table_inv t None" "derive t p a c ms = (Return k, t')" "authorize t' k o' m = Ok r"
  shows "o' = c \<and> bit ms m \<and> authorize t p a m = Ok r"
  using derive_laws(4) [OF assms(1,2), of k o' m] derive_laws(5) [OF assms(1,2), of o' m r] assms(3)
  by (auto split: if_splits)

interpretation handles: handle_authority "\<lambda>t. table_inv t None" authorize under derive release revoke
proof unfold_locales
  fix t :: handle_table and p a c ms k t'
  assume inv: "table_inv t None" and eq: "derive t p a c ms = (Return k, t')"
  note laws = derive_laws [OF inv eq]
  show "table_inv t' None" "under t' k p" by (rule laws(1), rule laws(2))
  show "authorize t k o' m = Err Stale" for o' m by (rule laws(3))
  show "authorize t' k o' m = Ok r \<Longrightarrow> o' = c \<and> bit ms m \<and> authorize t p a m = Ok r" for o' m r
    by (rule derive_within [OF inv eq])
  show "d \<noteq> k \<Longrightarrow> authorize t' d o' m = authorize t d o' m" for d o' m by (simp add: laws(4))
qed (rule release_laws revoke_laws; assumption)+

section \<open>Tables in use\<close>

text \<open>One call on a table, whatever its outcome.\<close>

inductive table_step :: "handle_table \<Rightarrow> handle_table \<Rightarrow> bool" where
  step_install: "install t owner resource methods = (r, t') \<Longrightarrow> table_step t t'"
| step_derive: "derive t p owner child methods = (r, t') \<Longrightarrow> table_step t t'"
| step_release: "release t k owner = (x, t') \<Longrightarrow> table_step t t'"
| step_revoke: "revoke t k owner = (x, t') \<Longrightarrow> table_step t t'"

text \<open>\<open>issued t k\<close>: the generation of \<open>k\<close> has been reached by its slot.\<close>

definition issued :: "handle_table \<Rightarrow> handle_key \<Rightarrow> bool" where
  "issued t k \<longleftrightarrow> hk_slot k < length t \<and> hk_generation k \<le> hs_generation (slot_at t (hk_slot k))"

lemma live_issued: "live t k \<Longrightarrow> issued t k"
  by (auto simp: live_def issued_def slot_retains_def)

lemma same_rights_issued: "same_rights t t' \<Longrightarrow> issued t' k = issued t k"
  by (auto simp: same_rights_def issued_def)

lemma install_with_parent_issued:
  assumes "install_with_parent t owner resource methods parent = (Return k, t')"
    and "\<And>p. parent = Some p \<Longrightarrow> live t p"
  shows "\<not> issued t k" "issued t d \<Longrightarrow> issued t' d"
proof -
  from install_with_parent_Return [OF assms(1)] obtain i where i: "i < length t"
    "reusable (slot_at t i)" "hk_slot k = i" "hk_generation k = hs_generation (slot_at t i) + 1"
    "t' = admitted t i owner resource methods parent"
    by metis
  have "hk_slot p < length t \<and> hk_slot p \<noteq> i" if "parent = Some p" for p
    using assms(2) [OF that] i(2) by (auto simp: live_def slot_retains_def reusable_def)
  note s = admitted_slot_at [OF i(1) this]
  show "\<not> issued t k" using i(3,4) by (simp add: issued_def)
  show "issued t d \<Longrightarrow> issued t' d"
    using i(5) by (auto simp: issued_def s admitted_fields [OF i(1) i(1)])
qed

text \<open>What one step keeps: the invariant, issued keys, and death.\<close>

definition step_keeps :: "handle_table \<Rightarrow> handle_table \<Rightarrow> bool" where
  "step_keeps t t' \<longleftrightarrow> table_inv t' None \<and>
     (\<forall>d. issued t d \<longrightarrow> issued t' d \<and>
        (\<forall>o' m. authorize t d o' m = Err Stale \<longrightarrow> authorize t' d o' m = Err Stale))"

lemma comp_cases_Return:
  obtains k where "r = Return k" | "\<nexists>k. r = Return k"
  by blast

lemma install_keeps:
  assumes inv: "table_inv t None" and eq: "install t owner resource methods = (r, t')"
  shows "step_keeps t t'"
proof (cases r rule: comp_cases_Return)
  case (1 k)
  note inst = eq [unfolded 1]
  have "\<not> issued t k" "issued t d \<Longrightarrow> issued t' d" for d
    using install_with_parent_issued [OF inst [unfolded install_def]] by auto
  then show ?thesis
    using install_laws [OF inv inst] by (auto simp: step_keeps_def)
next
  case 2
  then show ?thesis
    using install_with_parent_fails [OF eq [unfolded install_def]] inv by (simp add: step_keeps_def)
qed

lemma derive_fails:
  "derive t p owner child methods = (r, t') \<Longrightarrow> \<nexists>k. r = Return k \<Longrightarrow> t' = t"
  by (auto simp: derive_def split: result.splits if_splits dest: install_with_parent_fails)

lemma derive_keeps:
  assumes inv: "table_inv t None" and eq: "derive t p owner child methods = (r, t')"
  shows "step_keeps t t'"
proof (cases r rule: comp_cases_Return)
  case (1 k)
  note der = eq [unfolded 1]
  from derive_Return [OF inv der] obtain ks res where "valid t p ks"
    and inst: "install_with_parent t child res methods (Some p) = (Return k, t')"
    by metis
  then have "live t q" if "Some p = Some q" for q using that valid_live by auto
  then have "\<not> issued t k" "issued t d \<Longrightarrow> issued t' d" for d
    using install_with_parent_issued [OF inst] by auto
  then show ?thesis
    using derive_laws(1,4) [OF inv der] by (auto simp: step_keeps_def)
next
  case 2
  then show ?thesis using derive_fails [OF eq] inv by (simp add: step_keeps_def)
qed

lemma release_keeps: "table_inv t None \<Longrightarrow> release t k owner = (x, t') \<Longrightarrow> step_keeps t t'"
  by (cases x) (use release_laws same_rights_issued release_fails in
    \<open>fastforce simp: step_keeps_def\<close>)+

lemma revoke_keeps: "table_inv t None \<Longrightarrow> revoke t k owner = (x, t') \<Longrightarrow> step_keeps t t'"
  by (cases x) (use revoke_laws same_rights_issued revoke_fails in
    \<open>fastforce simp: step_keeps_def\<close>)+

lemma table_step_keeps: "table_step t t' \<Longrightarrow> table_inv t None \<Longrightarrow> step_keeps t t'"
  by (cases rule: table_step.cases) (auto intro: install_keeps derive_keeps release_keeps revoke_keeps)

lemma table_steps_keep: "table_step\<^sup>*\<^sup>* t t' \<Longrightarrow> table_inv t None \<Longrightarrow> step_keeps t t'"
proof (induction rule: rtranclp_induct)
  case (step u v)
  then show ?case using table_step_keeps [of u v] by (simp add: step_keeps_def)
qed (simp add: step_keeps_def)

lemma fresh_table_inv: "table_inv (replicate n handle_default) None"
proof -
  have s: "i < n \<Longrightarrow> slot_at (replicate n handle_default) i = slot_default" for i
    by (simp add: slot_at_def handle_default_def)
  then have "edges (replicate n handle_default) = {}"
    by (auto simp: edges_def slot_default_def)
  then show ?thesis by (simp add: table_inv_def slot_ok_def s slot_default_def acyclic_def)
qed

lemma valid_chain_rights:
  assumes "table_inv t None" "i < length t" "chain t (hs_parent (slot_at t i)) ks" "a \<in> set ks"
    and "bit (h_methods (t ! i)) m" "m < 64"
  shows "bit (h_methods (t ! hk_slot a)) m \<and> h_resource (t ! hk_slot a) = h_resource (t ! i)"
  using assms(2-)
proof (induction ks arbitrary: i)
  case (Cons k ks)
  then have k: "hs_parent (slot_at t i) = Some k" "live t k" "hk_slot k < length t"
    and rest: "chain t (hs_parent (slot_at t (hk_slot k))) ks"
    by (auto simp: live_def)
  then have "bit (h_methods (t ! hk_slot k)) m" "h_resource (t ! i) = h_resource (t ! hk_slot k)"
    using table_invD(2) [OF assms(1)] Cons.prems(1,4,5)
    by (auto simp: parent_ok_def word_and_not_zero)
  then show ?case using Cons.IH [OF k(3) rest] Cons.prems(3,5) by auto
qed simp

section \<open>A concrete table\<close>

text \<open>
  Three slots; owner 10 installs methods \<open>{0, 1}\<close> on resource 7 and delegates method 0 to owner 20.
\<close>

definition sample_parent :: handle_key where
  "sample_parent = \<lparr>hk_slot = 0, hk_generation = 1\<rparr>"

definition sample_child :: handle_key where
  "sample_child = \<lparr>hk_slot = 1, hk_generation = 1\<rparr>"

definition sample_handle :: "u64 \<Rightarrow> 64 word \<Rightarrow> handle_key option \<Rightarrow> usize \<Rightarrow> handle" where
  "sample_handle owner methods parent children =
     \<lparr>h_owner = owner, h_resource = 7, h_methods = methods,
      h_slot = \<lparr>hs_generation = 1, hs_state = Active, hs_parent = parent, hs_children = children\<rparr>\<rparr>"

definition sample_root :: handle_table where
  "sample_root = [sample_handle 10 3 None 0, handle_default, handle_default]"

definition sample_table :: handle_table where
  "sample_table =
     [sample_handle 10 3 None 1, sample_handle 20 1 (Some sample_parent) 0, handle_default]"

lemmas sample_defs = sample_parent_def sample_child_def sample_handle_def sample_root_def sample_table_def
  handle_default_def slot_default_def

lemmas operation_defs = install_def install_with_parent_def find_reusable_def reusable_def
  slot_install_def store_handle_def attach_child_def derive_def table_get_def slot_validate_def
  slot_matches_def slot_retains_def table_lookup_def get_def checked_add_def usize_max_def
  u32_max_def u64_max_def set_slot_def upt_rec

lemma sample_calls:
  "install (replicate 3 handle_default) 10 7 3 = (Return sample_parent, sample_root)"
  "derive sample_root sample_parent 10 20 1 = (Return sample_child, sample_table)"
  "revoke sample_table sample_parent 10 = (Ok (), snd (revoke sample_table sample_parent 10))"
  "release sample_table sample_parent 10 = (Ok (), snd (release sample_table sample_parent 10))"
  subgoal by (simp add: sample_defs operation_defs numeral_3_eq_3)
  subgoal by (simp add: sample_defs operation_defs)
  subgoal by (simp add: sample_defs operation_defs revoke_def table_local_def Let_def
        slot_revoke_def slot_reclaim_def)
  subgoal by (simp add: sample_defs operation_defs release_def table_local_def Let_def
        slot_release_def slot_reclaim_def)
  done

lemma sample_resource: "h_resource (sample_root ! hk_slot sample_parent) = 7"
  by (simp add: sample_defs)

lemma sample_reachable:
  "table_step\<^sup>*\<^sup>* (replicate 3 handle_default) sample_root"
  "table_step\<^sup>*\<^sup>* (replicate 3 handle_default) sample_table"
  using step_install [OF sample_calls(1)] step_derive [OF sample_calls(2)]
  by (auto intro: rtranclp.rtrancl_into_rtrancl)

lemma sample_inv: "table_inv sample_root None" "table_inv sample_table None"
  using sample_reachable [THEN table_steps_keep, OF fresh_table_inv]
  by (auto simp: step_keeps_def)

lemma sample_valid: "valid sample_table sample_child [sample_parent]"
  by (simp add: sample_defs valid_def live_def slot_at_def slot_matches_def slot_retains_def)

lemma sample_keys: "sample_child \<noteq> sample_parent" "hk_slot sample_parent = 0"
  by (simp_all add: sample_defs)

lemma sample_authorize: "authorize sample_table sample_child 20 0 = Ok 7"
  by (simp add: sample_defs operation_defs authorize_def checked_shl_1_def)

lemma sample_under: "under sample_table sample_child sample_parent"
  using sample_valid by (auto simp: under_def)

section \<open>Properties\<close>

text \<open>
  C10: the tables that \<open>install\<close>, \<open>derive\<close>, \<open>release\<close> and \<open>revoke\<close> can produce from an empty table
  satisfy the invariant: child counts are exact, released slots still have children, delegation
  has no cycles, and a child holds no method its retained parent lacks. No call on such a table
  panics.
\<close>

theorem handle_table_invariant:
  assumes "table_step\<^sup>*\<^sup>* (replicate n handle_default) t"
  shows "table_inv t None \<and> fst (install t owner resource methods) \<noteq> Panic \<and>
    fst (derive t k owner child methods) \<noteq> Panic"
  using table_steps_keep [OF assms fresh_table_inv] install_no_panic derive_no_panic table_invD(3)
  by (auto simp: step_keeps_def)

theorem handle_table_invariant_witness:
  "table_inv sample_table None \<and> fst (install sample_table 5 6 7) \<noteq> Panic \<and>
   fst (derive sample_table sample_child 20 30 1) \<noteq> Panic"
  using handle_table_invariant [OF sample_reachable(2)] by blast

text \<open>
  C12: a delegation gives its key exactly the requested methods on the parent's resource, for the
  named owner only; each of them is a method the delegating owner may use through the parent, and
  the answer for every other key is unchanged.
\<close>

theorem derive_authority:
  assumes "table_inv t None" "derive t p owner child methods = (Return k, t')"
  shows "authorize t' d o' m =
      (if d = k then
         (if o' \<noteq> child then Err Owner
          else if m < 64 \<and> bit methods m then Ok (h_resource (t ! hk_slot p)) else Err Rights)
       else authorize t d o' m) \<and>
    (m < 64 \<and> bit methods m \<longrightarrow> authorize t p owner m = Ok (h_resource (t ! hk_slot p)))"
  using derive_laws(4) [OF assms] derive_laws(5) [OF assms, of child m "h_resource (t ! hk_slot p)"]
  by auto

theorem derive_authority_witness:
  "authorize sample_table sample_child 20 0 = Ok 7 \<and>
   authorize sample_table sample_child 20 1 = Err Rights \<and>
   authorize sample_root sample_parent 10 0 = Ok 7"
  using derive_authority [OF sample_inv(1) sample_calls(2), of sample_child 20 0]
    derive_authority [OF sample_inv(1) sample_calls(2), of sample_child 20 1]
  by (simp add: sample_resource bit_1_iff)

text \<open>
  C13: authority never grows along a delegation chain: what a handle authorizes, every retained
  ancestor also has, on the same resource.
\<close>

theorem authorize_attenuates:
  assumes "table_inv t None" "authorize t d owner m = Ok r" "valid t d ks" "a \<in> set ks"
  shows "bit (h_methods (t ! hk_slot a)) m \<and> h_resource (t ! hk_slot a) = r"
proof -
  have "m < 64" "bit (h_methods (t ! hk_slot d)) m" "r = h_resource (t ! hk_slot d)"
    using assms(2) by (auto simp: authorize_eq [OF table_invD(3) [OF assms(1)]] split: if_splits)
  then show ?thesis
    using valid_chain_rights [OF assms(1), of "hk_slot d" ks a m] assms(3,4) by (simp add: valid_def)
qed

theorem authorize_attenuates_witness:
  "authorize sample_table sample_child 20 0 = Ok 7 \<and> bit (h_methods (sample_table ! 0)) 0 \<and>
   h_resource (sample_table ! 0) = 7"
  using authorize_attenuates [OF sample_inv(2) sample_authorize sample_valid, of sample_parent]
  by (simp add: sample_authorize sample_keys)

lemma revoked_stays_stale:
  assumes inv: "table_inv t None" and revoke: "revoke t k owner = (Ok (), t1)"
    and steps: "table_step\<^sup>*\<^sup>* t1 t2" and d: "under t d k"
  shows "authorize t2 d o' m = Err Stale"
proof -
  note laws = revoke_laws [OF inv revoke]
  have "live t k" using revoke_Ok [OF revoke] by auto
  then have "issued t d" using d valid_live live_issued by (auto simp: under_def)
  then have "issued t1 d" by (simp add: same_rights_issued [OF laws(2)])
  with table_steps_keep [OF steps laws(1)] d show ?thesis
    by (auto simp: laws(3) step_keeps_def)
qed

text \<open>
  C11: revoking a handle takes effect at once on the handle and on everything delegated from it, on
  nothing else, and for good: no sequence of later calls, including those that reuse the slots,
  makes a revoked key valid again.
\<close>

theorem revoke_final:
  assumes inv: "table_inv t None" and revoke: "revoke t k owner = (Ok (), t1)"
    and steps: "table_step\<^sup>*\<^sup>* t1 t2"
  shows "authorize t1 d o' m = (if under t d k then Err Stale else authorize t d o' m) \<and>
    (under t d k \<longrightarrow> authorize t2 d o' m = Err Stale)"
  using revoked_stays_stale [OF assms] revoke_laws(3) [OF inv revoke] by simp

theorem revoke_final_witness:
  "authorize sample_table sample_child 20 0 = Ok 7 \<and>
   authorize (snd (revoke sample_table sample_parent 10)) sample_child 20 0 = Err Stale"
  using revoke_final [OF sample_inv(2) sample_calls(3) rtranclp.rtrancl_refl, of sample_child 20 0]
  by (simp add: sample_under sample_authorize)

text \<open>
  C14: releasing a handle ends the authority of that key alone: handles delegated from it keep
  exactly the authority they had, and the released key never becomes valid again.
\<close>

theorem release_local:
  assumes inv: "table_inv t None" and release: "release t k owner = (Ok (), t1)"
    and steps: "table_step\<^sup>*\<^sup>* t1 t2"
  shows "authorize t1 d o' m = (if d = k then Err Stale else authorize t d o' m) \<and>
    authorize t2 k o' m = Err Stale"
proof -
  note laws = release_laws [OF inv release]
  have "live t k" using release
    by (auto simp: release_def table_local_Ok split: result.splits)
  then have "issued t1 k" using live_issued by (simp add: same_rights_issued [OF laws(2)])
  with table_steps_keep [OF steps laws(1)] show ?thesis
    by (auto simp: laws(3) step_keeps_def)
qed

theorem release_local_witness:
  "authorize (snd (release sample_table sample_parent 10)) sample_child 20 0 = Ok 7 \<and>
   authorize (snd (release sample_table sample_parent 10)) sample_parent 10 0 = Err Stale"
  using release_local [OF sample_inv(2) sample_calls(4) rtranclp.rtrancl_refl, of sample_child 20 0]
    release_local [OF sample_inv(2) sample_calls(4) rtranclp.rtrancl_refl, of sample_parent 10 0]
  by (simp add: sample_authorize sample_keys)

text \<open>
  C15: a handle delegated by its holder stops working when the holder revokes the parent, and goes
  on working, unchanged, when the holder only releases the parent.
\<close>

theorem delegate_outlives_release_only:
  assumes "table_inv t None" "derive t p a c ms = (Return k, t1)"
  shows "(revoke t1 p a = (Ok (), t2) \<longrightarrow> authorize t2 k o' m = Err Stale) \<and>
    (release t1 p a = (Ok (), t2) \<longrightarrow> authorize t2 k c m = authorize t1 k c m)"
proof -
  have "k \<noteq> p"
    using derive_Return [OF assms] derive_laws(3) [OF assms, of a 0]
    by (auto simp: authorize_eq [OF table_invD(3) [OF assms(1)]] split: if_splits)
  then show ?thesis
    using handles.withdraw_reaches_child [OF assms] handles.delegate_inv [OF assms]
      handles.give_up_permits
    by metis
qed

theorem delegate_outlives_release_only_witness:
  "authorize (snd (release sample_table sample_parent 10)) sample_child 20 0 =
     authorize sample_table sample_child 20 0 \<and>
   authorize (snd (revoke sample_table sample_parent 10)) sample_child 20 0 = Err Stale"
  using delegate_outlives_release_only [OF sample_inv(1) sample_calls(2)] sample_calls(3,4) by blast

end
