(* ===== verification/Linking.thy ===== *)
theory Linking
  imports Machine_Contract Authority_Contract
begin

text \<open>
  Linked programs (\<open>xolotl-core/src/link.rs\<close>) and \<open>advance_linked\<close> of \<open>machine.rs\<close>: every import is
  bound to a handle of the process and a method bit, both checked again before a request reaches the
  host. This is where the capability table and the machine meet.
\<close>

section \<open>Linked programs\<close>

record import_binding =
  ib_handle :: handle_key
  ib_method :: nat

record ('v, 'e) linked_program =
  lp_image :: "('v, 'e) image"
  lp_bindings :: "import_binding list"
  lp_owner :: u64

definition linked_authorize ::
  "('v, 'e) linked_program \<Rightarrow> u32 \<Rightarrow> handle_table \<Rightarrow> (u32, fault) result" where
  "linked_authorize p im handles =
     bind_result (ok_or Fault_InvalidImport (get (lp_bindings p) im)) (\<lambda>b.
       map_err (\<lambda>_. Fault_Authority) (authorize handles (ib_handle b) (lp_owner p) (ib_method b)))"

text \<open>The loop index is cast to \<open>u32\<close> before it is authorized.\<close>

definition linked_new ::
  "('v, 'e) image \<Rightarrow> import_binding list \<Rightarrow> handle_table \<Rightarrow> u64 \<Rightarrow>
   (('v, 'e) linked_program, fault) result" where
  "linked_new img bindings handles owner =
     bind_result (validate img) (\<lambda>_.
       if length bindings \<noteq> img_imports img then Err Fault_InvalidImport
       else
         let linked = \<lparr>lp_image = img, lp_bindings = bindings, lp_owner = owner\<rparr> in
         bind_result
           (try_each (\<lambda>im. bind_result (linked_authorize linked (im mod 2 ^ 32) handles) (\<lambda>_. Ok ()))
             [0..<length bindings])
           (\<lambda>_. Ok linked))"

definition advance_linked ::
  "('v, 'e) vals \<Rightarrow> ('v, 'e) linked_program \<Rightarrow> handle_table \<Rightarrow> ('v, 'e) exec \<Rightarrow> u32 \<Rightarrow>
   (('v, 'e) advance, fault) comp \<times> ('v, 'e) exec" where
  "advance_linked vs p handles e fuel =
     and_then (advance vs (lp_image p) e fuel) (\<lambda>action e.
       case action of
         A_Request q \<Rightarrow>
           (case linked_authorize p (rq_import q) handles of
              Ok _ \<Rightarrow> (Return (A_Request q), e)
            | Err f \<Rightarrow>
                (case complete vs (lp_image p) e (rq_task q) (rq_ticket q)
                        (HE_Complete (Err (v_error vs f))) of
                   (Return _, e) \<Rightarrow> (Return A_Yielded, e)
                 | (Raise x, e) \<Rightarrow> (Return (A_Done (terminal_fault vs e x)), e)
                 | (Panic, e) \<Rightarrow> (Panic, e)))
       | other \<Rightarrow> (Return other, e))"

section \<open>A request leaves the root running\<close>

abbreviation root_running :: "('v, 'e) exec \<Rightarrow> bool" where
  "root_running e \<equiv> terminal_result (tk_state (task_at e 0)) = None"

lemma root_running_set_state:
  "root_running e \<Longrightarrow> terminal_result s = None \<Longrightarrow> root_running (set_state e i s)"
  by (cases "i < task_count e"; cases "i = 0") (simp_all add: set_state_def update_task_def task_at_def)

lemma root_running_set_input [simp]: "root_running (set_input e i v) = root_running e"
  by (cases "i < task_count e"; cases "i = 0") (simp_all add: set_input_def update_task_def task_at_def)

lemma request_step_running:
  "request_step img e i pc pos im v = (Return (Some a), e') \<Longrightarrow> root_running e \<Longrightarrow> root_running e'"
  by (auto simp: request_step_def Let_def task_at_def [symmetric]
      intro!: root_running_set_state split: if_splits option.splits)

lemma transition_running:
  assumes "transition vs img e i = (Return (Some a), e')" "root_running e"
  shows "root_running e'"
  using assms
  by (auto dest!: request_step_running simp: transition_def ready_step_def ready_node_def Let_def silent_Return enter_Return
      and_then_None split: if_splits state.splits result.splits option.splits node_kind.splits)

lemma select_running:
  "select vs e offs = (r, e') \<Longrightarrow> root_running e \<Longrightarrow> root_running e'"
proof (induction offs arbitrary: e)
  case (Cons offset rest)
  let ?i = "(ex_cursor e + offset) mod task_count e"
  let ?e = "set_state e ?i (S_Returning (fault_result vs e ?i Fault_Cancelled))"
  have "root_running ?e" using Cons.prems(2) by (rule root_running_set_state) simp
  with Cons.IH [of e] Cons.IH [of ?e] Cons.prems show ?case
    by (auto simp: Let_def split: if_splits option.splits comp.splits bool.splits)
qed simp

lemma round_running:
  assumes inv: "exec_inv img e" and step: "advance_round vs img e = (Return (Some (A_Request q)), e')"
  shows "root_running e'"
proof -
  have "root_running e" using step inv_exceptD(6) [OF inv]
    by (auto simp: advance_round_def task_at_def split: if_splits option.splits)
  from inv this obtain e1 s e2 where r: "root_running e1" "select vs e1 [0..<task_count e1] = (Return s, e2)"
    "advance_round vs img e =
       (case s of
          Scan_Cancel i ticket \<Rightarrow> (Return (Some (A_Cancel i ticket)), e2)
        | Scan_Idle \<Rightarrow> (Return (Some A_Waiting), e2)
        | Scan_Task i \<Rightarrow> dispatch vs img e2 i)"
    by (rule round_cases)
  have e2: "root_running e2" using select_running [OF r(2,1)] .
  obtain i where "dispatch vs img e2 i = (Return (Some (A_Request q)), e')"
    using r(3) step by (cases s) auto
  then obtain e3 where "run_task vs img e3 i = (Return (Some (A_Request q)), e')" "root_running e3"
    using e2 by (auto simp: dispatch_def Let_def task_at_def split: if_splits)
  then show ?thesis
    using transition_running [of vs img "e3\<lparr>ex_cursor := (i + 1) mod task_count e3\<rparr>" i "A_Request q" e']
    by (auto simp: run_task_def task_at_def split: prod.splits comp.splits)
qed

lemma loop_running:
  "exec_inv img e \<Longrightarrow> advance_loop vs img fuel e = (Return (A_Request q), e') \<Longrightarrow> root_running e'"
proof (induction fuel arbitrary: e)
  case (Suc fuel)
  obtain a e1 where a: "advance_round vs img e = (Return a, e1)" "exec_inv img e1"
    using advance_round_lives [OF Suc.prems(1), of vs]
    by (cases "advance_round vs img e"; cases "fst (advance_round vs img e)") auto
  then show ?case
    using Suc.IH [of e1] Suc.prems round_running [OF Suc.prems(1), of vs q e'] by (cases a) auto
qed simp

lemma advance_running:
  "exec_inv img e \<Longrightarrow> advance vs img e fuel = (Return (A_Request q), e') \<Longrightarrow> root_running e'"
  by (auto simp: advance_def split: if_splits dest: loop_running)

lemma finish_returns:
  assumes "node < code_size img"
  shows "\<exists>e'. finish vs img e i node r = (Return (), e')"
proof -
  obtain n where "image_node img node = Ok n" using assms by (auto simp: image_node_Ok_iff)
  then show ?thesis by (auto simp: finish_def split: result.splits option.splits)
qed

lemma complete_pending:
  assumes inv: "exec_inv img e" and root: "root_running e" and w: "waits e i k"
  obtains e' where "complete vs img e i k (HE_Complete r) = (Return (), e')" "\<not> waits e' i k"
proof -
  obtain node where node: "i < task_count e" "tk_state (task_at e i) = S_Waiting k node"
    using w by (auto simp: waits_def)
  have "img_id img = ex_image_id e" "ex_tasks e \<noteq> []"
    using inv inv_exceptD(6) [OF inv] by (auto simp: inv_except_def storage_ok_def)
  moreover have "node < code_size img" using inv_exceptD(3) [OF inv node(1)] node(2) by simp
  ultimately obtain e' where e': "complete vs img e i k (HE_Complete r) = (Return (), e')"
    using root node finish_returns [of node img vs _ i r]
    by (auto simp: complete_def task_at_def get_def event_control_def Let_def)
  then have "\<not> waits e' i k"
    using complete_ends [OF inv, of i k vs "HE_Complete r"] by (simp add: delivered_def)
  with e' show thesis by (rule that)
qed

section \<open>Dispatch\<close>

text \<open>What \<open>advance_linked\<close> makes of one turn of the machine.\<close>

lemma advance_linked_cases:
  assumes inv: "exec_inv (lp_image p) e"
  obtains (plain) a e' where "advance vs (lp_image p) e fuel = (Return a, e')" "\<nexists>q. a = A_Request q"
      "advance_linked vs p t e fuel = (Return a, e')"
  | (authorized) q e' res where "advance vs (lp_image p) e fuel = (Return (A_Request q), e')"
      "linked_authorize p (rq_import q) t = Ok res"
      "advance_linked vs p t e fuel = (Return (A_Request q), e')"
  | (refused) q e' f e'' where "advance vs (lp_image p) e fuel = (Return (A_Request q), e')"
      "linked_authorize p (rq_import q) t = Err f"
      "complete vs (lp_image p) e' (rq_task q) (rq_ticket q) (HE_Complete (Err (v_error vs f))) = (Return (), e'')"
      "\<not> waits e'' (rq_task q) (rq_ticket q)"
      "advance_linked vs p t e fuel = (Return A_Yielded, e'')"
proof -
  obtain a e' where a: "advance vs (lp_image p) e fuel = (Return a, e')" "exec_inv (lp_image p) e'"
    "action_ok e a e'"
    using advance_ends [OF inv, of vs fuel]
    by (cases "advance vs (lp_image p) e fuel"; cases "fst (advance vs (lp_image p) e fuel)") auto
  show thesis
  proof (cases "\<exists>q. a = A_Request q")
    case False
    then show ?thesis
      using a(1) by (intro plain [OF a(1)]) (auto simp: advance_linked_def split: advance.splits)
  next
    case True
    then obtain q where q: "a = A_Request q" by blast
    have w: "waits e' (rq_task q) (rq_ticket q)" using a(3) q by (auto simp: action_ok_def)
    have root: "root_running e'" using advance_running [OF inv] a(1) q by simp
    show ?thesis
    proof (cases "linked_authorize p (rq_import q) t")
      case (Ok res)
      then show ?thesis
        using a(1) q by (intro authorized [of q e' res]) (simp_all add: advance_linked_def)
    next
      case (Err f)
      obtain e'' where "complete vs (lp_image p) e' (rq_task q) (rq_ticket q)
          (HE_Complete (Err (v_error vs f))) = (Return (), e'')" "\<not> waits e'' (rq_task q) (rq_ticket q)"
        using complete_pending [OF a(2) root w] by blast
      then show ?thesis
        using a(1) q Err by (intro refused [of q e' f e'']) (simp_all add: advance_linked_def)
    qed
  qed
qed

lemma advance_linked_reachable:
  assumes "reachable (lp_image p) e"
  shows "reachable (lp_image p) (snd (advance_linked vs p t e fuel))"
proof -
  have adv: "reachable (lp_image p) e'" if "advance vs (lp_image p) e fuel = (r, e')" for r e'
    using reachable_step [OF assms host_advance, of vs fuel] that by simp
  from reachable_inv [OF assms] show ?thesis
  proof (cases rule: advance_linked_cases [of p e vs fuel t])
    case (refused q e' f e'')
    then show ?thesis
      using reachable_step [OF adv host_complete, of "Return (A_Request q)" e' vs "rq_task q" "rq_ticket q"
          "HE_Complete (Err (v_error vs f))"] by simp
  qed (use adv in auto)
qed

lemma linked_authorize_Ok:
  "linked_authorize p im t = Ok res \<longleftrightarrow>
     (\<exists>b. get (lp_bindings p) im = Some b \<and> authorize t (ib_handle b) (lp_owner p) (ib_method b) = Ok res)"
  by (auto simp: linked_authorize_def simp del: get_Some_iff)

lemma linked_new_Ok:
  "linked_new img bindings t owner = Ok p \<longleftrightarrow>
     validate img = Ok () \<and> length bindings = img_imports img \<and>
     p = \<lparr>lp_image = img, lp_bindings = bindings, lp_owner = owner\<rparr> \<and>
     (\<forall>im < length bindings. \<exists>res. linked_authorize p (im mod 2 ^ 32) t = Ok res)"
  by (auto simp: linked_new_def Let_def)

section \<open>A linked sample\<close>

definition demo_binding :: import_binding where
  "demo_binding = \<lparr>ib_handle = sample_child, ib_method = 0\<rparr>"

definition demo_linked :: "(nat, nat) linked_program" where
  "demo_linked = \<lparr>lp_image = demo_asks, lp_bindings = replicate 4 demo_binding, lp_owner = 20\<rparr>"

lemma demo_link: "linked_new demo_asks (replicate 4 demo_binding) sample_table 20 = Ok demo_linked"
  by (auto simp: linked_new_Ok demo_valid demo_linked_def linked_authorize_Ok demo_binding_def sample_authorize)
    (simp add: demo_asks_def demo_program_def)

section \<open>The contract of linking\<close>

text \<open>
  C20: a linked program was authorized import by import when it was linked, and is authorized again
  at every request. \<open>advance_linked\<close> always returns an action and stays within the executions a
  host can reach; a request it passes on names a bound import whose handle authorizes the bound
  method for the owner at that moment, and the requesting task waits for it. A request that fails
  the check never reaches the host: the machine takes the refusal as the answer, so the task does
  not wait for it any more, and the turn ends as a yield.
\<close>

theorem linked_dispatch_authorized:
  assumes "linked_new img bindings t0 owner = Ok p" "reachable img e"
  shows "(\<forall>im < img_imports img. im < 2 ^ 32 \<longrightarrow> (\<exists>res. linked_authorize p im t0 = Ok res)) \<and>
    (\<exists>a e'. advance_linked vs p t e fuel = (Return a, e') \<and> reachable img e' \<and>
       (\<forall>q. a = A_Request q \<longrightarrow> waits e' (rq_task q) (rq_ticket q) \<and>
          (\<exists>b res. get bindings (rq_import q) = Some b \<and>
             authorize t (ib_handle b) owner (ib_method b) = Ok res)) \<and>
       (\<forall>q e1 f. advance vs img e fuel = (Return (A_Request q), e1) \<and>
          linked_authorize p (rq_import q) t = Err f \<longrightarrow>
          a = A_Yielded \<and> \<not> waits e' (rq_task q) (rq_ticket q)))"
proof -
  have p: "lp_image p = img" "lp_bindings p = bindings" "lp_owner p = owner"
    and "\<forall>im < img_imports img. \<exists>res. linked_authorize p (im mod 2 ^ 32) t0 = Ok res"
    using assms(1) unfolding linked_new_Ok by auto
  then have link: "\<forall>im < img_imports img. im < 2 ^ 32 \<longrightarrow> (\<exists>res. linked_authorize p im t0 = Ok res)"
    by (metis mod_less)
  have inv: "exec_inv (lp_image p) e" using reachable_inv [OF assms(2)] p by simp
  have next_state: "reachable img (snd (advance_linked vs p t e fuel))"
    using advance_linked_reachable [of p e vs t fuel] assms(2) p by simp
  from inv show ?thesis
  proof (cases rule: advance_linked_cases [of p e vs fuel t])
    case (authorized q e' res)
    then have "waits e' (rq_task q) (rq_ticket q)"
      using advance_ends [OF inv, of vs fuel] by (auto simp: action_ok_def)
    moreover obtain b where "get bindings (rq_import q) = Some b"
      "authorize t (ib_handle b) owner (ib_method b) = Ok res"
      using authorized(2) p linked_authorize_Ok by blast
    ultimately show ?thesis
      using authorized link next_state p by (auto simp del: get_Some_iff)
  qed (use link next_state p in auto)
qed

theorem linked_dispatch_authorized_witness:
  "\<exists>q e'. advance_linked demo_vals demo_linked sample_table demo_start 3 = (Return (A_Request q), e') \<and>
     waits e' (rq_task q) (rq_ticket q) \<and> (\<exists>res. authorize sample_table sample_child 20 0 = Ok res)"
proof -
  obtain q where q: "advance demo_vals demo_asks demo_start 3 = (Return (A_Request q), demo_waiting)"
    using demo_first by blast
  then have im: "rq_import q < 4" by (auto simp: eval_defs)
  then have "linked_authorize demo_linked (rq_import q) sample_table = Ok 7"
    by (auto simp: linked_authorize_Ok demo_linked_def demo_binding_def sample_authorize)
  then have "advance_linked demo_vals demo_linked sample_table demo_start 3 =
      (Return (A_Request q), demo_waiting)"
    using q by (simp add: advance_linked_def demo_linked_def)
  then show ?thesis
    using linked_dispatch_authorized [OF demo_link demo_asks_reachable, of demo_vals sample_table 3]
    by (auto simp: demo_binding_def)
qed

text \<open>
  C21: revocation reaches running programs. Once a handle has been revoked, whatever calls the table
  sees afterwards, no linked program is passed a request for an import bound to that handle or to
  one delegated from it.
\<close>

theorem revoked_import_blocked:
  assumes "table_inv t None" "revoke t k owner = (Ok (), t1)" "table_step\<^sup>*\<^sup>* t1 t2"
    and "reachable (lp_image p) e" "get (lp_bindings p) im = Some b" "under t (ib_handle b) k"
    and "advance_linked vs p t2 e fuel = (Return (A_Request q), e')"
  shows "rq_import q \<noteq> im"
proof
  assume im: "rq_import q = im"
  note stale = revoked_stays_stale [OF assms(1-3,6)]
  from reachable_inv [OF assms(4)] show False
  proof (cases rule: advance_linked_cases [of p e vs fuel t2])
    case (authorized q' e'' res)
    then show ?thesis using assms(5,7) im stale by (auto simp: linked_authorize_Ok)
  qed (use assms(7) in auto)
qed

theorem revoked_import_blocked_witness:
  "\<exists>q. fst (advance demo_vals demo_asks demo_start 3) = Return (A_Request q) \<and>
     fst (advance_linked demo_vals demo_linked (snd (revoke sample_table sample_parent 10)) demo_start 3) \<noteq>
       Return (A_Request q)"
proof -
  obtain q where q: "advance demo_vals demo_asks demo_start 3 = (Return (A_Request q), demo_waiting)"
    using demo_first by blast
  then have "rq_import q < 4" by (auto simp: eval_defs)
  then have b: "get (lp_bindings demo_linked) (rq_import q) = Some demo_binding"
    by (simp add: demo_linked_def)
  have "under sample_table (ib_handle demo_binding) sample_parent" "reachable (lp_image demo_linked) demo_start"
    using sample_under demo_asks_reachable by (simp_all add: demo_binding_def demo_linked_def)
  from revoked_import_blocked [OF sample_inv(2) sample_calls(3) rtranclp.rtrancl_refl this(2) b this(1)]
  show ?thesis using q by (metis fst_conv prod.collapse)
qed

end
