(* ===== verification/Analysis.thy ===== *)
theory Analysis
  imports Program_Image
begin

text \<open>
  Structural resource bounds of an image (\<open>xolotl-core/src/analysis.rs\<close>): a depth-first search with
  one slot per instruction, which doubles as the work stack. \<open>None\<close> as a bound means that none was
  established.
\<close>

section \<open>Data\<close>

record resource_requirements =
  rr_tasks :: "usize option"
  rr_frames_per_task :: "usize option"
  rr_frames :: "usize option"
  rr_bindings_per_task :: usize

datatype visit = Unseen | Active | Complete

record usage =
  us_own :: "usize option"
  us_child :: "usize option"
  us_tasks :: "usize option"
  us_frames :: "usize option"

record analysis_slot =
  an_visit :: visit
  an_parent :: "usize option"
  an_edge :: usize
  an_usage :: usage

definition usage_default :: usage where
  "usage_default = \<lparr>us_own = Some 0, us_child = Some 0, us_tasks = Some 1, us_frames = Some 0\<rparr>"

definition slot_fresh :: analysis_slot where
  "slot_fresh = \<lparr>an_visit = Unseen, an_parent = None, an_edge = 0, an_usage = usage_default\<rparr>"

definition maximum :: "usize option \<Rightarrow> usize option \<Rightarrow> usize option" where
  "maximum a b = (case (a, b) of (Some x, Some y) \<Rightarrow> Some (max x y) | _ \<Rightarrow> None)"

definition sum_opt :: "usize option \<Rightarrow> usize option \<Rightarrow> usize option" where
  "sum_opt a b = (case (a, b) of (Some x, Some y) \<Rightarrow> checked_add usize_max x y | _ \<Rightarrow> None)"

section \<open>Edges\<close>

record edge =
  eg_entry :: u32
  eg_frames :: usize
  eg_fork :: bool

abbreviation local_edge :: "u32 \<Rightarrow> usize \<Rightarrow> edge option" where
  "local_edge entry frames \<equiv> Some \<lparr>eg_entry = entry, eg_frames = frames, eg_fork = False\<rparr>"

abbreviation fork_edge :: "u32 \<Rightarrow> edge option" where
  "fork_edge entry \<equiv> Some \<lparr>eg_entry = entry, eg_frames = 0, eg_fork = True\<rparr>"

fun kind_edges :: "('v, 'e) node_kind \<Rightarrow> edge option list" where
  "kind_edges (N_Then first next) = [local_edge first 2, local_edge next 1, None]"
| "kind_edges (N_Catch body recover) = [local_edge body 2, local_edge recover 1, None]"
| "kind_edges (N_Finally body cleanup) = [local_edge body 2, local_edge cleanup 2, None]"
| "kind_edges (N_If yes no) = [local_edge yes 1, local_edge no 1, None]"
| "kind_edges (N_Branch condition yes no) =
     [local_edge condition 2, local_edge yes 1, local_edge no 1]"
| "kind_edges (N_Let _ value body) = [local_edge value 2, local_edge body 2, None]"
| "kind_edges (N_While condition body _) = [local_edge condition 2, local_edge body 2, None]"
| "kind_edges (N_Fork left right _) = [fork_edge left, fork_edge right, None]"
| "kind_edges (N_Call entry) = [local_edge entry 1, None, None]"
| "kind_edges (N_Scope _ body) = [local_edge body 2, None, None]"
| "kind_edges _ = [None, None, None]"

definition edges :: "('v, 'e) node \<Rightarrow> edge option list" where
  "edges n = kind_edges (nd_kind n) @ [case nd_next n of Some entry \<Rightarrow> local_edge entry 0 | None \<Rightarrow> None]"

fun is_fork :: "('v, 'e) node_kind \<Rightarrow> bool" where
  "is_fork (N_Fork _ _ _) = True"
| "is_fork _ = False"

section \<open>Usage of a node\<close>

text \<open>A child still on the stack is part of a cycle: its frames are unbounded.\<close>

definition child_usage :: "analysis_slot \<Rightarrow> usage" where
  "child_usage s =
     (if an_visit s = Active
      then usage_default\<lparr>us_own := None, us_child := None, us_frames := None\<rparr> else an_usage s)"

definition add_edge :: "edge \<Rightarrow> usage \<Rightarrow> usage \<times> usize option \<times> usize option \<Rightarrow>
    usage \<times> usize option \<times> usize option" where
  "add_edge e child acc =
     (case acc of (u, fork_tasks, fork_frames) \<Rightarrow>
        if eg_fork e then
          (u\<lparr>us_child := maximum (us_child u) (maximum (us_own child) (us_child child))\<rparr>,
           sum_opt fork_tasks (us_tasks child), sum_opt fork_frames (us_frames child))
        else
          (u\<lparr>us_own := maximum (us_own u) (sum_opt (Some (eg_frames e)) (us_own child)),
             us_child := maximum (us_child u) (us_child child),
             us_tasks := maximum (us_tasks u) (us_tasks child),
             us_frames := maximum (us_frames u) (sum_opt (Some (eg_frames e)) (us_frames child))\<rparr>,
           fork_tasks, fork_frames))"

definition combine_usage :: "(u32 \<Rightarrow> usage) \<Rightarrow> edge option list \<Rightarrow> usage" where
  "combine_usage child es =
     (let (u, fork_tasks, fork_frames) =
        foldl (\<lambda>acc e. case e of None \<Rightarrow> acc | Some e \<Rightarrow> add_edge e (child (eg_entry e)) acc)
          (usage_default, Some 1, Some 0) es
      in u\<lparr>us_tasks := maximum (us_tasks u) fork_tasks, us_frames := maximum (us_frames u) fork_frames\<rparr>)"

section \<open>The search\<close>

record search =
  sr_current :: usize
  sr_scratch :: "analysis_slot list"
  sr_cyclic :: bool
  sr_forks :: bool

abbreviation update_slot :: "usize \<Rightarrow> (analysis_slot \<Rightarrow> analysis_slot) \<Rightarrow> search \<Rightarrow> search" where
  "update_slot i f s \<equiv> s\<lparr>sr_scratch := (sr_scratch s)[i := f (sr_scratch s ! i)]\<rparr>"

text \<open>The next edge of the current node, when it has one left.\<close>

definition search_edge :: "usize \<Rightarrow> edge option \<Rightarrow> search \<Rightarrow> search" where
  "search_edge base e s =
     (let cur = sr_current s; s = update_slot cur (\<lambda>a. a\<lparr>an_edge := an_edge a + 1\<rparr>) s in
      case e of
        None \<Rightarrow> s
      | Some e \<Rightarrow>
          let child = eg_entry e - base in
          (case an_visit (sr_scratch s ! child) of
             Unseen \<Rightarrow>
               (update_slot child (\<lambda>a. a\<lparr>an_visit := Active, an_parent := Some cur\<rparr>) s)\<lparr>sr_current := child\<rparr>
           | Active \<Rightarrow> s\<lparr>sr_cyclic := True\<rparr>
           | Complete \<Rightarrow> s))"

text \<open>All edges are done: record the usage, which is the node's final one, and return to the parent.\<close>

definition search_complete :: "usize \<Rightarrow> edge option list \<Rightarrow> search \<Rightarrow> search" where
  "search_complete base es s =
     update_slot (sr_current s)
       (\<lambda>a. a\<lparr>an_usage := combine_usage (\<lambda>entry. child_usage (sr_scratch s ! (entry - base))) es,
              an_visit := Complete\<rparr>) s"

definition requirements :: "('v, 'e) image \<Rightarrow> search \<Rightarrow> resource_requirements" where
  "requirements img s =
     (let u = an_usage (sr_scratch s ! sr_current s) in
      \<lparr>rr_tasks = (if sr_cyclic s \<and> sr_forks s then None else us_tasks u),
       rr_frames_per_task = (if sr_cyclic s then None else maximum (us_own u) (us_child u)),
       rr_frames = (if sr_cyclic s then None else us_frames u),
       rr_bindings_per_task = img_bindings img\<rparr>)"

text \<open>
  The loop. Indexing out of range, which panics in the source, is \<open>None\<close>, and so is a loop that
  does not end.
\<close>

partial_function (option) search_loop ::
  "('v, 'e) image \<Rightarrow> usize \<Rightarrow> ('v, 'e) node list \<Rightarrow> search \<Rightarrow> resource_requirements option" where
  "search_loop img base code s =
     (if length code \<le> sr_current s \<or> length (sr_scratch s) \<le> sr_current s then None
      else
        let n = code ! sr_current s; es = edges n;
            s = s\<lparr>sr_forks := sr_forks s \<or> is_fork (nd_kind n)\<rparr>
        in if list_ex (\<lambda>e. case e of None \<Rightarrow> False | Some e \<Rightarrow>
             eg_entry e < base \<or> length (sr_scratch s) \<le> eg_entry e - base) es then None
           else if an_edge (sr_scratch s ! sr_current s) < length es
           then search_loop img base code (search_edge base (es ! an_edge (sr_scratch s ! sr_current s)) s)
           else
             let s = search_complete base es s in
             case an_parent (sr_scratch s ! sr_current s) of
               Some parent \<Rightarrow> search_loop img base code (s\<lparr>sr_current := parent\<rparr>)
             | None \<Rightarrow> Some (requirements img s))"

definition module_requirements ::
  "('v, 'e) image \<Rightarrow> u32 \<Rightarrow> usize \<times> usize \<Rightarrow> analysis_slot list \<Rightarrow>
   (resource_requirements, fault) comp" where
  "module_requirements img entry span scratch =
     (case span of (lo, hi) \<Rightarrow>
        let inside = (\<lambda>i. lo \<le> i \<and> i < hi) in
        if img_version img \<noteq> image_version_1 then Raise Fault_Version
        else if hi < lo \<or> length (img_nodes img) < hi then Raise Fault_InvalidNode
        else if \<not> inside entry then Raise Fault_InvalidNode
        else
          let code = take (hi - lo) (drop lo (img_nodes img)) in
          case try_each (visit_indices
              (\<lambda>i. if inside i then Ok () else Err Fault_InvalidNode)
              (\<lambda>i. if i < img_imports img then Ok () else Err Fault_InvalidImport)
              (\<lambda>i. if i < img_bindings img then Ok () else Err Fault_InvalidBinding)) code of
            Err f \<Rightarrow> Raise f
          | Ok _ \<Rightarrow>
              if length scratch < length code then Raise Fault_AnalysisCapacity
              else
                let slots = (replicate (length code) slot_fresh)
                      [entry - lo := slot_fresh\<lparr>an_visit := Active\<rparr>]
                in (case search_loop img lo code
                        \<lparr>sr_current = entry - lo, sr_scratch = slots, sr_cyclic = False, sr_forks = False\<rparr> of
                      None \<Rightarrow> Panic
                    | Some r \<Rightarrow> Return r))"

definition image_requirements ::
  "('v, 'e) image \<Rightarrow> analysis_slot list \<Rightarrow> (resource_requirements, fault) comp" where
  "image_requirements img scratch =
     module_requirements img (img_entry img) (0, length (img_nodes img)) scratch"

section \<open>The search is complete\<close>

lemma length_edges [simp]: "length (edges n) = 4"
  by (cases "nd_kind n") (auto simp: edges_def)

text \<open>\<open>stk\<close> lists the nodes under examination, the current one first; \<open>edge_to\<close> is the child an edge
  leads to.\<close>

definition edge_to :: "usize \<Rightarrow> ('v, 'e) node list \<Rightarrow> nat \<Rightarrow> nat \<Rightarrow> nat \<Rightarrow> bool" where
  "edge_to base code i j c \<longleftrightarrow>
     j < 4 \<and> (\<exists>e. edges (code ! i) ! j = Some e \<and> c = eg_entry e - base)"

definition above :: "nat list \<Rightarrow> nat \<Rightarrow> nat \<Rightarrow> bool" where
  "above stk c i \<longleftrightarrow> (\<exists>m. Suc m < length stk \<and> stk ! m = c \<and> stk ! Suc m = i)"

definition stack_ok :: "analysis_slot list \<Rightarrow> nat \<Rightarrow> nat list \<Rightarrow> bool" where
  "stack_ok slots root stk \<longleftrightarrow>
     stk \<noteq> [] \<and> last stk = root \<and> distinct stk \<and>
     (\<forall>i < length slots. an_visit (slots ! i) = Active \<longleftrightarrow> i \<in> set stk) \<and>
     (\<forall>i \<in> set stk. i < length slots) \<and>
     (\<forall>c i. above stk c i \<longrightarrow> an_parent (slots ! c) = Some i) \<and> an_parent (slots ! root) = None"

definition slots_ok ::
  "usize \<Rightarrow> ('v, 'e) node list \<Rightarrow> analysis_slot list \<Rightarrow> bool \<Rightarrow> bool \<Rightarrow> nat list \<Rightarrow> bool" where
  "slots_ok base code slots cyclic forks stk \<longleftrightarrow>
     length slots = length code \<and>
     (\<forall>i < length code. an_edge (slots ! i) \<le> 4 \<and>
        (an_visit (slots ! i) = Unseen \<longrightarrow> an_edge (slots ! i) = 0) \<and>
        (\<forall>j < an_edge (slots ! i). \<forall>c. edge_to base code i j c \<longrightarrow>
           an_visit (slots ! c) \<noteq> Unseen \<and>
           (an_visit (slots ! c) = Active \<longrightarrow> cyclic \<or> above stk c i)) \<and>
        (an_visit (slots ! i) = Complete \<longrightarrow>
           an_edge (slots ! i) = 4 \<and> (is_fork (nd_kind (code ! i)) \<longrightarrow> forks) \<and>
           (\<not> cyclic \<longrightarrow> an_usage (slots ! i) =
              combine_usage (\<lambda>entry. an_usage (slots ! (entry - base))) (edges (code ! i)))) \<and>
        (\<not> forks \<longrightarrow> us_tasks (an_usage (slots ! i)) = Some 1))"

definition search_ok ::
  "usize \<Rightarrow> ('v, 'e) node list \<Rightarrow> nat \<Rightarrow> search \<Rightarrow> nat list \<Rightarrow> bool" where
  "search_ok base code root s stk \<longleftrightarrow>
     stack_ok (sr_scratch s) root stk \<and> sr_current s = hd stk \<and>
     slots_ok base code (sr_scratch s) (sr_cyclic s) (sr_forks s) stk"

text \<open>Every edge leads into the module.\<close>

definition code_ok :: "usize \<Rightarrow> ('v, 'e) node list \<Rightarrow> bool" where
  "code_ok base code \<longleftrightarrow>
     (\<forall>n \<in> set code. \<forall>e. Some e \<in> set (edges n) \<longrightarrow> base \<le> eg_entry e \<and> eg_entry e - base < length code)"

definition slot_left :: "analysis_slot \<Rightarrow> nat" where
  "slot_left a = (4 - an_edge a) + (if an_visit a = Complete then 0 else 1)"

definition search_left :: "search \<Rightarrow> nat" where
  "search_left s = sum_list (map slot_left (sr_scratch s))"

lemma slot_left_update:
  assumes "i < length slots"
  shows "sum_list (map slot_left (slots[i := a])) + slot_left (slots ! i) =
    sum_list (map slot_left slots) + slot_left a"
proof -
  have "slot_left (slots ! i) \<le> sum_list (map slot_left slots)"
    using assms by (intro member_le_sum_list) simp_all
  then show ?thesis using assms by (simp add: map_update sum_list_update)
qed

lemma code_okD:
  "code_ok base code \<Longrightarrow> i < length code \<Longrightarrow> Some e \<in> set (edges (code ! i)) \<Longrightarrow>
   base \<le> eg_entry e \<and> eg_entry e - base < length code"
  unfolding code_ok_def using nth_mem by blast

lemma edge_to_bound: "code_ok base code \<Longrightarrow> i < length code \<Longrightarrow> edge_to base code i j c \<Longrightarrow> c < length code"
  unfolding code_ok_def edge_to_def by (metis length_edges nth_mem)

text \<open>Combining usages looks at the targets of the edges only.\<close>

lemma combine_usage_cong:
  assumes "\<And>e. Some e \<in> set es \<Longrightarrow> f (eg_entry e) = g (eg_entry e)"
  shows "combine_usage f es = combine_usage g es"
proof -
  have "foldl (\<lambda>acc e. case e of None \<Rightarrow> acc | Some e \<Rightarrow> add_edge e (f (eg_entry e)) acc) z es =
      foldl (\<lambda>acc e. case e of None \<Rightarrow> acc | Some e \<Rightarrow> add_edge e (g (eg_entry e)) acc) z es" for z
    by (rule foldl_cong) (use assms in \<open>auto split: option.splits\<close>)
  then show ?thesis by (simp add: combine_usage_def)
qed

lemma above_bound: "above stk c i \<Longrightarrow> c \<in> set stk \<and> i \<in> set stk"
  unfolding above_def by (metis Suc_lessD nth_mem)

lemma above_Cons: "above (a # stk) c i \<longleftrightarrow> (a = c \<and> stk \<noteq> [] \<and> hd stk = i) \<or> above stk c i"
proof
  assume "above (a # stk) c i"
  then obtain m where "Suc m < length (a # stk)" "(a # stk) ! m = c" "(a # stk) ! Suc m = i"
    by (auto simp: above_def)
  then show "(a = c \<and> stk \<noteq> [] \<and> hd stk = i) \<or> above stk c i"
    by (cases m) (auto simp: above_def hd_conv_nth)
next
  assume "(a = c \<and> stk \<noteq> [] \<and> hd stk = i) \<or> above stk c i"
  then show "above (a # stk) c i"
  proof
    assume "a = c \<and> stk \<noteq> [] \<and> hd stk = i"
    then show ?thesis by (auto simp: above_def hd_conv_nth intro!: exI [of _ 0])
  next
    assume "above stk c i"
    then obtain m where "Suc m < length stk" "stk ! m = c" "stk ! Suc m = i" by (auto simp: above_def)
    then show ?thesis by (auto simp: above_def intro!: exI [of _ "Suc m"])
  qed
qed

lemma search_ok_forks:
  "search_ok base code root s stk \<Longrightarrow> search_ok base code root (s\<lparr>sr_forks := sr_forks s \<or> b\<rparr>) stk"
  by (auto simp: search_ok_def slots_ok_def)

lemma stack_ok_cong:
  assumes ok: "stack_ok slots root stk" and len: "length slots' = length slots"
    and visit: "\<And>i. i < length slots \<Longrightarrow> an_visit (slots' ! i) = an_visit (slots ! i)"
    and parent: "\<And>i. i < length slots \<Longrightarrow> an_parent (slots' ! i) = an_parent (slots ! i)"
  shows "stack_ok slots' root stk"
proof -
  have stk: "stk \<noteq> []" "last stk = root" "distinct stk" and inside: "\<forall>i \<in> set stk. i < length slots"
    and active: "\<forall>i < length slots. an_visit (slots ! i) = Active \<longleftrightarrow> i \<in> set stk"
    and parents: "\<And>c i. above stk c i \<Longrightarrow> an_parent (slots ! c) = Some i" "an_parent (slots ! root) = None"
    using ok by (simp_all add: stack_ok_def)
  have "an_parent (slots' ! c) = Some i" if "above stk c i" for c i
    using parent parents(1) [OF that] above_bound [OF that] inside by simp
  moreover have "an_parent (slots' ! root) = None"
    using parent parents(2) last_in_set [OF stk(1)] stk(2) inside by auto
  ultimately show ?thesis using stk inside active by (simp add: stack_ok_def len visit)
qed

lemma stack_ok_current:
  assumes "stack_ok slots root stk"
  shows "hd stk < length slots" "an_visit (slots ! hd stk) = Active" "stk = hd stk # tl stk"
  using assms hd_in_set [of stk] by (auto simp: stack_ok_def)

lemma slots_okD:
  assumes "slots_ok base code slots cyclic forks stk" "i < length code"
  shows "an_edge (slots ! i) \<le> 4" "an_visit (slots ! i) = Unseen \<Longrightarrow> an_edge (slots ! i) = 0"
    "j < an_edge (slots ! i) \<Longrightarrow> edge_to base code i j c \<Longrightarrow>
       an_visit (slots ! c) \<noteq> Unseen \<and> (an_visit (slots ! c) = Active \<longrightarrow> cyclic \<or> above stk c i)"
    "an_visit (slots ! i) = Complete \<Longrightarrow>
       an_edge (slots ! i) = 4 \<and> (is_fork (nd_kind (code ! i)) \<longrightarrow> forks) \<and>
       (\<not> cyclic \<longrightarrow> an_usage (slots ! i) =
          combine_usage (\<lambda>entry. an_usage (slots ! (entry - base))) (edges (code ! i)))"
    "\<not> forks \<Longrightarrow> us_tasks (an_usage (slots ! i)) = Some 1"
  using assms unfolding slots_ok_def by blast+

text \<open>A change that keeps every usage and moves one node from \<open>Unseen\<close> to \<open>Active\<close> at most.\<close>

lemma slots_ok_change:
  assumes ok: "slots_ok base code slots cyclic forks stk" and len: "length slots' = length code"
    and flags: "cyclic \<longrightarrow> cyclic'"
    and usage: "\<And>i. i < length code \<Longrightarrow> an_usage (slots' ! i) = an_usage (slots ! i)"
    and seen: "\<And>i. i < length code \<Longrightarrow> an_visit (slots' ! i) = an_visit (slots ! i) \<or>
      an_visit (slots ! i) = Unseen \<and> an_visit (slots' ! i) = Active"
    and stack: "\<And>c i. above stk c i \<Longrightarrow> above stk' c i"
    and edge: "\<And>i. i < length code \<Longrightarrow> an_edge (slots' ! i) = an_edge (slots ! i) \<or>
      an_visit (slots ! i) = Active \<and> an_edge (slots ! i) < 4 \<and> an_edge (slots' ! i) = an_edge (slots ! i) + 1 \<and>
      (\<forall>c. edge_to base code i (an_edge (slots ! i)) c \<longrightarrow>
         an_visit (slots' ! c) \<noteq> Unseen \<and> (an_visit (slots' ! c) = Active \<longrightarrow> cyclic' \<or> above stk' c i))"
    and code: "code_ok base code"
  shows "slots_ok base code slots' cyclic' forks stk'"
  unfolding slots_ok_def
proof (intro conjI allI impI)
  show "length slots' = length code" by (rule len)
next
  fix i assume i: "i < length code"
  note old = slots_okD [OF ok i]
  show "an_edge (slots' ! i) \<le> 4" using old(1) edge [OF i] by linarith
  show "an_edge (slots' ! i) = 0" if "an_visit (slots' ! i) = Unseen"
  proof -
    have "an_visit (slots ! i) = Unseen" using seen [OF i] that by auto
    with old(2) edge [OF i] show ?thesis by force
  qed
  show "us_tasks (an_usage (slots' ! i)) = Some 1" if "\<not> forks" using old(5) [OF that] usage [OF i] by simp
  have closed: "an_visit (slots ! i) = Complete" if "an_visit (slots' ! i) = Complete"
    using seen [OF i] that by auto
  show "forks" if "an_visit (slots' ! i) = Complete" "is_fork (nd_kind (code ! i))"
    using old(4) [OF closed [OF that(1)]] that(2) by simp
  show "an_edge (slots' ! i) = 4" if "an_visit (slots' ! i) = Complete"
  proof -
    have "an_edge (slots ! i) = 4" using old(4) [OF closed [OF that]] by simp
    with edge [OF i] show ?thesis by linarith
  qed
  show "an_usage (slots' ! i) =
      combine_usage (\<lambda>entry. an_usage (slots' ! (entry - base))) (edges (code ! i))"
    if "an_visit (slots' ! i) = Complete" "\<not> cyclic'"
  proof -
    have "an_usage (slots ! i) = combine_usage (\<lambda>entry. an_usage (slots ! (entry - base))) (edges (code ! i))"
      using old(4) [OF closed [OF that(1)]] that(2) flags by simp
    also have "\<dots> = combine_usage (\<lambda>entry. an_usage (slots' ! (entry - base))) (edges (code ! i))"
      by (rule combine_usage_cong) (use usage code_okD [OF code i] in simp)
    finally show ?thesis using usage [OF i] by simp
  qed
  fix j c
  assume j: "j < an_edge (slots' ! i)" and c: "edge_to base code i j c"
  have len_c: "c < length code" using edge_to_bound [OF code i c] .
  have "an_visit (slots' ! c) \<noteq> Unseen \<and> (an_visit (slots' ! c) = Active \<longrightarrow> cyclic' \<or> above stk' c i)"
  proof (cases "j < an_edge (slots ! i)")
    case True
    then have "an_visit (slots ! c) \<noteq> Unseen" "an_visit (slots ! c) = Active \<longrightarrow> cyclic \<or> above stk c i"
      using old(3) [OF _ c] by simp_all
    then show ?thesis using seen [OF len_c] flags stack by auto
  next
    case False
    then have "an_edge (slots' ! i) \<noteq> an_edge (slots ! i)" using j by linarith
    with edge [OF i] have new: "an_edge (slots' ! i) = an_edge (slots ! i) + 1"
      and kept: "\<And>c. edge_to base code i (an_edge (slots ! i)) c \<Longrightarrow>
        an_visit (slots' ! c) \<noteq> Unseen \<and> (an_visit (slots' ! c) = Active \<longrightarrow> cyclic' \<or> above stk' c i)"
      by blast+
    have "j = an_edge (slots ! i)" using new False j by linarith
    with c show ?thesis using kept by blast
  qed
  then show "an_visit (slots' ! c) \<noteq> Unseen"
    "an_visit (slots' ! c) = Active \<Longrightarrow> cyclic' \<or> above stk' c i" by auto
qed


lemma search_okD:
  assumes "search_ok base code root s stk"
  shows "stack_ok (sr_scratch s) root stk" "sr_current s = hd stk" "stk = sr_current s # tl stk"
    "sr_current s < length code" "length (sr_scratch s) = length code"
    "an_visit (sr_scratch s ! sr_current s) = Active"
    "slots_ok base code (sr_scratch s) (sr_cyclic s) (sr_forks s) stk"
  using assms stack_ok_current [of "sr_scratch s" root stk] by (auto simp: search_ok_def slots_ok_def)

text \<open>An edge that leads to no new node.\<close>

lemma stay_ok:
  assumes ok: "search_ok base code root s stk" and code: "code_ok base code"
    and edge: "an_edge (sr_scratch s ! sr_current s) < 4"
    and child: "\<And>c. edge_to base code (sr_current s) (an_edge (sr_scratch s ! sr_current s)) c \<Longrightarrow>
      an_visit (sr_scratch s ! c) \<noteq> Unseen \<and> (an_visit (sr_scratch s ! c) = Active \<longrightarrow> cyclic)"
    and flag: "sr_cyclic s \<longrightarrow> cyclic"
  shows "search_ok base code root
    ((update_slot (sr_current s) (\<lambda>a. a\<lparr>an_edge := an_edge a + 1\<rparr>) s)\<lparr>sr_cyclic := cyclic\<rparr>) stk"
proof -
  define slots' where
    "slots' = (sr_scratch s)[sr_current s := (sr_scratch s ! sr_current s)
       \<lparr>an_edge := an_edge (sr_scratch s ! sr_current s) + 1\<rparr>]"
  note old = search_okD [OF ok]
  have same: "an_visit (slots' ! i) = an_visit (sr_scratch s ! i)"
    "an_parent (slots' ! i) = an_parent (sr_scratch s ! i)"
    "an_usage (slots' ! i) = an_usage (sr_scratch s ! i)" for i
    using old(4,5) by (simp_all add: slots'_def nth_list_update)
  have stack: "stack_ok slots' root stk"
    by (rule stack_ok_cong [OF old(1)]) (simp_all only: same, simp add: slots'_def)
  have "slots_ok base code slots' cyclic (sr_forks s) stk"
  proof (rule slots_ok_change [OF old(7) _ flag _ _ _ _ code])
    fix i
    show "an_edge (slots' ! i) = an_edge (sr_scratch s ! i) \<or>
      an_visit (sr_scratch s ! i) = Active \<and> an_edge (sr_scratch s ! i) < 4 \<and>
      an_edge (slots' ! i) = an_edge (sr_scratch s ! i) + 1 \<and>
      (\<forall>c. edge_to base code i (an_edge (sr_scratch s ! i)) c \<longrightarrow>
         an_visit (slots' ! c) \<noteq> Unseen \<and> (an_visit (slots' ! c) = Active \<longrightarrow> cyclic \<or> above stk c i))"
    proof (cases "i = sr_current s")
      case True
      then have "an_edge (slots' ! i) = an_edge (sr_scratch s ! i) + 1"
        using old(4,5) by (simp add: slots'_def)
      then show ?thesis using True edge child old(6) by (simp add: same)
    next
      case False
      then show ?thesis by (simp add: slots'_def)
    qed
  qed (use same old(5) in \<open>simp_all add: slots'_def\<close>)
  with stack old(2) show ?thesis by (simp add: search_ok_def slots'_def)
qed

text \<open>An edge to a node not seen before.\<close>

lemma descend_ok:
  assumes ok: "search_ok base code root s stk" and code: "code_ok base code"
    and edge: "an_edge (sr_scratch s ! sr_current s) < 4"
    and child: "edge_to base code (sr_current s) (an_edge (sr_scratch s ! sr_current s)) c"
      "an_visit (sr_scratch s ! c) = Unseen"
  shows "search_ok base code root
    ((update_slot c (\<lambda>a. a\<lparr>an_visit := Active, an_parent := Some (sr_current s)\<rparr>)
      (update_slot (sr_current s) (\<lambda>a. a\<lparr>an_edge := an_edge a + 1\<rparr>) s))\<lparr>sr_current := c\<rparr>) (c # stk)"
proof -
  define cur where "cur = sr_current s"
  define slots where "slots = sr_scratch s"
  define bumped where "bumped = slots[cur := (slots ! cur)\<lparr>an_edge := an_edge (slots ! cur) + 1\<rparr>]"
  define slots' where "slots' = bumped[c := (bumped ! c)\<lparr>an_visit := Active, an_parent := Some cur\<rparr>]"
  note old = search_okD [OF ok, folded cur_def slots_def]
  have c: "c < length code" "c \<noteq> cur" "an_visit (slots ! c) = Unseen"
    using edge_to_bound [OF code _ child(1)] old(4,6) child(2) by (auto simp: cur_def slots_def)
  have at: "slots' ! c = (slots ! c)\<lparr>an_visit := Active, an_parent := Some cur\<rparr>"
    "slots' ! cur = (slots ! cur)\<lparr>an_edge := an_edge (slots ! cur) + 1\<rparr>"
    "i \<noteq> c \<Longrightarrow> i \<noteq> cur \<Longrightarrow> slots' ! i = slots ! i" for i
    using c(1,2) old(4,5) by (simp_all add: slots'_def bumped_def)
  have kept: "an_visit (slots' ! i) = an_visit (slots ! i)" "an_parent (slots' ! i) = an_parent (slots ! i)"
    if "i \<noteq> c" for i
    using at(2) at(3) [OF that] by (cases "i = cur"; simp)+
  have len: "length slots' = length code" using old(5) by (simp add: slots'_def bumped_def)
  have stack: "stack_ok slots' root (c # stk)"
  proof -
    have stk: "stk \<noteq> []" "last stk = root" "distinct stk" and inside: "\<forall>i \<in> set stk. i < length slots"
      and active: "\<forall>i < length slots. an_visit (slots ! i) = Active \<longleftrightarrow> i \<in> set stk"
      and parents: "\<And>c i. above stk c i \<Longrightarrow> an_parent (slots ! c) = Some i" "an_parent (slots ! root) = None"
      using old(1) by (simp_all add: stack_ok_def)
    have out: "c \<notin> set stk" using active c old(5) by auto
    have "an_parent (slots' ! d) = Some i" if "above (c # stk) d i" for d i
    proof (cases "d = c")
      case True
      then have "i = cur" using that above_bound [of stk c i] out old(2) by (auto simp: above_Cons)
      then show ?thesis using True at(1) by simp
    next
      case False
      then show ?thesis using that parents(1) kept(2) by (auto simp: above_Cons)
    qed
    moreover have "an_parent (slots' ! root) = None"
      using parents(2) kept(2) [of root] out last_in_set [OF stk(1)] stk(2) by auto
    moreover have "an_visit (slots' ! i) = Active \<longleftrightarrow> i \<in> set (c # stk)" if "i < length slots" for i
      using active kept(1) at(1) that by (cases "i = c") auto
    ultimately show ?thesis using stk inside out c(1) old(5) len by (simp add: stack_ok_def)
  qed
  have "slots_ok base code slots' (sr_cyclic s) (sr_forks s) (c # stk)"
  proof (rule slots_ok_change [OF old(7) len _ _ _ _ _ code])
    fix i
    show "an_usage (slots' ! i) = an_usage (slots ! i)"
      using at by (cases "i = c"; cases "i = cur") simp_all
    show "an_visit (slots' ! i) = an_visit (slots ! i) \<or>
        an_visit (slots ! i) = Unseen \<and> an_visit (slots' ! i) = Active"
      using kept(1) at(1) c(3) by (cases "i = c") simp_all
    show "an_edge (slots' ! i) = an_edge (slots ! i) \<or>
      an_visit (slots ! i) = Active \<and> an_edge (slots ! i) < 4 \<and> an_edge (slots' ! i) = an_edge (slots ! i) + 1 \<and>
      (\<forall>d. edge_to base code i (an_edge (slots ! i)) d \<longrightarrow>
         an_visit (slots' ! d) \<noteq> Unseen \<and> (an_visit (slots' ! d) = Active \<longrightarrow> sr_cyclic s \<or> above (c # stk) d i))"
    proof (cases "i = cur")
      case True
      have "d = c" if "edge_to base code cur (an_edge (slots ! cur)) d" for d
        using that child(1) by (auto simp: edge_to_def cur_def slots_def)
      moreover have "above (c # stk) c cur" using old(2,3) by (auto simp: above_Cons)
      ultimately show ?thesis using True at edge old(6) c(2) by (auto simp: cur_def slots_def)
    next
      case False
      then show ?thesis using at by (cases "i = c") simp_all
    qed
  qed (simp_all add: above_Cons)
  with stack show ?thesis by (simp add: search_ok_def slots'_def bumped_def cur_def slots_def)
qed

text \<open>Leaving a node.\<close>

lemma above_distinct: "distinct (a # stk) \<Longrightarrow> \<not> above (a # stk) c a"
  using above_bound [of stk c a] by (auto simp: above_Cons)

lemma combine_usage_tasks:
  assumes "\<And>e. Some e \<in> set es \<Longrightarrow> \<not> eg_fork e \<and> us_tasks (child (eg_entry e)) = Some 1"
  shows "us_tasks (combine_usage child es) = Some 1"
proof -
  have "us_tasks (fst z) = Some 1 \<and> fst (snd z) = Some 1 \<Longrightarrow>
      (let r = foldl (\<lambda>acc e. case e of None \<Rightarrow> acc | Some e \<Rightarrow> add_edge e (child (eg_entry e)) acc) z es in
       us_tasks (fst r) = Some 1 \<and> fst (snd r) = Some 1)" for z
    using assms
  proof (induction es arbitrary: z)
    case (Cons e es)
    show ?case
    proof (cases e)
      case None
      then show ?thesis using Cons.IH [OF Cons.prems(1)] Cons.prems(2) by simp
    next
      case (Some e')
      have "us_tasks (fst (add_edge e' (child (eg_entry e')) z)) = Some 1 \<and>
          fst (snd (add_edge e' (child (eg_entry e')) z)) = Some 1"
        using Cons.prems(1) Cons.prems(2) [of e'] Some
        by (auto simp: add_edge_def maximum_def split: prod.splits)
      from Cons.IH [OF this] Cons.prems(2) show ?thesis by (simp add: Some)
    qed
  qed simp
  from this [of "(usage_default, Some 1, Some 0)"] show ?thesis
    by (auto simp: combine_usage_def Let_def usage_default_def maximum_def split: prod.splits)
qed

lemma edges_fork: "Some e \<in> set (edges n) \<Longrightarrow> eg_fork e \<Longrightarrow> is_fork (nd_kind n)"
  by (cases "nd_kind n") (auto simp: edges_def split: option.splits)

lemma edges_edge_to:
  "Some e \<in> set (edges (code ! i)) \<Longrightarrow> \<exists>j < 4. edge_to base code i j (eg_entry e - base)"
  by (metis edge_to_def in_set_conv_nth length_edges)

lemma complete_ok:
  assumes ok: "search_ok base code root s stk" and code: "code_ok base code"
    and edge: "4 \<le> an_edge (sr_scratch s ! sr_current s)"
    and forks: "is_fork (nd_kind (code ! sr_current s)) \<longrightarrow> sr_forks s"
  shows "slots_ok base code (sr_scratch (search_complete base (edges (code ! sr_current s)) s))
    (sr_cyclic s) (sr_forks s) (tl stk)"
proof -
  define cur where "cur = sr_current s"
  define slots where "slots = sr_scratch s"
  define u where "u = combine_usage (\<lambda>entry. child_usage (slots ! (entry - base))) (edges (code ! cur))"
  define slots' where "slots' = slots[cur := (slots ! cur)\<lparr>an_usage := u, an_visit := Complete\<rparr>]"
  note old = search_okD [OF ok, folded cur_def slots_def]
  note fact = slots_okD [OF old(7)]
  have stk: "distinct stk" and active: "\<forall>i < length code. an_visit (slots ! i) = Active \<longleftrightarrow> i \<in> set stk"
    using old(1,5) by (simp_all add: stack_ok_def)
  have at: "slots' ! cur = (slots ! cur)\<lparr>an_usage := u, an_visit := Complete\<rparr>"
    "i \<noteq> cur \<Longrightarrow> slots' ! i = slots ! i" for i
    using old(4,5) by (simp_all add: slots'_def)
  have edges: "an_edge (slots' ! i) = an_edge (slots ! i)" for i
    using at by (cases "i = cur") simp_all
  have cur: "an_edge (slots ! cur) = 4" using fact(1) [OF old(4)] edge by (simp add: cur_def slots_def)
  have below: "\<not> above stk c cur" for c using above_distinct stk old(3) by metis
  have closed: "an_visit (slots ! c) = Active \<longrightarrow> sr_cyclic s"
    if "edge_to base code cur j c" "j < 4" for c j
    using fact(3) [OF old(4) _ that(1)] that(2) cur below by auto
  have away: "c \<noteq> cur" if "edge_to base code i j c" "j < 4" "an_visit (slots ! i) = Complete \<or> i = cur"
    "\<not> sr_cyclic s" "i < length code" for i j c
  proof
    assume c: "c = cur"
    have "an_edge (slots ! i) = 4" using that(3,5) fact(4) cur by auto
    then have "above stk cur i" using fact(3) [OF that(5) _ that(1)] that(2,4) c old(6) by auto
    moreover have "i \<in> set stk" using above_bound [OF calculation] by simp
    ultimately show False using that(3,5) active below by (cases "i = cur") auto
  qed
  have "slots_ok base code slots' (sr_cyclic s) (sr_forks s) (tl stk)"
    unfolding slots_ok_def
  proof (intro conjI allI impI)
    show "length slots' = length code" using old(5) by (simp add: slots'_def)
  next
    fix i assume i: "i < length code"
    show "an_edge (slots' ! i) \<le> 4" using fact(1) [OF i] edges by simp
    show "an_edge (slots' ! i) = 0" if "an_visit (slots' ! i) = Unseen"
      using fact(2) [OF i] at that by (cases "i = cur") simp_all
    show "an_edge (slots' ! i) = 4" if "an_visit (slots' ! i) = Complete"
      using fact(4) [OF i] at that cur by (cases "i = cur") simp_all
    show "sr_forks s" if "an_visit (slots' ! i) = Complete" "is_fork (nd_kind (code ! i))"
      using fact(4) [OF i] at that forks by (cases "i = cur") (simp_all add: cur_def)
    show "us_tasks (an_usage (slots' ! i)) = Some 1" if free: "\<not> sr_forks s"
    proof (cases "i = cur")
      case True
      have "us_tasks u = Some 1"
        unfolding u_def
      proof (rule combine_usage_tasks)
        fix e assume e: "Some e \<in> set (edges (code ! cur))"
        have "us_tasks (an_usage (slots ! (eg_entry e - base))) = Some 1"
          using fact(5) code_okD [OF code old(4) e] free by simp
        then show "\<not> eg_fork e \<and> us_tasks (child_usage (slots ! (eg_entry e - base))) = Some 1"
          using edges_fork [OF e] forks free by (auto simp: cur_def child_usage_def usage_default_def)
      qed
      then show ?thesis using True at by simp
    next
      case False
      then show ?thesis using fact(5) [OF i free] at by simp
    qed
    show "an_usage (slots' ! i) =
        combine_usage (\<lambda>entry. an_usage (slots' ! (entry - base))) (edges (code ! i))"
      if over: "an_visit (slots' ! i) = Complete" and acyclic: "\<not> sr_cyclic s"
    proof -
      have "an_visit (slots ! i) = Complete \<or> i = cur" using over at by (cases "i = cur") simp_all
      note away = away [OF _ _ this acyclic i]
      have kids: "slots' ! (eg_entry e - base) = slots ! (eg_entry e - base)"
        if "Some e \<in> set (edges (code ! i))" for e
        using edges_edge_to [OF that, of base] away at(2) by blast
      have "an_usage (slots' ! i) =
          combine_usage (\<lambda>entry. an_usage (slots ! (entry - base))) (edges (code ! i))"
      proof (cases "i = cur")
        case True
        have "u = combine_usage (\<lambda>entry. an_usage (slots ! (entry - base))) (edges (code ! cur))"
          unfolding u_def
        proof (rule combine_usage_cong)
          fix e assume "Some e \<in> set (edges (code ! cur))"
          then obtain j where "j < 4" "edge_to base code cur j (eg_entry e - base)"
            using edges_edge_to by blast
          then show "child_usage (slots ! (eg_entry e - base)) = an_usage (slots ! (eg_entry e - base))"
            using closed acyclic by (auto simp: child_usage_def)
        qed
        then show ?thesis using True at by simp
      next
        case False
        then show ?thesis using fact(4) [OF i] over acyclic at by simp
      qed
      also have "\<dots> = combine_usage (\<lambda>entry. an_usage (slots' ! (entry - base))) (edges (code ! i))"
        by (rule combine_usage_cong) (simp add: kids)
      finally show ?thesis .
    qed
    fix j c
    assume j: "j < an_edge (slots' ! i)" and c: "edge_to base code i j c"
    note before = fact(3) [OF i j [unfolded edges] c]
    show "an_visit (slots' ! c) \<noteq> Unseen" using before at by (cases "c = cur") simp_all
    show "sr_cyclic s \<or> above (tl stk) c i" if "an_visit (slots' ! c) = Active"
    proof -
      have "c \<noteq> cur" using that at by auto
      then have "sr_cyclic s \<or> above stk c i" using before that at by simp
      then show ?thesis using old(3) \<open>c \<noteq> cur\<close> by (metis above_Cons)
    qed
  qed
  then show ?thesis by (simp add: search_complete_def slots'_def u_def cur_def slots_def)
qed

text \<open>One step on an edge keeps the invariant and uses up some of what is left.\<close>

lemma search_edge_ok:
  assumes ok: "search_ok base code root s stk" and code: "code_ok base code"
    and edge: "an_edge (sr_scratch s ! sr_current s) < 4"
  shows "\<exists>stk'. search_ok base code root
      (search_edge base (edges (code ! sr_current s) ! an_edge (sr_scratch s ! sr_current s)) s) stk'"
    and "search_left (search_edge base (edges (code ! sr_current s) ! an_edge (sr_scratch s ! sr_current s)) s)
      < search_left s"
proof -
  define cur where "cur = sr_current s"
  define slots where "slots = sr_scratch s"
  define eo where "eo = edges (code ! cur) ! an_edge (slots ! cur)"
  define bumped where "bumped = slots[cur := (slots ! cur)\<lparr>an_edge := an_edge (slots ! cur) + 1\<rparr>]"
  note old = search_okD [OF ok, folded cur_def slots_def]
  have to: "edge_to base code cur (an_edge (slots ! cur)) c \<longleftrightarrow> (\<exists>e. eo = Some e \<and> c = eg_entry e - base)" for c
    using edge by (simp add: edge_to_def eo_def cur_def slots_def)
  have visit: "an_visit (bumped ! c) = an_visit (slots ! c)" for c
    using old(4,5) by (simp add: bumped_def nth_list_update)
  have left: "sum_list (map slot_left bumped) < sum_list (map slot_left slots)"
    using slot_left_update [of cur slots "(slots ! cur)\<lparr>an_edge := an_edge (slots ! cur) + 1\<rparr>"] edge old(4,5)
    by (simp add: bumped_def slot_left_def cur_def slots_def)
  have start: "update_slot cur (\<lambda>a. a\<lparr>an_edge := an_edge a + 1\<rparr>) s = s\<lparr>sr_scratch := bumped\<rparr>"
    by (simp add: bumped_def slots_def)
  have stay: "search_ok base code root (s\<lparr>sr_scratch := bumped, sr_cyclic := cyclic\<rparr>) stk"
    if "\<And>c. edge_to base code cur (an_edge (slots ! cur)) c \<Longrightarrow>
        an_visit (slots ! c) \<noteq> Unseen \<and> (an_visit (slots ! c) = Active \<longrightarrow> cyclic)"
      "sr_cyclic s \<longrightarrow> cyclic" for cyclic
    using stay_ok [OF ok code edge, folded cur_def slots_def, OF that] by (simp add: bumped_def slots_def)
  have "(\<exists>stk'. search_ok base code root (search_edge base eo s) stk') \<and>
    search_left (search_edge base eo s) < search_left s"
  proof (cases eo)
    case None
    then have "search_edge base eo s = s\<lparr>sr_scratch := bumped, sr_cyclic := sr_cyclic s\<rparr>"
      by (simp add: search_edge_def Let_def bumped_def cur_def slots_def)
    moreover have "search_ok base code root (s\<lparr>sr_scratch := bumped, sr_cyclic := sr_cyclic s\<rparr>) stk"
      by (rule stay) (simp_all add: to None)
    ultimately show ?thesis using left by (auto simp: search_left_def slots_def)
  next
    case (Some e)
    define c where "c = eg_entry e - base"
    have c: "edge_to base code cur (an_edge (slots ! cur)) c" "c < length code"
      using to Some edge_to_bound [OF code old(4)] by (auto simp: c_def)
    have only: "d = c" if "edge_to base code cur (an_edge (slots ! cur)) d" for d
      using that to Some by (simp add: c_def)
    show ?thesis
    proof (cases "an_visit (slots ! c)")
      case Unseen
      then have new: "search_edge base eo s =
          (update_slot c (\<lambda>a. a\<lparr>an_visit := Active, an_parent := Some cur\<rparr>)
            (s\<lparr>sr_scratch := bumped\<rparr>))\<lparr>sr_current := c\<rparr>"
        using Some visit [of c] by (simp add: search_edge_def Let_def bumped_def cur_def slots_def c_def)
      moreover have "slot_left ((bumped ! c)\<lparr>an_visit := Active, an_parent := Some cur\<rparr>) = slot_left (bumped ! c)"
        using Unseen visit [of c] by (simp add: slot_left_def)
      ultimately have "search_left (search_edge base eo s) = sum_list (map slot_left bumped)"
        using slot_left_update [of c bumped "(bumped ! c)\<lparr>an_visit := Active, an_parent := Some cur\<rparr>"] c(2) old(5)
        by (simp add: search_left_def bumped_def)
      moreover have "search_ok base code root (search_edge base eo s) (c # stk)"
        using descend_ok [OF ok code edge, folded cur_def slots_def, OF c(1) Unseen] new by (simp add: bumped_def)
      ultimately show ?thesis using left by (auto simp: search_left_def slots_def)
    next
      case Active
      then have "search_edge base eo s = s\<lparr>sr_scratch := bumped, sr_cyclic := True\<rparr>"
        using Some visit [of c] by (simp add: search_edge_def Let_def bumped_def cur_def slots_def c_def)
      moreover have "search_ok base code root (s\<lparr>sr_scratch := bumped, sr_cyclic := True\<rparr>) stk"
        by (rule stay) (use only Active in auto)
      ultimately show ?thesis using left by (auto simp: search_left_def slots_def)
    next
      case Complete
      then have "search_edge base eo s = s\<lparr>sr_scratch := bumped, sr_cyclic := sr_cyclic s\<rparr>"
        using Some visit [of c] by (simp add: search_edge_def Let_def bumped_def cur_def slots_def c_def)
      moreover have "search_ok base code root (s\<lparr>sr_scratch := bumped, sr_cyclic := sr_cyclic s\<rparr>) stk"
        by (rule stay) (use only Complete in auto)
      ultimately show ?thesis using left by (auto simp: search_left_def slots_def)
    qed
  qed
  then show "\<exists>stk'. search_ok base code root
      (search_edge base (edges (code ! sr_current s) ! an_edge (sr_scratch s ! sr_current s)) s) stk'"
    "search_left (search_edge base (edges (code ! sr_current s) ! an_edge (sr_scratch s ! sr_current s)) s)
      < search_left s"
    by (auto simp: eo_def cur_def slots_def)
qed

text \<open>Back at the parent.\<close>

lemma return_ok:
  assumes ok: "search_ok base code root s stk" and code: "code_ok base code"
    and edge: "4 \<le> an_edge (sr_scratch s ! sr_current s)"
    and forks: "is_fork (nd_kind (code ! sr_current s)) \<longrightarrow> sr_forks s"
    and s': "s' = search_complete base (edges (code ! sr_current s)) s"
  shows "an_parent (sr_scratch s' ! sr_current s) = Some p \<Longrightarrow>
      search_ok base code root (s'\<lparr>sr_current := p\<rparr>) (tl stk) \<and> search_left (s'\<lparr>sr_current := p\<rparr>) < search_left s"
    and "an_parent (sr_scratch s' ! sr_current s) = None \<Longrightarrow> tl stk = [] \<and> sr_current s = root"
proof -
  define cur where "cur = sr_current s"
  define slots where "slots = sr_scratch s"
  define u where "u = combine_usage (\<lambda>entry. child_usage (slots ! (entry - base))) (edges (code ! cur))"
  define slots' where "slots' = slots[cur := (slots ! cur)\<lparr>an_usage := u, an_visit := Complete\<rparr>]"
  note old = search_okD [OF ok, folded cur_def slots_def]
  have new: "s' = s\<lparr>sr_scratch := slots'\<rparr>"
    by (simp add: s' search_complete_def slots'_def u_def cur_def slots_def)
  have same: "an_parent (slots' ! i) = an_parent (slots ! i)" for i
    using old(4,5) by (simp add: slots'_def nth_list_update)
  have stk: "stk \<noteq> []" "last stk = root" "distinct stk" and inside: "\<forall>i \<in> set stk. i < length slots"
    and active: "\<forall>i < length slots. an_visit (slots ! i) = Active \<longleftrightarrow> i \<in> set stk"
    and parents: "\<And>c i. above stk c i \<Longrightarrow> an_parent (slots ! c) = Some i" "an_parent (slots ! root) = None"
    using old(1) by (simp_all add: stack_ok_def)
  have top: "tl stk = [] \<Longrightarrow> cur = root" "tl stk \<noteq> [] \<Longrightarrow> an_parent (slots ! cur) = Some (hd (tl stk))"
    using stk(1,2) old(3) parents(1) [of cur "hd (tl stk)"]
    by (metis last.simps, metis above_Cons)
  show "tl stk = [] \<and> sr_current s = root" if "an_parent (sr_scratch s' ! sr_current s) = None"
    using that top same by (cases "tl stk = []") (auto simp: new cur_def slots_def)
  assume p: "an_parent (sr_scratch s' ! sr_current s) = Some p"
  then have parent: "an_parent (slots ! cur) = Some p" using same by (simp add: new cur_def)
  then have rest: "tl stk \<noteq> []" "hd (tl stk) = p" using top parents(2) by (cases "tl stk = []"; simp)+
  have "an_parent (slots' ! c) = Some i" if "above (tl stk) c i" for c i
    using parents(1) [of c i] that same old(3) by (metis above_Cons)
  moreover have "an_visit (slots' ! i) = Active \<longleftrightarrow> i \<in> set (tl stk)" if "i < length slots" for i
  proof -
    have "cur \<notin> set (tl stk)" using stk(3) old(3) by (metis distinct.simps(2))
    moreover have "i \<in> set stk \<longleftrightarrow> i = cur \<or> i \<in> set (tl stk)" using old(3) by (metis set_ConsD list.set_intros)
    ultimately show ?thesis using active that by (cases "i = cur") (simp_all add: slots'_def)
  qed
  moreover have "last (tl stk) = root" using stk(2) rest(1) old(3) by (metis last.simps)
  moreover have "length slots' = length slots" by (simp add: slots'_def)
  ultimately have "stack_ok slots' root (tl stk)"
    using rest stk(3) inside parents(2) by (simp add: stack_ok_def same distinct_tl list.set_sel(2) [OF stk(1)])
  moreover have "slots_ok base code slots' (sr_cyclic s) (sr_forks s) (tl stk)"
    using complete_ok [OF ok code edge forks] by (simp add: s' [symmetric] new)
  moreover have "sum_list (map slot_left slots') < sum_list (map slot_left slots)"
    using slot_left_update [of cur slots "(slots ! cur)\<lparr>an_usage := u, an_visit := Complete\<rparr>"] old(4,5,6)
    by (simp add: slots'_def slot_left_def)
  ultimately show "search_ok base code root (s'\<lparr>sr_current := p\<rparr>) (tl stk) \<and>
      search_left (s'\<lparr>sr_current := p\<rparr>) < search_left s"
    using rest(2) by (simp add: search_ok_def search_left_def new slots_def)
qed

lemma search_loop_total:
  assumes "search_ok base code root s stk" "code_ok base code"
  shows "\<exists>s'. search_loop img base code s = Some (requirements img s') \<and> sr_current s' = root \<and>
    root < length code \<and> an_visit (sr_scratch s' ! root) = Complete \<and>
    (\<forall>i < length code. an_visit (sr_scratch s' ! i) \<noteq> Active) \<and>
    slots_ok base code (sr_scratch s') (sr_cyclic s') (sr_forks s') []"
  using assms
proof (induction "search_left s" arbitrary: s stk rule: less_induct)
  case less
  define n where "n = code ! sr_current s"
  define s1 where "s1 = s\<lparr>sr_forks := sr_forks s \<or> is_fork (nd_kind n)\<rparr>"
  note old = search_okD [OF less.prems(1)]
  have ok: "search_ok base code root s1 stk" using search_ok_forks [OF less.prems(1)] by (simp add: s1_def)
  have inside: "\<not> list_ex (\<lambda>e. case e of None \<Rightarrow> False | Some e \<Rightarrow>
      eg_entry e < base \<or> length code \<le> eg_entry e - base) (edges n)"
    using code_okD [OF less.prems(2) old(4)] old(5)
    by (fastforce simp: list_ex_iff n_def split: option.splits)
  have left: "search_left s1 = search_left s" by (simp add: search_left_def s1_def)
  show ?case
  proof (cases "an_edge (sr_scratch s ! sr_current s) < 4")
    case True
    then have "search_loop img base code s = search_loop img base code
        (search_edge base (edges (code ! sr_current s1) ! an_edge (sr_scratch s1 ! sr_current s1)) s1)"
      using old(4,5) inside by (subst search_loop.simps) (simp add: n_def s1_def Let_def)
    moreover have "an_edge (sr_scratch s1 ! sr_current s1) < 4" using True by (simp add: s1_def)
    note step = search_edge_ok [OF ok less.prems(2) this]
    ultimately show ?thesis using less.hyps [OF step(2) [unfolded left]] step(1) less.prems(2) by metis
  next
    case False
    define s2 where "s2 = search_complete base (edges (code ! sr_current s1)) s1"
    have edge: "4 \<le> an_edge (sr_scratch s1 ! sr_current s1)" using False by (simp add: s1_def)
    have forks: "is_fork (nd_kind (code ! sr_current s1)) \<longrightarrow> sr_forks s1" by (simp add: s1_def n_def)
    note step = return_ok [OF ok less.prems(2) edge forks s2_def]
    have run: "search_loop img base code s =
        (case an_parent (sr_scratch s2 ! sr_current s1) of
           Some parent \<Rightarrow> search_loop img base code (s2\<lparr>sr_current := parent\<rparr>)
         | None \<Rightarrow> Some (requirements img s2))"
      using old(4,5) inside False
      by (subst search_loop.simps) (simp add: n_def s1_def s2_def Let_def search_complete_def split: option.split)
    show ?thesis
    proof (cases "an_parent (sr_scratch s2 ! sr_current s1)")
      case None
      have "slots_ok base code (sr_scratch s2) (sr_cyclic s2) (sr_forks s2) []"
        using complete_ok [OF ok less.prems(2) edge forks] step(2) [OF None]
        by (simp add: s2_def [symmetric]) (simp add: s2_def search_complete_def)
      moreover have "an_visit (sr_scratch s2 ! sr_current s1) = Complete"
        using old(4,5) by (simp add: s2_def search_complete_def s1_def)
      moreover have "an_visit (sr_scratch s2 ! i) \<noteq> Active" if "i < length code" for i
      proof (cases "i = sr_current s")
        case False
        have "stk = [sr_current s]" using step(2) [OF None] old(3) by simp
        with old(1,5) that False have "an_visit (sr_scratch s ! i) \<noteq> Active" by (simp add: stack_ok_def)
        then show ?thesis using False by (simp add: s2_def search_complete_def s1_def)
      qed (use old(4,5) in \<open>simp add: s2_def search_complete_def s1_def\<close>)
      moreover have "search_loop img base code s = Some (requirements img s2)" using run None by simp
      moreover have "sr_current s2 = root" "sr_current s1 = root" "root < length code"
        using step(2) [OF None] old(4) by (auto simp: s2_def search_complete_def s1_def)
      ultimately show ?thesis by (intro exI [of _ s2]) simp
    next
      case (Some p)
      note up = step(1) [OF Some]
      have "search_left (s2\<lparr>sr_current := p\<rparr>) < search_left s" using up left by simp
      from less.hyps [OF this _ less.prems(2)] up show ?thesis using run Some by auto
    qed
  qed
qed

section \<open>What the analysis reports\<close>

text \<open>The instructions reachable from the entry, and the usages the search assigns to them.\<close>

inductive_set reached :: "usize \<Rightarrow> ('v, 'e) node list \<Rightarrow> nat \<Rightarrow> nat set" for base code root where
  entry: "root \<in> reached base code root"
| edge: "i \<in> reached base code root \<Longrightarrow> Some e \<in> set (edges (code ! i)) \<Longrightarrow>
    eg_entry e - base \<in> reached base code root"

text \<open>
  \<open>usage_fixpoint\<close> states what a finished search has established: each reachable instruction lies in the
  module, and its usage combines those of its targets.
\<close>

definition usage_fixpoint :: "usize \<Rightarrow> ('v, 'e) node list \<Rightarrow> nat \<Rightarrow> (nat \<Rightarrow> usage) \<Rightarrow> bool" where
  "usage_fixpoint base code root u \<longleftrightarrow>
     (\<forall>i \<in> reached base code root. u i = combine_usage (\<lambda>entry. u (entry - base)) (edges (code ! i)))"

lemma reached_complete:
  assumes ok: "slots_ok base code slots cyclic forks []" and code: "code_ok base code"
    and root: "root < length code" "an_visit (slots ! root) = Complete"
    and over: "\<And>i. i < length code \<Longrightarrow> an_visit (slots ! i) \<noteq> Active"
    and i: "i \<in> reached base code root"
  shows "i < length code \<and> an_visit (slots ! i) = Complete"
  using i
proof induction
  case entry
  then show ?case using root by simp
next
  case (edge i e)
  then obtain j where j: "j < 4" "edge_to base code i j (eg_entry e - base)"
    using edges_edge_to by blast
  have "j < an_edge (slots ! i)" using slots_okD(4) [OF ok] edge.IH j(1) by simp
  then have "an_visit (slots ! (eg_entry e - base)) \<noteq> Unseen"
    using slots_okD(3) [OF ok _ _ j(2)] edge.IH by blast
  then show ?case using over edge_to_bound [OF code _ j(2)] edge.IH visit.exhaust by blast
qed

text \<open>
  What a result says: the usages of a fixpoint at the entry, except that a cycle leaves frames
  unbounded, and tasks too when there is a fork; without a fork there is one task.
\<close>

definition reports ::
  "usize \<Rightarrow> ('v, 'e) node list \<Rightarrow> nat \<Rightarrow> resource_requirements \<Rightarrow> bool" where
  "reports base code root r \<longleftrightarrow>
     (\<forall>i \<in> reached base code root. i < length code) \<and>
     (\<exists>u cyclic forks.
        (\<not> cyclic \<longrightarrow> usage_fixpoint base code root u) \<and>
        (\<not> forks \<longrightarrow> us_tasks (u root) = Some 1 \<and>
           (\<forall>i \<in> reached base code root. \<not> is_fork (nd_kind (code ! i)))) \<and>
        rr_tasks r = (if cyclic \<and> forks then None else us_tasks (u root)) \<and>
        rr_frames_per_task r = (if cyclic then None else maximum (us_own (u root)) (us_child (u root))) \<and>
        rr_frames r = (if cyclic then None else us_frames (u root)))"

lemma search_reports:
  assumes code: "code_ok base code" and root: "root < length code"
  shows "\<exists>r. search_loop img base code
      \<lparr>sr_current = root, sr_scratch = (replicate (length code) slot_fresh)[root := slot_fresh\<lparr>an_visit := Active\<rparr>],
       sr_cyclic = False, sr_forks = False\<rparr> = Some r \<and>
    reports base code root r \<and> rr_bindings_per_task r = img_bindings img"
proof -
  let ?slots = "(replicate (length code) slot_fresh)[root := slot_fresh\<lparr>an_visit := Active\<rparr>]"
  let ?s = "\<lparr>sr_current = root, sr_scratch = ?slots, sr_cyclic = False, sr_forks = False\<rparr>"
  have "search_ok base code root ?s [root]"
    using root
    by (auto simp: search_ok_def stack_ok_def slots_ok_def slot_fresh_def usage_default_def above_def
        nth_list_update)
  from search_loop_total [OF this code] obtain s where
    s: "search_loop img base code ?s = Some (requirements img s)" "sr_current s = root"
    "an_visit (sr_scratch s ! root) = Complete" "\<forall>i < length code. an_visit (sr_scratch s ! i) \<noteq> Active"
    and ok: "slots_ok base code (sr_scratch s) (sr_cyclic s) (sr_forks s) []"
    by blast
  let ?u = "\<lambda>i. an_usage (sr_scratch s ! i)"
  note full = reached_complete [OF ok code root s(3)]
  have all: "i < length code \<and> an_visit (sr_scratch s ! i) = Complete" if "i \<in> reached base code root" for i
    using full that s(4) by blast
  have "usage_fixpoint base code root ?u" if "\<not> sr_cyclic s"
    using slots_okD(4) [OF ok] all that by (simp add: usage_fixpoint_def)
  moreover have "us_tasks (?u root) = Some 1" if "\<not> sr_forks s" using slots_okD(5) [OF ok root that] .
  moreover have "\<not> is_fork (nd_kind (code ! i))" if "\<not> sr_forks s" "i \<in> reached base code root" for i
    using slots_okD(4) [OF ok] all [OF that(2)] that(1) by blast
  ultimately have "reports base code root (requirements img s)"
    unfolding reports_def using all s(2)
    by (intro conjI exI [of _ ?u] exI [of _ "sr_cyclic s"] exI [of _ "sr_forks s"])
      (auto simp: requirements_def Let_def)
  then show ?thesis using s(1) by (simp add: requirements_def Let_def)
qed

section \<open>The analysis of a module\<close>

lemma edges_targets: "Some e \<in> set (edges n) \<Longrightarrow> eg_entry e \<in> set (node_targets n)"
  by (cases "nd_kind n") (auto simp: edges_def node_targets_def split: option.splits)

lemma module_requirements_cases:
  assumes "lo \<le> hi" "hi \<le> length (img_nodes img)"
  defines "code \<equiv> take (hi - lo) (drop lo (img_nodes img))"
  shows "(\<exists>f. module_requirements img entry (lo, hi) scratch = Raise f) \<or>
    (\<exists>r. module_requirements img entry (lo, hi) scratch = Return r \<and> lo \<le> entry \<and> entry < hi \<and>
       hi - lo \<le> length scratch \<and> reports lo code (entry - lo) r \<and>
       rr_bindings_per_task r = img_bindings img)"
proof -
  let ?visit = "visit_indices
              (\<lambda>i. if lo \<le> i \<and> i < hi then Ok () else Err Fault_InvalidNode)
              (\<lambda>i. if i < img_imports img then Ok () else Err Fault_InvalidImport)
              (\<lambda>i. if i < img_bindings img then Ok () else Err Fault_InvalidBinding)"
  define checks where "checks = try_each ?visit code"
  have len: "length code = hi - lo" using assms by simp
  show ?thesis
  proof (cases "img_version img = image_version_1 \<and> lo \<le> entry \<and> entry < hi \<and>
      checks = Ok () \<and> length code \<le> length scratch")
    case False
    then show ?thesis
      using assms(1,2) unfolding module_requirements_def Let_def prod.case code_def [symmetric] checks_def [symmetric]
      by (cases checks) (auto simp: len)
  next
    case True
    then have visited: "\<forall>n \<in> set code. ?visit n = Ok ()" by (auto simp: checks_def)
    have "code_ok lo code"
      unfolding code_ok_def
    proof (intro ballI allI impI)
      fix n e assume "n \<in> set code" "Some e \<in> set (edges n)"
      then have "lo \<le> eg_entry e \<and> eg_entry e < hi"
        using visited edges_targets [of e n] by (fastforce simp: visit_indices_Ok_iff split: if_splits)
      then show "lo \<le> eg_entry e \<and> eg_entry e - lo < length code" using len by auto
    qed
    moreover have "entry - lo < length code" using True len by auto
    ultimately obtain r where "search_loop img lo code
        \<lparr>sr_current = entry - lo,
         sr_scratch = (replicate (length code) slot_fresh)[entry - lo := slot_fresh\<lparr>an_visit := Active\<rparr>],
         sr_cyclic = False, sr_forks = False\<rparr> = Some r"
      "reports lo code (entry - lo) r" "rr_bindings_per_task r = img_bindings img"
      using search_reports by blast
    then show ?thesis
      using True assms(1,2) len unfolding module_requirements_def Let_def prod.case code_def [symmetric] checks_def [symmetric]
      by auto
  qed
qed

text \<open>For a whole image the checks are those of \<open>validate\<close>.\<close>

lemma image_requirements_checks:
  "(\<exists>f. validate img = Err f \<and> image_requirements img scratch = Raise f) \<or>
   (validate img = Ok () \<and> length scratch < length (img_nodes img) \<and>
    image_requirements img scratch = Raise Fault_AnalysisCapacity) \<or>
   (validate img = Ok () \<and> length (img_nodes img) \<le> length scratch \<and>
    (\<forall>f. image_requirements img scratch \<noteq> Raise f))"
proof -
  let ?inside = "\<lambda>i. if 0 \<le> i \<and> i < length (img_nodes img) then Ok () else Err Fault_InvalidNode"
  have "?inside = (\<lambda>i. bind_result (image_node img i) (\<lambda>_. Ok ()))"
    by (rule ext) (simp add: image_node_def get_def)
  then have visit: "visit_indices ?inside
      (\<lambda>i. if i < img_imports img then Ok () else Err Fault_InvalidImport)
      (\<lambda>i. if i < img_bindings img then Ok () else Err Fault_InvalidBinding) = validate_node img"
    unfolding validate_node_def by (simp only:)
  define checks where "checks = try_each (validate_node img) (img_nodes img)"
  have "validate img = (if img_version img \<noteq> image_version_1 then Err Fault_Version
      else if img_entry img < length (img_nodes img) then checks else Err Fault_InvalidNode)"
    by (simp add: validate_def checks_def image_node_def get_def)
  moreover have "take (length (img_nodes img) - 0) (drop 0 (img_nodes img)) = img_nodes img" by simp
  ultimately show ?thesis
    unfolding image_requirements_def module_requirements_def Let_def prod.case visit
    by (cases checks) (auto simp: checks_def [symmetric] split: option.splits)
qed

lemma image_requirements_reports:
  "image_requirements img scratch = Return r \<Longrightarrow> reports 0 (img_nodes img) (img_entry img) r"
  using image_requirements_checks [of img scratch]
    module_requirements_cases [of 0 "length (img_nodes img)" img "img_entry img" scratch]
  by (auto simp: image_requirements_def)

text \<open>
  C9: the analysis of an image always returns. It refuses what \<open>validate\<close> refuses, with the same
  fault, and scratch space of fewer slots than instructions; otherwise the search ends and reports
  bounds that are consistent along every edge reachable from the entry: they are the usages of a
  fixpoint, tasks and frames are bounded unless there is a cycle, and a program without a fork needs
  one task.
\<close>

theorem analysis_total:
  "case validate img of
     Err f \<Rightarrow> image_requirements img scratch = Raise f
   | Ok _ \<Rightarrow>
       if length scratch < length (img_nodes img)
       then image_requirements img scratch = Raise Fault_AnalysisCapacity
       else \<exists>r. image_requirements img scratch = Return r \<and>
         reports 0 (img_nodes img) (img_entry img) r \<and> rr_bindings_per_task r = img_bindings img"
  using image_requirements_checks [of img scratch]
    module_requirements_cases [of 0 "length (img_nodes img)" img "img_entry img" scratch]
  by (auto simp: image_requirements_def split: result.splits)

end
