(* ===== verification/Task_Shapes.thy ===== *)
theory Task_Shapes
  imports Machine_Host Analysis
begin

text \<open>
  What a run of the machine does to the control of its tasks, whatever the values: where each task
  stands and the frames it has stacked. Every operation of \<open>machine.rs\<close> moves these shapes by
  \<open>shift\<close>; the only steps that can run out of frames or tasks are those that enter a construct or
  fork.
\<close>

section \<open>Shapes\<close>

datatype status = Vacant | At u32 | Back | Over | Split usize usize u32 | Stopped

definition status_of :: "('v, 'e) task \<Rightarrow> status" where
  "status_of t =
     (case tk_state t of
        S_Free \<Rightarrow> Vacant
      | S_Ready \<Rightarrow> At (tk_pc t)
      | S_Waiting _ node \<Rightarrow> At node
      | S_Joining j \<Rightarrow> Split (js_left j) (js_right j) (js_node j)
      | S_Returning _ \<Rightarrow> Back
      | S_Done _ \<Rightarrow> Over
      | S_Halted _ _ \<Rightarrow> Stopped)"

type_synonym ('v, 'e) shape = "status \<times> ('v, 'e) frame_kind list"

definition shapes :: "('v, 'e) exec \<Rightarrow> ('v, 'e) shape list" where
  "shapes e = map (\<lambda>i. (status_of (task_at e i), task_frames e i)) [0..<task_count e]"

abbreviation slots :: "('v, 'e) exec \<Rightarrow> nat" where
  "slots e \<equiv> length (pl_slots (ex_frames e))"

text \<open>Entering a construct, besides the frame \<open>Finish\<close>, and coming back to a frame.\<close>

inductive descends :: "('v, 'e) node_kind \<Rightarrow> ('v, 'e) frame_kind list \<Rightarrow> u32 \<Rightarrow> bool" where
  "descends (N_Then first next) [K_Then next] first"
| "descends (N_Catch body recover) [K_Catch recover] body"
| "descends (N_Finally body cleanup) [K_Finally cleanup v] body"
| "descends (N_If yes no) [] yes"
| "descends (N_If yes no) [] no"
| "descends (N_Branch condition yes no) [K_Choose yes no v] condition"
| "descends (N_Let slot val body) [K_Bind slot body] val"
| "descends (N_While condition body bound) [K_Condition condition body left v] condition"
| "descends (N_Call entry) [] entry"
| "descends (N_Scope im body) [K_Context context] body"

inductive resumes :: "('v, 'e) image \<Rightarrow> ('v, 'e) frame_kind \<Rightarrow> ('v, 'e) frame_kind list \<Rightarrow> u32 \<Rightarrow> bool"
  for img where
  "nd_next (img_nodes img ! node) = Some m \<Longrightarrow> resumes img (K_Finish node) [] m"
| "nd_next (img_nodes img ! node) = Some m \<Longrightarrow> resumes img (K_Continuation node entry) [] m"
| "resumes img (K_Then m) [] m"
| "resumes img (K_Catch m) [] m"
| "resumes img (K_Finally m v) [K_Cleaned r] m"
| "resumes img (K_Choose m no v) [] m"
| "resumes img (K_Choose yes m v) [] m"
| "resumes img (K_Bind slot m) [K_Unbind slot previous] m"
| "resumes img (K_Condition condition m left v) [K_Iteration condition m left'] m"
| "resumes img (K_Iteration m body left) [K_Condition m body left v] m"

inductive local_step :: "('v, 'e) image \<Rightarrow> ('v, 'e) shape \<Rightarrow> ('v, 'e) shape \<Rightarrow> bool" for img where
  at_next: "nd_next (img_nodes img ! n) = Some m \<Longrightarrow> local_step img (At n, ks) (At m, ks)"
| at_stay: "local_step img (At n, ks) (At n, ks)"
| at_back: "local_step img (At n, ks) (Back, ks)"
| at_enter: "descends (nd_kind (img_nodes img ! n)) fs m \<Longrightarrow>
    local_step img (At n, ks) (At m, fs @ K_Finish n # ks)"
| back_over: "local_step img (Back, []) (Over, [])"
| back_stay: "local_step img (Back, ks) (Back, ks)"
| back_pop: "local_step img (Back, k # ks) (Back, ks)"
| back_resume: "resumes img k fs m \<Longrightarrow> local_step img (Back, k # ks) (At m, fs @ ks)"
| halts: "s \<noteq> Vacant \<Longrightarrow> local_step img (s, ks) (Stopped, ks)"

text \<open>The frames a task may push before it pops one.\<close>

fun demand :: "('v, 'e) node_kind \<Rightarrow> nat" where
  "demand (N_If _ _) = 1"
| "demand (N_Call _) = 1"
| "demand (N_Then _ _) = 2"
| "demand (N_Catch _ _) = 2"
| "demand (N_Finally _ _) = 2"
| "demand (N_Branch _ _ _) = 2"
| "demand (N_Let _ _ _) = 2"
| "demand (N_While _ _ _) = 2"
| "demand (N_Scope _ _) = 2"
| "demand _ = 0"

text \<open>
  One move of the whole family: a step of one task, a fork onto two free tasks, or a join that frees
  two finished ones.
\<close>

inductive shift :: "('v, 'e) image \<Rightarrow> ('v, 'e) shape list \<Rightarrow> ('v, 'e) shape list \<Rightarrow> bool" for img where
  idle: "shift img xs xs"
| local: "i < length xs \<Longrightarrow> local_step img (xs ! i) x \<Longrightarrow> shift img xs (xs[i := x])"
| fork: "i < length xs \<Longrightarrow> xs ! i = (At n, ks) \<Longrightarrow> nd_kind (img_nodes img ! n) = N_Fork l r j \<Longrightarrow>
    a < length xs \<Longrightarrow> b < length xs \<Longrightarrow> a \<noteq> b \<Longrightarrow> xs ! a = (Vacant, []) \<Longrightarrow> xs ! b = (Vacant, []) \<Longrightarrow>
    shift img xs (xs[a := (At l, []), b := (At r, []), i := (Split a b n, ks)])"
| join: "i < length xs \<Longrightarrow> xs ! i = (Split a b n, ks) \<Longrightarrow> a < length xs \<Longrightarrow> b < length xs \<Longrightarrow>
    a \<noteq> b \<Longrightarrow> i \<noteq> a \<Longrightarrow> i \<noteq> b \<Longrightarrow> xs ! a = (Over, []) \<Longrightarrow> xs ! b = (Over, []) \<Longrightarrow>
    local_step img (At n, ks) x \<Longrightarrow> x = (Back, ks) \<or> (\<exists>m. nd_next (img_nodes img ! n) = Some m \<and> x = (At m, ks)) \<Longrightarrow>
    shift img xs (xs[a := (Vacant, []), b := (Vacant, []), i := x])"

section \<open>Shapes under the primitive steps\<close>

lemma length_shapes [simp]: "length (shapes e) = task_count e"
  by (simp add: shapes_def)

lemma nth_shapes [simp]: "i < task_count e \<Longrightarrow> shapes e ! i = (status_of (task_at e i), task_frames e i)"
  by (simp add: shapes_def)

lemma status_of_cong: "tk_state t' = tk_state t \<Longrightarrow> tk_pc t' = tk_pc t \<Longrightarrow> status_of t' = status_of t"
  by (simp add: status_of_def split: state.splits)

lemma status_of_fields [simp]:
  "status_of (t\<lparr>tk_stack := st\<rparr>) = status_of t" "status_of (t\<lparr>tk_input := v\<rparr>) = status_of t"
  "status_of (t\<lparr>tk_cleaning := n\<rparr>) = status_of t" "status_of (t\<lparr>tk_context := c\<rparr>) = status_of t"
  by (rule status_of_cong; simp)+

lemma shapes_eqI:
  assumes "task_count e' = length xs"
    and "\<And>k. k < length xs \<Longrightarrow> (status_of (task_at e' k), task_frames e' k) = xs ! k"
  shows "shapes e' = xs"
  using assms by (intro nth_equalityI) simp_all

lemma shapes_fields [simp]:
  "shapes (e\<lparr>ex_bindings := bs\<rparr>) = shapes e" "shapes (e\<lparr>ex_ticket := t\<rparr>) = shapes e"
  "shapes (e\<lparr>ex_cursor := c\<rparr>) = shapes e" "shapes (e\<lparr>ex_steps := n\<rparr>) = shapes e"
  "shapes (e\<lparr>ex_cleanup_steps := n\<rparr>) = shapes e" "shapes (e\<lparr>ex_aborting := b\<rparr>) = shapes e"
  by (simp_all add: shapes_def task_frames_def)

lemma shapes_update:
  assumes "i < task_count e" "tk_stack (f (task_at e i)) = tk_stack (task_at e i)"
  shows "shapes (update_task e i f) = (shapes e)[i := (status_of (f (task_at e i)), task_frames e i)]"
  by (rule shapes_eqI) (use assms in \<open>auto simp: task_frames_def nth_list_update\<close>)

lemma shapes_set_input [simp]: "i < task_count e \<Longrightarrow> shapes (set_input e i v) = shapes e"
  by (simp add: set_input_def shapes_update list_update_same_conv)

lemma set_input_keeps [simp]:
  "ex_limits (set_input e i v) = ex_limits e" "ex_frames (set_input e i v) = ex_frames e"
  by (simp_all add: set_input_def)

lemma shapes_set_state:
  "i < task_count e \<Longrightarrow> shapes (set_state e i (S_Returning r)) = (shapes e)[i := (Back, task_frames e i)]"
  "i < task_count e \<Longrightarrow> shapes (set_state e i (S_Done r)) = (shapes e)[i := (Over, task_frames e i)]"
  "i < task_count e \<Longrightarrow> shapes (set_state e i (S_Waiting k node)) = (shapes e)[i := (At node, task_frames e i)]"
  "i < task_count e \<Longrightarrow> shapes (set_state e i (S_Halted r j)) = (shapes e)[i := (Stopped, task_frames e i)]"
  by (simp_all add: set_state_def shapes_update status_of_def)

lemma shapes_start: "i < task_count e \<Longrightarrow> shapes (start e i pc v) = (shapes e)[i := (At pc, task_frames e i)]"
  by (simp add: start_def shapes_update status_of_def)

lemma shapes_pushes:
  assumes "pushes e i ks e'" "i < task_count e"
  shows "shapes e' = (shapes e)[i := (status_of (task_at e i), ks)]" "task_frames e' i = ks"
proof -
  show frames: "task_frames e' i = ks" using assms(1) by (simp add: pushes_def)
  obtain p st where e': "e' = restack e i p st" using assms(1) by (auto simp: pushes_def)
  have "task_frames e' k = task_frames e k" if "k < task_count e" "k \<noteq> i" for k
    using assms(1) that by (simp add: pushes_def)
  then show "shapes e' = (shapes e)[i := (status_of (task_at e i), ks)]"
    by (intro shapes_eqI) (use assms(2) frames in \<open>auto simp: e' nth_list_update\<close>)
qed

lemma shapes_marks: "marks e e' \<Longrightarrow> shapes e' = shapes e"
  by (intro shapes_eqI) (simp_all add: marks_fields marks_same task_frames_def status_of_cong [of "task_at e' _" "task_at e _"])

lemma frames_update [simp]:
  "i < task_count e \<Longrightarrow> (\<And>t. tk_stack (f t) = tk_stack t) \<Longrightarrow>
   task_frames (update_task e i f) k = task_frames e k"
  by (simp add: task_frames_def)

lemma frames_fields [simp]:
  "task_frames (e\<lparr>ex_bindings := bs\<rparr>) i = task_frames e i"
  "task_frames (e\<lparr>ex_ticket := t\<rparr>) i = task_frames e i"
  by (simp_all add: task_frames_def)

lemma frames_set_input [simp]: "i < task_count e \<Longrightarrow> task_frames (set_input e i v) k = task_frames e k"
  by (simp add: set_input_def)


text \<open>A step of one task, seen from the state \<open>e\<close> the step started in.\<close>

definition reshaped ::
  "('v, 'e) exec \<Rightarrow> nat \<Rightarrow> (('v, 'e) shape \<Rightarrow> bool) \<Rightarrow> ('v, 'e) exec \<Rightarrow> bool" where
  "reshaped e i P e' \<longleftrightarrow> (\<exists>x. P x \<and> shapes e' = (shapes e)[i := x])"

lemma reshapedI:
  "local_step img a x \<Longrightarrow> shapes e' = (shapes e)[i := x] \<Longrightarrow> reshaped e i (local_step img a) e'"
  unfolding reshaped_def by blast

text \<open>No fault is raised for want of frames or tasks, and what is raised leaves the shapes.\<close>

definition spared :: "('v, 'e) exec \<Rightarrow> fault \<Rightarrow> ('v, 'e) exec \<Rightarrow> bool" where
  "spared e f e' \<longleftrightarrow> f \<noteq> Fault_Frames \<and> f \<noteq> Fault_Tasks \<and> shapes e' = shapes e"

abbreviation steps ::
  "('v, 'e) exec \<Rightarrow> nat \<Rightarrow> (('v, 'e) shape \<Rightarrow> bool) \<Rightarrow> ('a, fault) comp \<times> ('v, 'e) exec \<Rightarrow> bool" where
  "steps e i P \<equiv> ends (\<lambda>_. reshaped e i P) (spared e)"

section \<open>Pushing and finishing\<close>

lemma push_then:
  assumes flux: "fluxes img i e0 e" and k: "kind_ok (code_size img) (stride e) k"
    and room: "length (task_frames e i) < lm_frames_per_task (ex_limits e)" "0 < pool_available (ex_frames e)"
    and cont: "\<And>e'. fluxes img i e0 e' \<Longrightarrow> pushes e i (k # task_frames e i) e' \<Longrightarrow>
      pool_available (ex_frames e') = pool_available (ex_frames e) - 1 \<Longrightarrow> ends P F (f e')"
  shows "ends P F (and_then (exec_push e i k) (\<lambda>_. f))"
proof -
  obtain e' where e': "exec_push e i k = (Return (), e')" "pushes e i (k # task_frames e i) e'"
    "pool_available (ex_frames e') = pool_available (ex_frames e) - 1"
    using exec_push_room [OF fluxes_storage [OF flux] fluxes_count [OF flux] room] by blast
  moreover have "list_all (kind_ok (code_size img) (stride e)) (k # task_frames e i)"
    using k storage_pool(2) [OF fluxes_storage [OF flux] fluxes_count [OF flux]] by simp
  ultimately show ?thesis using cont [OF pushes_fluxes [OF flux e'(2)]] by simp
qed

lemma finish_steps:
  assumes "node < code_size img" "i < task_count e"
  shows "ends (\<lambda>_. reshaped e i (\<lambda>x. x = (Back, task_frames e i) \<or>
      (\<exists>m. nd_next (img_nodes img ! node) = Some m \<and> x = (At m, task_frames e i)))) (\<lambda>_ _. False)
    (finish vs img e i node r)"
  using assms
  by (auto simp: finish_def reshaped_def shapes_start shapes_set_state split: result.splits option.splits)

section \<open>The arm of returning tasks\<close>

text \<open>A returning task pops a frame first, so it never lacks room for the one it pushes.\<close>

lemma return_frame_steps:
  assumes flux: "fluxes img i e0 e" and ok: "kind_ok (code_size img) (stride e) k"
    and start: "shapes e = (shapes e0)[i := (s, ks)]" "task_frames e i = ks"
    and room: "length ks < lm_frames_per_task (ex_limits e)" "0 < pool_available (ex_frames e)"
  shows "ends (\<lambda>_. reshaped e0 i (local_step img (Back, k # ks))) (\<lambda>_ _. False)
    (return_frame vs img e i outcome k)"
proof -
  have i: "i < task_count e" by (rule fluxes_count [OF flux])
  have room': "length (task_frames e i) < lm_frames_per_task (ex_limits e)" using room(1) start(2) by simp
  note push = push_then [OF flux _ room' room(2)]
  have home: "reshaped e0 i (local_step img (Back, k # ks)) (set_state e i (S_Returning r))" for r
    by (rule reshapedI [OF back_pop]) (simp add: shapes_set_state i start)
  have go: "reshaped e0 i (local_step img (Back, k # ks)) (start e i m v)" if "resumes img k [] m" for m v
    by (rule reshapedI [OF back_resume [OF that]]) (simp add: shapes_start i start)
  have into: "ends (\<lambda>_. reshaped e0 i (local_step img (Back, k # ks))) (\<lambda>_ _. False)
      (and_then (exec_push e i k') (\<lambda>_ e'. (Return (), start (g e') i m v)))"
    if "resumes img k [k'] m" "kind_ok (code_size img) (stride e) k'"
      "\<And>e'. i < task_count e' \<Longrightarrow> shapes (g e') = shapes e' \<and> task_frames (g e') i = task_frames e' i \<and>
        task_count (g e') = task_count e'" for k' m v g
  proof (rule push [OF that(2)])
    fix e' assume e': "fluxes img i e0 e'" "pushes e i (k' # task_frames e i) e'"
    then have i': "i < task_count e'" using fluxes_count by blast
    have "shapes (start (g e') i m v) = (shapes e0)[i := (At m, [k'] @ ks)]"
      using shapes_pushes [OF e'(2) i] that(3) [OF i'] i' start by (simp add: shapes_start)
    then show "ends (\<lambda>_. reshaped e0 i (local_step img (Back, k # ks))) (\<lambda>_ _. False)
        (Return (), start (g e') i m v)"
      using reshapedI [OF back_resume [OF that(1)]] by simp
  qed
  note into_plain = into [where g = "\<lambda>e. e", simplified]
  show ?thesis
  proof (cases k)
    case K_Vacant
    then show ?thesis using ok by (simp add: kind_ok_def)
  next
    case (K_Finish node)
    then have "node < code_size img" using ok by (simp add: kind_ok_def)
    from finish_steps [OF this i] show ?thesis
      unfolding K_Finish return_frame.simps
    proof (rule ends_mono)
      show "reshaped e0 i (local_step img (Back, K_Finish node # ks)) e'"
        if "reshaped e i (\<lambda>x. x = (Back, task_frames e i) \<or>
          (\<exists>m. nd_next (img_nodes img ! node) = Some m \<and> x = (At m, task_frames e i))) e'" for e'
        using that start back_pop back_resume [OF resumes.intros(1), of img node _ ks]
        by (fastforce simp: reshaped_def)
    qed simp
  next
    case (K_Continuation node entry)
    then have "node < code_size img" using ok by (simp add: kind_ok_def)
    from finish_steps [OF this i] show ?thesis
      unfolding K_Continuation return_frame.simps
    proof (rule ends_mono)
      show "reshaped e0 i (local_step img (Back, K_Continuation node entry # ks)) e'"
        if "reshaped e i (\<lambda>x. x = (Back, task_frames e i) \<or>
          (\<exists>m. nd_next (img_nodes img ! node) = Some m \<and> x = (At m, task_frames e i))) e'" for e'
        using that start back_pop back_resume [OF resumes.intros(2), of img node _ entry ks]
        by (fastforce simp: reshaped_def)
    qed simp
  next
    case (K_Then m)
    then show ?thesis using home go resumes.intros(3) [of img m] by (simp split: result.splits)
  next
    case (K_Catch m)
    then show ?thesis using home go resumes.intros(4) [of img m] by (simp add: Let_def split: result.splits)
  next
    case (K_Finally m v)
    show ?thesis
      unfolding K_Finally return_frame.simps
      by (rule into [unfolded K_Finally, OF resumes.intros(5)])
        (simp_all add: kind_ok_def shapes_update list_update_same_conv)
  next
    case (K_Cleaned r)
    then show ?thesis
      using i by (simp add: Let_def reshaped_def shapes_set_state shapes_update start)
        (auto intro: back_pop)
  next
    case (K_Context c)
    then show ?thesis
      using i by (simp add: reshaped_def shapes_set_state shapes_update start)
        (auto intro: back_pop)
  next
    case (K_Choose y n v)
    then show ?thesis
      using home go resumes.intros(6) [of img y n v] resumes.intros(7) [of img y n v]
      by (simp split: result.splits)
  next
    case (K_Bind slot body)
    then have slot: "slot < stride e" using ok by (simp add: kind_ok_def)
    have index: "i * stride e + slot < length (ex_bindings e)"
      by (rule binding_index [OF fluxes_storage [OF flux] i slot])
    have check: "exec_check e i 1 = (Return (), e)"
      using exec_check_eq [OF fluxes_storage [OF flux] i, of 1] room' room(2) by (simp add: u32_max_def)
    define e1 where "e1 = e\<lparr>ex_bindings := (ex_bindings e)[i * stride e + slot := None]\<rparr>"
    have flux1: "fluxes img i e0 e1" unfolding e1_def by (rule fluxes_bindings [OF flux]) simp
    have same: "shapes e1 = shapes e" "task_frames e1 i = ks" "stride e1 = stride e" "task_count e1 = task_count e"
      "length (task_frames e1 i) < lm_frames_per_task (ex_limits e1)" "0 < pool_available (ex_frames e1)"
      using room start by (simp_all add: e1_def)
    have "ends (\<lambda>_. reshaped e0 i (local_step img (Back, k # ks))) (\<lambda>_ _. False) (return_bind e i slot body v)" for v
    proof -
      have "ends (\<lambda>_. reshaped e0 i (local_step img (Back, k # ks))) (\<lambda>_ _. False)
          (and_then (exec_push e1 i (K_Unbind slot p)) (\<lambda>_ e'. (Return (),
            start (e'\<lparr>ex_bindings := (ex_bindings e')[i * stride e + slot := Some v]\<rparr>) i body v)))" for p
      proof (rule push_then [OF flux1 _ same(5,6)])
        show "kind_ok (code_size img) (stride e1) (K_Unbind slot p)" using slot same(3) by (simp add: kind_ok_def)
        fix e' assume e': "fluxes img i e0 e'" "pushes e1 i (K_Unbind slot p # task_frames e1 i) e'"
        have "reshaped e0 i (local_step img (Back, k # ks))
            (start (e'\<lparr>ex_bindings := (ex_bindings e')[i * stride e + slot := Some v]\<rparr>) i body v)"
          by (rule reshapedI [OF back_resume [OF resumes.intros(8) [of img slot body p], folded K_Bind]])
            (use shapes_pushes [OF e'(2)] fluxes_count [OF e'(1)] i same start in \<open>simp add: shapes_start\<close>)
        then show "ends (\<lambda>_. reshaped e0 i (local_step img (Back, k # ks))) (\<lambda>_ _. False)
            (Return (), start (e'\<lparr>ex_bindings := (ex_bindings e')[i * stride e + slot := Some v]\<rparr>) i body v)"
          by simp
      qed
      then show ?thesis using slot index check by (simp add: return_bind_def Let_def e1_def)
    qed
    then show ?thesis using home K_Bind by (simp split: result.splits)
  next
    case (K_Unbind slot v)
    then have slot: "slot < stride e" using ok by (simp add: kind_ok_def)
    have "i * stride e + slot < length (ex_bindings e)"
      by (rule binding_index [OF fluxes_storage [OF flux] i slot])
    then show ?thesis
      using K_Unbind i by (simp add: Let_def reshaped_def shapes_set_state start) (auto intro: back_pop)
  next
    case (K_Condition c b n v)
    have "ends (\<lambda>_. reshaped e0 i (local_step img (Back, k # ks))) (\<lambda>_ _. False)
        (and_then (exec_push e i (K_Iteration c b (n - 1))) (\<lambda>_ e. (Return (), start e i b (v_influence vs v test))))" for test
      using ok by (intro into_plain) (simp_all add: K_Condition resumes.intros(9) kind_ok_def)
    then show ?thesis using home K_Condition by (auto split: result.splits bool.splits)
  next
    case (K_Iteration c b n)
    have "ends (\<lambda>_. reshaped e0 i (local_step img (Back, k # ks))) (\<lambda>_ _. False)
        (and_then (exec_push e i (K_Condition c b n v)) (\<lambda>_ e. (Return (), start e i c v)))" for v
      using ok by (intro into_plain) (simp_all add: K_Iteration resumes.intros(10) kind_ok_def)
    then show ?thesis using home K_Iteration by (simp split: result.splits)
  qed
qed

lemma return_step_steps:
  assumes flux: "fluxes img i e0 e" and start: "shapes e = (shapes e0)[i := (s, ks)]" "task_frames e i = ks"
    and room: "length ks \<le> lm_frames_per_task (ex_limits e)"
  shows "ends (\<lambda>_. reshaped e0 i (local_step img (Back, ks))) (\<lambda>_ _. False) (return_step vs img e i r)"
proof -
  have main: "ends (\<lambda>_. reshaped e0 i (local_step img (Back, ks))) (\<lambda>_ _. False)
      (and_then (exec_pop e1 i) (\<lambda>frame e'.
         case frame of
           None \<Rightarrow> (Return (), set_state e' i (S_Done outcome))
         | Some k \<Rightarrow> return_frame vs img e' i outcome k))"
    if e1: "e1 = set_input e i v" for e1 v outcome
  proof -
    have flux1: "fluxes img i e0 e1" using fluxes_set_input [OF flux] by (simp add: e1)
    have i: "i < task_count e" "i < task_count e1" using fluxes_count flux flux1 by blast+
    have same: "shapes e1 = (shapes e0)[i := (s, ks)]" "task_frames e1 i = ks" "ex_limits e1 = ex_limits e"
      using start i(1) by (simp_all add: e1)
    note store = fluxes_storage [OF flux1]
    show ?thesis
    proof (cases ks)
      case Nil
      then have "exec_pop e1 i = (Return None, e1)" using exec_pop_cases(1) [OF store i(2)] same(2) by simp
      moreover have "reshaped e0 i (local_step img (Back, [])) (set_state e1 i (S_Done outcome))"
        by (rule reshapedI [OF back_over]) (use same i(2) Nil in \<open>simp add: shapes_set_state\<close>)
      ultimately show ?thesis using Nil by simp
    next
      case (Cons k ks')
      then have "task_frames e1 i = k # ks'" using same(2) by simp
      then obtain e2 where e2: "exec_pop e1 i = (Return (Some k), e2)" "pushes e1 i ks' e2"
        "pool_available (ex_frames e2) = pool_available (ex_frames e1) + 1"
        using exec_pop_cases(2) [OF store i(2)] by blast
      have ok: "list_all (kind_ok (code_size img) (stride e1)) (k # ks')"
        using storage_pool(2) [OF store i(2)] same(2) Cons by simp
      then have flux2: "fluxes img i e0 e2" using pushes_fluxes [OF flux1 e2(2)] by simp
      have lim: "ex_limits e2 = ex_limits e1" using pushes_keeps [OF e2(2)] by simp
      have "ends (\<lambda>_. reshaped e0 i (local_step img (Back, k # ks'))) (\<lambda>_ _. False)
          (return_frame vs img e2 i outcome k)"
      proof (rule return_frame_steps [OF flux2])
        show "shapes e2 = (shapes e0)[i := (status_of (task_at e1 i), ks')]" "task_frames e2 i = ks'"
          using shapes_pushes [OF e2(2) i(2)] same(1) by simp_all
        show "kind_ok (code_size img) (stride e2) k" using ok lim by simp
        show "length ks' < lm_frames_per_task (ex_limits e2)" "0 < pool_available (ex_frames e2)"
          using room Cons same(3) lim e2(3) by simp_all
      qed
      then show ?thesis using e2(1) Cons by simp
    qed
  qed
  show ?thesis unfolding return_step_def Let_def by (rule main [OF refl])
qed

section \<open>The arm of ready tasks\<close>

lemma steps_silent: "ends (\<lambda>_. P) F r \<Longrightarrow> ends (\<lambda>_. P) F (silent r)"
  unfolding silent_def by (rule ends_and_then) auto

lemma enter_steps:
  assumes flux: "fluxes img i e0 e" and pc: "pc < code_size img" and k: "kind_ok (code_size img) (stride e) k"
    and start: "shapes e = shapes e0" "task_frames e i = ks"
    and room: "length ks + 2 \<le> lm_frames_per_task (ex_limits e)" "2 \<le> pool_available (ex_frames e)"
    and into: "descends (nd_kind (img_nodes img ! pc)) [k] m"
  shows "ends (\<lambda>_. reshaped e0 i (local_step img (At pc, ks))) F (enter e i pc k m v)"
  unfolding enter_def
proof (rule push_then [OF flux kind_ok_finish [OF pc]])
  show "length (task_frames e i) < lm_frames_per_task (ex_limits e)" "0 < pool_available (ex_frames e)"
    using room start(2) by simp_all
  fix e1 assume e1: "fluxes img i e0 e1" "pushes e i (K_Finish pc # task_frames e i) e1"
    "pool_available (ex_frames e1) = pool_available (ex_frames e) - 1"
  have i: "i < task_count e" "i < task_count e1" using fluxes_count flux e1(1) by blast+
  note s1 = shapes_pushes [OF e1(2) i(1)]
  have lim: "ex_limits e1 = ex_limits e" using pushes_keeps [OF e1(2)] by simp
  show "ends (\<lambda>_. reshaped e0 i (local_step img (At pc, ks))) F
      (and_then (exec_push e1 i k) (\<lambda>_ e. (Return None, start e i m v)))"
  proof (rule push_then [OF e1(1)])
    show "kind_ok (code_size img) (stride e1) k" using k lim by simp
    show "length (task_frames e1 i) < lm_frames_per_task (ex_limits e1)" "0 < pool_available (ex_frames e1)"
      using room start(2) s1(2) lim e1(3) by simp_all
    fix e2 assume e2: "fluxes img i e0 e2" "pushes e1 i (k # task_frames e1 i) e2"
    note s2 = shapes_pushes [OF e2(2) i(2)]
    have "reshaped e0 i (local_step img (At pc, ks)) (start e2 i m v)"
      by (rule reshapedI [OF at_enter [OF into]])
        (use s1 s2 start fluxes_count [OF e2(1)] in \<open>simp add: shapes_start\<close>)
    then show "ends (\<lambda>_. reshaped e0 i (local_step img (At pc, ks))) F (Return None, start e2 i m v)"
      by simp
  qed
qed

lemma call_steps:
  assumes flux: "fluxes img i e0 e" and pc: "pc < code_size img"
    and start: "shapes e = shapes e0" "task_frames e i = ks"
    and room: "length ks + 1 \<le> lm_frames_per_task (ex_limits e)" "1 \<le> pool_available (ex_frames e)"
    and into: "descends (nd_kind (img_nodes img ! pc)) [] m"
  shows "ends (\<lambda>_. reshaped e0 i (local_step img (At pc, ks))) F
    (and_then (exec_push e i (K_Finish pc)) (\<lambda>_ e. (Return a, start e i m v)))"
proof (rule push_then [OF flux kind_ok_finish [OF pc]])
  show "length (task_frames e i) < lm_frames_per_task (ex_limits e)" "0 < pool_available (ex_frames e)"
    using room start(2) by simp_all
  fix e1 assume e1: "fluxes img i e0 e1" "pushes e i (K_Finish pc # task_frames e i) e1"
  note s1 = shapes_pushes [OF e1(2) fluxes_count [OF flux]]
  have "reshaped e0 i (local_step img (At pc, ks)) (start e1 i m v)"
    by (rule reshapedI [OF at_enter [OF into]])
      (use s1 start fluxes_count [OF e1(1)] in \<open>simp add: shapes_start\<close>)
  then show "ends (\<lambda>_. reshaped e0 i (local_step img (At pc, ks))) F (Return a, start e1 i m v)" by simp
qed

lemma finish_at:
  assumes "pc < code_size img" "i < task_count e" "shapes e = shapes e0" "task_frames e i = ks"
  shows "ends (\<lambda>_. reshaped e0 i (local_step img (At pc, ks))) F (finish vs img e i pc r)"
proof (rule ends_mono [OF finish_steps [OF assms(1,2)]])
  show "reshaped e0 i (local_step img (At pc, ks)) e'"
    if "reshaped e i (\<lambda>x. x = (Back, task_frames e i) \<or>
      (\<exists>m. nd_next (img_nodes img ! pc) = Some m \<and> x = (At m, task_frames e i))) e'" for e'
    using that assms(3,4) at_back at_next [of img pc _ ks] by (fastforce simp: reshaped_def)
qed simp

lemma request_steps:
  assumes "i < task_count e" "shapes e = shapes e0" "task_frames e i = ks" "im < img_imports img"
  shows "steps e0 i (local_step img (At pc, ks)) (request_step img e i pc pos im v)"
proof -
  have "reshaped e0 i (local_step img (At pc, ks)) (set_state (e\<lparr>ex_ticket := t\<rparr>) i (S_Waiting t pc))" for t
    by (rule reshapedI [OF at_stay]) (use assms in \<open>simp add: shapes_set_state\<close>)
  then show ?thesis
    using assms(2,4) by (simp add: request_step_def spared_def Let_def split: option.splits)
qed

text \<open>Forking needs two free tasks, the other constructs need frames.\<close>

definition vacancies :: "('v, 'e) shape list \<Rightarrow> nat" where
  "vacancies xs = length (filter (\<lambda>x. fst x = Vacant) xs)"

definition roomy :: "('v, 'e) image \<Rightarrow> ('v, 'e) exec \<Rightarrow> nat \<Rightarrow> bool" where
  "roomy img e i \<longleftrightarrow>
     (case status_of (task_at e i) of
        At n \<Rightarrow>
          length (task_frames e i) + demand (nd_kind (img_nodes img ! n)) \<le> lm_frames_per_task (ex_limits e) \<and>
          demand (nd_kind (img_nodes img ! n)) \<le> pool_available (ex_frames e) \<and>
          (is_fork (nd_kind (img_nodes img ! n)) \<longrightarrow> 2 \<le> vacancies (shapes e))
      | _ \<Rightarrow> length (task_frames e i) \<le> lm_frames_per_task (ex_limits e))"

lemma vacant_iff: "status_of t = Vacant \<longleftrightarrow> is_free (tk_state t)"
  by (cases "tk_state t") (simp_all add: status_of_def)

lemma vacancies_free: "vacancies (shapes e) = length (filter (\<lambda>j. is_free (tk_state (ex_tasks e ! j))) [0..<task_count e])"
  by (simp add: vacancies_def shapes_def filter_map comp_def vacant_iff task_at_def)

abbreviation shifts ::
  "('v, 'e) image \<Rightarrow> ('v, 'e) exec \<Rightarrow> ('a, fault) comp \<times> ('v, 'e) exec \<Rightarrow> bool" where
  "shifts img e \<equiv> ends (\<lambda>_ e'. shift img (shapes e) (shapes e')) (spared e)"

lemma fork_shifts:
  assumes flux: "fluxes img i e0 e" and ready: "tk_state (task_at e i) = S_Ready" "tk_pc (task_at e i) = pc"
    and start: "shapes e = shapes e0" and kind: "nd_kind (img_nodes img ! pc) = N_Fork l r j"
    and two: "2 \<le> vacancies (shapes e0)"
  shows "shifts img e0 (fork_step e i pc l r j v)"
proof -
  have "2 \<le> length (filter (\<lambda>j. is_free (tk_state (ex_tasks e ! j))) [0..<task_count e])"
    using two unfolding start [symmetric] vacancies_free .
  then obtain a b rest where ab: "filter (\<lambda>j. is_free (tk_state (ex_tasks e ! j))) [0..<task_count e] = a # b # rest"
    by (auto simp: Suc_le_length_iff numeral_2_eq_2)
  have i: "i < task_count e" by (rule fluxes_count [OF flux])
  from fork_step_result [OF flux ready(1) ab refl] obtain e' where
    step: "fork_step e i pc l r j v = (Return (), e')"
    and ne: "a < task_count e" "b < task_count e" "a \<noteq> b" "a \<noteq> i" "b \<noteq> i"
      "is_free (tk_state (task_at e a))" "is_free (tk_state (task_at e b))"
    and same: "task_count e' = task_count e" "ex_frames e' = ex_frames e"
    and at: "\<And>k. task_at e' k =
      (if k = i then (task_at e i)
         \<lparr>tk_state := S_Joining \<lparr>js_left = a, js_right = b, js_join = j, js_node = pc\<rparr>\<rparr>
       else if k = a \<or> k = b then (if k = b
           then (task_at e b)\<lparr>tk_pc := r, tk_input := Some v, tk_state := S_Ready\<rparr>
           else (task_at e a)\<lparr>tk_pc := l, tk_input := Some v, tk_state := S_Ready\<rparr>)\<lparr>tk_parent := Some i,
         tk_context := tk_context (task_at e i), tk_cleaning := tk_cleaning (task_at e i)\<rparr>
       else task_at e k)"
    by blast
  have f: "flux img i e" using flux by (simp add: fluxes_def)
  have free: "task_at e a = task_default" "task_at e b = task_default"
    using inv_exceptD(3) [OF f ne(1)] inv_exceptD(3) [OF f ne(2)] ne by (auto elim: is_free.elims)
  have "task_frames e' k = task_frames e k" for k using at free by (simp add: task_frames_def same)
  then have "shapes e' = (shapes e)[a := (At l, []), b := (At r, []), i := (Split a b pc, task_frames e i)]"
    by (intro shapes_eqI) (use at same ne free in \<open>auto simp: nth_list_update status_of_def\<close>)
  moreover have "shift img (shapes e)
      ((shapes e)[a := (At l, []), b := (At r, []), i := (Split a b pc, task_frames e i)])"
    by (rule fork) (use i ready kind ne free in \<open>auto simp: status_of_def task_default_def\<close>)
  ultimately show ?thesis using step start by simp
qed

lemma reshaped_shift:
  assumes "reshaped e i (local_step img (shapes e ! i)) e'" "i < task_count e"
  shows "shift img (shapes e) (shapes e')"
  using assms by (auto simp: reshaped_def intro!: local)

lemma ready_node_shifts:
  assumes flux: "fluxes img i e0 e" and ready: "tk_state (task_at e i) = S_Ready" "tk_pc (task_at e i) = pc"
    and start: "shapes e = shapes e0" and pc: "pc < code_size img"
    and room: "roomy img e i"
  shows "shifts img e0 (ready_node vs img e i pc (img_nodes img ! pc) v)"
proof -
  define ks where "ks = task_frames e i"
  define n where "n = img_nodes img ! pc"
  have i: "i < task_count e" "i < task_count e0"
    using fluxes_count [OF flux] arg_cong [OF start, of length] by simp_all
  have here: "shapes e0 ! i = (At pc, ks)"
    using i(1) ready by (simp add: start [symmetric] status_of_def ks_def)
  have room: "length ks + demand (nd_kind n) \<le> lm_frames_per_task (ex_limits e)"
    "demand (nd_kind n) \<le> pool_available (ex_frames e)" "is_fork (nd_kind n) \<Longrightarrow> 2 \<le> vacancies (shapes e0)"
    using room ready start by (simp_all add: roomy_def status_of_def n_def ks_def)
  note closed = closed_node(2-4) [OF fluxes_closed [OF flux] pc, folded n_def]
  have stride: "img_bindings img \<le> stride e" using fluxes_storage [OF flux] by (simp add: storage_ok_def)
  have up: "shifts img e0 r" if "steps e0 i (local_step img (At pc, ks)) r" for r :: "('x, fault) comp \<times> ('a, 'b) exec"
    using that by (rule ends_mono) (simp_all add: reshaped_shift [OF _ i(2), unfolded here])
  note fin = up [OF steps_silent [OF finish_at [OF pc i(1) start ks_def [symmetric]]]]
  note enter = up [OF enter_steps [OF flux pc _ start ks_def [symmetric]], folded n_def]
  note call = up [OF call_steps [OF flux pc start ks_def [symmetric]], folded n_def]
  note request = up [OF request_steps [OF i(1) start ks_def [symmetric]]]
  show ?thesis
    unfolding n_def [symmetric]
  proof (cases "nd_kind n")
    case (N_Load slot)
    then have slot: "slot < stride e" using closed stride by simp
    then show "shifts img e0 (ready_node vs img e i pc n v)"
      using N_Load fin start binding_index [OF fluxes_storage [OF flux] i(1) slot]
      by (auto simp: ready_node_def Let_def spared_def split: option.splits)
  next
    case (N_Fork l r j)
    then show "shifts img e0 (ready_node vs img e i pc n v)"
      using steps_silent [OF fork_shifts [OF flux ready start _ room(3)]]
      by (simp add: ready_node_def n_def)
  next
    case (N_If y m)
    have "shifts img e0 (and_then (exec_push e i (K_Finish pc)) (\<lambda>_ e. (Return None, start e i (if test then y else m) v)))" for test
      using room by (intro call) (auto simp: N_If intro: descends.intros)
    from this [of True] this [of False] show "shifts img e0 (ready_node vs img e i pc n v)"
      using N_If fin by (auto simp: ready_node_def split: result.splits)
  qed (use closed stride room fin in \<open>auto simp: ready_node_def kind_ok_def intro!: enter call request intro: descends.intros\<close>)
qed

section \<open>The arm of joining tasks\<close>

lemma join_shifts:
  assumes inv: "exec_inv img e" and i: "i < task_count e"
    and j: "tk_state (task_at e i) = S_Joining j"
  shows "ends (\<lambda>_ e'. shift img (shapes e) (shapes e')) (\<lambda>_ _. False) (join_step vs img e i j)"
proof -
  note c = join_children [OF inv i j]
  let ?a = "is_done (tk_state (task_at e (js_left j)))"
  let ?b = "is_done (tk_state (task_at e (js_right j)))"
  let ?ends = "ends (\<lambda>_ e'. shift img (shapes e) (shapes e')) (\<lambda>_ _. False)"
  have live: "\<not> is_free (tk_state (task_at e (js_left j)))" "\<not> is_free (tk_state (task_at e (js_right j)))"
    using live_parent [OF inv c(1)] live_parent [OF inv c(2)] c(7,8) by auto
  have marked: "ends (\<lambda>_ e'. marks e e') (\<lambda>_ _. False)
      (if js_join j = Join_Race \<and> (?a \<or> ?b) then cancel_tree e (if ?a then js_right j else js_left j)
       else (Return (), e))"
  proof -
    obtain e1 e2 where "cancel_tree e (js_left j) = (Return (), e1)" "marks e e1"
      "cancel_tree e (js_right j) = (Return (), e2)" "marks e e2"
      using cancel_tree_marks [OF inv c(1) live(1)] cancel_tree_marks [OF inv c(2) live(2)] by blast
    then show ?thesis by simp
  qed
  have rest: "?ends (if ?a \<and> ?b then join_collect vs img e' i j else (Return (), e'))"
    if m: "marks e e'" for e'
  proof (cases "?a \<and> ?b")
    case True
    have inv': "exec_inv img e'" by (rule marks_inv [OF m inv])
    note f = marks_fields(1) [OF m] and same = marks_same [OF m]
    have i': "i < task_count e'" "tk_state (task_at e' i) = S_Joining j" using i j by (simp_all add: f same)
    have dn: "is_done (tk_state (task_at e' (js_left j)))" "is_done (tk_state (task_at e' (js_right j)))"
      using True c by (simp_all add: f)
    obtain ra rb where r: "tk_state (task_at e' (js_left j)) = S_Done ra"
      "tk_state (task_at e' (js_right j)) = S_Done rb"
      using dn by (auto elim!: is_done.elims)
    have over: "shapes e ! js_left j = (Over, [])" "shapes e ! js_right j = (Over, [])"
      using inv_exceptD(3) [OF inv' c(1) [folded same(6)]] inv_exceptD(3) [OF inv' c(2) [folded same(6)]] r c(1,2)
      unfolding shapes_marks [OF m, symmetric] by (simp_all add: status_of_def same)
    let ?e2 = "set_state (set_state e' (js_left j) S_Free) (js_right j) S_Free"
    from both_freed [OF inv' i' dn refl] obtain e4 where
      e4: "and_then (free_task ?e2 (js_left j)) (\<lambda>_ e. free_task e (js_right j)) = (Return (), e4)"
      and flux: "fluxes img i e' e4"
      and at: "\<forall>k < task_count e'. task_at e4 k =
        (if k = js_left j \<or> k = js_right j then task_default else task_at e' k)"
      and fr: "\<forall>k < task_count e'. k \<noteq> js_left j \<longrightarrow> k \<noteq> js_right j \<longrightarrow> task_frames e4 k = task_frames e' k"
      by blast
    have count: "task_count e4 = task_count e" using flux same by (simp add: fluxes_def progress_def)
    let ?xs = "(shapes e)[js_left j := (Vacant, []), js_right j := (Vacant, [])]"
    have s4: "shapes e4 = ?xs"
    proof (rule shapes_eqI)
      fix k assume "k < length ?xs"
      then have k: "k < task_count e" "k < task_count e'" using same by simp_all
      show "(status_of (task_at e4 k), task_frames e4 k) = ?xs ! k"
      proof (cases "k = js_left j \<or> k = js_right j")
        case True
        then show ?thesis
          using at k c(1,2,3) by (auto simp: nth_list_update status_of_def task_default_def)
      next
        case False
        then have "(status_of (task_at e4 k), task_frames e4 k) = shapes e' ! k" using at fr k by simp
        then show ?thesis using False k shapes_marks [OF m] by simp
      qed
    qed (simp add: count)
    have here: "shapes e ! i = (Split (js_left j) (js_right j) (js_node j), task_frames e i)"
      using i j by (simp add: status_of_def)
    have own: "task_frames e4 i = task_frames e i"
      using arg_cong [OF s4, of "\<lambda>xs. snd (xs ! i)"] c(5,6) i count by simp
    have i4: "i < task_count e4" using i count by simp
    have fin: "?ends (finish vs img e4 i (js_node j) result)" for result
    proof (rule ends_mono [OF finish_steps [OF c(4) i4]])
      fix a e5
      assume "reshaped e4 i (\<lambda>x. x = (Back, task_frames e4 i) \<or>
          (\<exists>m. nd_next (img_nodes img ! js_node j) = Some m \<and> x = (At m, task_frames e4 i))) e5"
      then obtain x where x: "x = (Back, task_frames e i) \<or>
          (\<exists>m. nd_next (img_nodes img ! js_node j) = Some m \<and> x = (At m, task_frames e i))"
        "shapes e5 = ?xs[i := x]"
        using own s4 by (auto simp: reshaped_def)
      show "shift img (shapes e) (shapes e5)"
        unfolding x(2)
        by (rule join [OF _ here]) (use i c over x(1) in \<open>auto intro: at_back at_next\<close>)
    qed simp
    have "and_then (free_task ?e2 (js_left j)) (\<lambda>_ e. and_then (free_task e (js_right j)) (\<lambda>_ e.
        finish vs img e i (js_node j) result)) = finish vs img e4 i (js_node j) result" for result
      using e4(1) by (auto simp: and_then_def split: prod.splits comp.splits)
    moreover have "tk_state (ex_tasks (set_state e' (js_left j) S_Free) ! js_right j) = S_Done rb"
      using r(2) c(1,3) same by (simp add: set_state_def update_task_def task_at_def)
    ultimately show ?thesis
      using True r(1) fin by (simp add: join_collect_def Let_def task_at_def)
  next
    case False
    then show ?thesis using shapes_marks [OF m] by (auto intro: idle)
  qed
  have "?ends (and_then
      (if js_join j = Join_Race \<and> (?a \<or> ?b) then cancel_tree e (if ?a then js_right j else js_left j)
       else (Return (), e))
      (\<lambda>_ e'. if ?a \<and> ?b then join_collect vs img e' i j else (Return (), e')))"
    using rest by (rule ends_and_then [OF marked])
  moreover have "\<not> (task_count e \<le> js_left j \<or> task_count e \<le> js_right j)" using c(1,2) by simp
  ultimately show ?thesis unfolding join_step_def Let_def task_at_def by (simp only: if_False)
qed

section \<open>Transitions\<close>

lemma transition_shifts:
  assumes inv: "exec_inv img e" and i: "i < task_count e" and room: "roomy img e i"
  shows "shifts img e (transition vs img e i)"
proof -
  have at: "ex_tasks e ! i = task_at e i" by (simp add: task_at_def)
  show ?thesis
  proof (cases "tk_state (task_at e i)")
    case (S_Returning r)
    have "fluxes img i e e" using fluxes_open [OF inv i] S_Returning by simp
    then have flux: "fluxes img i e (set_state e i S_Ready)"
      using flux_set_state [of img i e S_Ready] progress_update [of i e e "\<lambda>t. t\<lparr>tk_state := S_Ready\<rparr>"] i
      by (simp add: fluxes_def set_state_def)
    have "ends (\<lambda>_. reshaped e i (local_step img (Back, task_frames e i))) (\<lambda>_ _. False)
        (return_step vs img (set_state e i S_Ready) i r)"
      by (rule return_step_steps [OF flux])
        (use i room S_Returning in \<open>simp_all add: set_state_def shapes_update roomy_def status_of_def\<close>)
    then have "shifts img e (return_step vs img (set_state e i S_Ready) i r)"
      by (rule ends_mono) (use reshaped_shift [OF _ i] i S_Returning in \<open>simp_all add: status_of_def\<close>)
    then show ?thesis using S_Returning i steps_silent by (simp add: transition_def at)
  next
    case (S_Joining j)
    have "shifts img e (join_step vs img e i j)"
      by (rule ends_mono [OF join_shifts [OF inv i S_Joining]]) simp_all
    then show ?thesis using S_Joining i steps_silent by (simp add: transition_def at)
  next
    case S_Ready
    obtain v where pc: "tk_pc (task_at e i) < code_size img" "tk_input (task_at e i) = Some v"
      using inv_exceptD(3) [OF inv i] S_Ready by auto
    have flux: "fluxes img i e e" using fluxes_open [OF inv i] S_Ready by simp
    have "shifts img e (ready_node vs img (set_input e i (Some r)) i (tk_pc (task_at e i))
        (img_nodes img ! tk_pc (task_at e i)) v)" for r
    proof (rule ready_node_shifts [OF fluxes_set_input [OF flux]])
      show "roomy img (set_input e i (Some r)) i"
        using room i by (simp add: roomy_def split: status.splits)
    qed (use S_Ready i pc in simp_all)
    then show ?thesis
      using pc(2) S_Ready i by (simp add: transition_def ready_step_def Let_def at image_node_in [OF pc(1)])
  qed (use i in \<open>auto simp: transition_def at intro: idle\<close>)
qed

section \<open>Host events\<close>

lemma enter_scope_shifts:
  assumes inv: "exec_inv img e" and i: "i < task_count e" and w: "tk_state (task_at e i) = S_Waiting k node"
    and room: "roomy img e i"
  shows "shifts img e (enter_scope img e i node context)"
proof -
  have flux: "fluxes img i e e" using fluxes_open [OF inv i] w by simp
  have node: "node < code_size img" and input: "tk_input (task_at e i) \<noteq> None"
    using inv_exceptD(3) [OF inv i] w by auto
  show ?thesis
  proof (cases "\<exists>im body. nd_kind (img_nodes img ! node) = N_Scope im body")
    case False
    then show ?thesis
      using node by (auto simp: enter_scope_def image_node_in spared_def split: node_kind.splits)
  next
    case True
    then obtain im body where kind: "nd_kind (img_nodes img ! node) = N_Scope im body" by blast
    have into: "descends (nd_kind (img_nodes img ! node)) [K_Context c] body" for c
      unfolding kind by (rule descends.intros)
    have room: "length (task_frames e i) + 2 \<le> lm_frames_per_task (ex_limits e)"
      "2 \<le> pool_available (ex_frames e)"
      using room w kind by (simp_all add: roomy_def status_of_def)
    have check: "exec_check e i 2 = (Return (), e)"
      using exec_check_eq [OF inv_exceptD(1) [OF inv] i, of 2] room by (simp add: u32_max_def)
    let ?enter = "\<lambda>e. let e = update_task e i (\<lambda>t. t\<lparr>tk_context := context\<rparr>) in
                 case tk_input (ex_tasks e ! i) of
                   None \<Rightarrow> (Raise Fault_Type, e)
                 | Some v \<Rightarrow> (Return (), start (set_input e i None) i body v)"
    have "shifts img e (and_then (exec_push e i (K_Finish node)) (\<lambda>_ e1.
        and_then (exec_push e1 i (K_Context (tk_context (ex_tasks e1 ! i)))) (\<lambda>_. ?enter)))"
    proof (rule push_then [OF flux kind_ok_finish [OF node]])
      show "length (task_frames e i) < lm_frames_per_task (ex_limits e)" "0 < pool_available (ex_frames e)"
        using room by simp_all
      fix e1 assume e1: "fluxes img i e e1" "pushes e i (K_Finish node # task_frames e i) e1"
        "pool_available (ex_frames e1) = pool_available (ex_frames e) - 1"
      note s1 = shapes_pushes [OF e1(2) i]
      note i1 = fluxes_count [OF e1(1)]
      let ?k = "K_Context (tk_context (ex_tasks e1 ! i))"
      have lim: "ex_limits e1 = ex_limits e" using pushes_keeps [OF e1(2)] by simp
      show "shifts img e (and_then (exec_push e1 i ?k) (\<lambda>_. ?enter))"
      proof (rule push_then [OF e1(1)])
        show "kind_ok (code_size img) (stride e1) ?k" by (simp add: kind_ok_def)
        show "length (task_frames e1 i) < lm_frames_per_task (ex_limits e1)" "0 < pool_available (ex_frames e1)"
          using room s1(2) lim e1(3) by simp_all
        fix e2 assume e2: "fluxes img i e e2" "pushes e1 i (?k # task_frames e1 i) e2"
        note s2 = shapes_pushes [OF e2(2) i1]
        note i2 = fluxes_count [OF e2(1)]
        let ?e3 = "update_task e2 i (\<lambda>t. t\<lparr>tk_context := context\<rparr>)"
        have "tk_input (task_at e2 i) \<noteq> None"
          using pushes_task [OF e1(2) i] pushes_task [OF e2(2) i1] input by auto
        then obtain v where v: "tk_input (ex_tasks ?e3 ! i) = Some v"
          using i2 by (auto simp: task_at_def [symmetric])
        have s3: "shapes ?e3 = shapes e2" "task_frames ?e3 i = task_frames e2 i"
          using i2 by (simp_all add: shapes_update list_update_same_conv)
        have here: "shapes e ! i = (At node, task_frames e i)" using i w by (simp add: status_of_def)
        have "reshaped e i (local_step img (At node, task_frames e i)) (start (set_input ?e3 i None) i body v)"
          by (rule reshapedI [OF at_enter [OF into]])
            (use s1 s2 s3 i2 in \<open>simp add: shapes_start\<close>)
        from reshaped_shift [OF this [folded here] i] v show "shifts img e (?enter e2)" by simp
      qed
    qed
    then show ?thesis using kind node check by (simp add: enter_scope_def image_node_in)
  qed
qed

fun continues :: "('v, 'e) host_event \<Rightarrow> bool" where
  "continues (HE_Continue _ _) = True"
| "continues _ = False"

lemma complete_shifts:
  assumes inv: "exec_inv img e" and room: "i < task_count e \<Longrightarrow> roomy img e i" and ev: "\<not> continues ev"
  shows "shifts img e (complete vs img e i ticket ev)"
proof (cases "terminal_result (tk_state (task_at e 0)) = None \<and> waits e i ticket")
  case False
  then show ?thesis
    by (auto simp: complete_def waits_def task_at_def spared_def get_def split: option.splits state.splits)
       (use inv inv_exceptD(6) [OF inv] in \<open>auto simp: spared_def\<close>)
next
  case True
  have id: "img_id img = ex_image_id e" and n: "ex_tasks e \<noteq> []"
    using inv inv_exceptD(6) [OF inv] by (auto simp: inv_except_def storage_ok_def)
  from True obtain node where i: "i < task_count e" and w: "tk_state (task_at e i) = S_Waiting ticket node"
    by (auto simp: waits_def)
  have node: "node < code_size img" using inv_exceptD(3) [OF inv i] w by auto
  have step: "complete vs img e i ticket ev =
      (case event_control vs img node ev of
         Err f \<Rightarrow> (Raise f, e)
       | Ok control \<Rightarrow>
           let e = keep_control vs e i control in
           (case ev of
              HE_Complete r \<Rightarrow> finish vs img e i node r
            | HE_Enter context \<Rightarrow> enter_scope img e i node context
            | HE_Continue entry input \<Rightarrow> enter_continuation vs img e i node entry input))"
    using id n True i w by (simp add: complete_def task_at_def get_def)
  show ?thesis
  proof (cases ev)
    case (HE_Complete r)
    obtain c where c: "keep_control vs e i (Some (v_retain_result vs r)) = set_input e i (Some c)"
      by (simp add: keep_control_def)
    have here: "shapes e ! i = (At node, task_frames e i)" using i w by (simp add: status_of_def)
    have "ends (\<lambda>_. reshaped e i (local_step img (At node, task_frames e i))) (spared e)
        (finish vs img (set_input e i (Some c)) i node r)"
      by (rule finish_at [OF node]) (use i in simp_all)
    then have "shifts img e (finish vs img (set_input e i (Some c)) i node r)"
      by (rule ends_mono) (simp_all add: reshaped_shift [OF _ i, unfolded here])
    then show ?thesis using c unfolding step by (simp add: HE_Complete event_control_def)
  next
    case (HE_Enter ctx)
    then show ?thesis
      using enter_scope_shifts [OF inv i w room [OF i]] unfolding step
      by (simp add: HE_Enter event_control_def keep_control_def)
  qed (use ev in simp)
qed

section \<open>The frame storage is never resized\<close>

lemma pool_allocate_slots: "pool_allocate p = (r, p') \<Longrightarrow> length (pl_slots p') = length (pl_slots p)"
  by (auto simp: pool_allocate_def Let_def split: if_splits option.splits)

lemma pool_push_slots: "pool_push (p, st) k m = (r, p', st') \<Longrightarrow> length (pl_slots p') = length (pl_slots p)"
  by (auto simp: pool_push_def Let_def dest!: pool_allocate_slots
      split: if_splits option.splits prod.splits comp.splits)

lemma pool_pop_slots: "pool_pop (p, st) = (r, p', st') \<Longrightarrow> length (pl_slots p') = length (pl_slots p)"
  by (auto simp: pool_pop_def Let_def split: if_splits option.splits)

lemma pool_drain_slots: "length (pl_slots (fst (snd (pool_drain ps)))) = length (pl_slots (fst ps))"
proof (induction ps rule: pool_drain.induct)
  case (1 ps)
  obtain r p st where pop: "pool_pop ps = (r, p, st)" by (cases "pool_pop ps")
  then have len: "length (pl_slots p) = length (pl_slots (fst ps))"
    using pool_pop_slots [of "fst ps" "snd ps"] by simp
  show ?case
  proof (cases "\<exists>k. r = Return (Some k)")
    case True
    then obtain k where r: "r = Return (Some k)" by blast
    have "pool_drain ps = pool_drain (p, st)" using pop r by (subst pool_drain.simps) simp
    then show ?thesis using 1 [OF pop [symmetric] r refl] len by simp
  next
    case False
    then show ?thesis using pop len by (subst pool_drain.simps) (auto split: comp.splits option.splits)
  qed
qed

lemma slots_push [simp]: "slots (snd (exec_push e i k)) = slots e"
  by (auto simp: exec_push_def Let_def dest: pool_push_slots split: prod.splits)

lemma slots_pop [simp]: "slots (snd (exec_pop e i)) = slots e"
  by (auto simp: exec_pop_def Let_def dest: pool_pop_slots split: prod.splits)

lemma slots_and_then:
  "slots (snd r) = n \<Longrightarrow> (\<And>a s. slots s = n \<Longrightarrow> slots (snd (k a s)) = n) \<Longrightarrow> slots (snd (and_then r k)) = n"
  by (cases r; cases "fst r") (auto simp: and_then_def)

lemma slots_updates [simp]:
  "slots (set_state e i s) = slots e" "slots (snd (exec_check e i n)) = slots e"
  "slots (snd (finish vs img e i node r)) = slots e"
  by (auto simp: set_state_def exec_check_def finish_def split: result.splits option.splits)

lemma slots_free [simp]: "slots (snd (free_task e i)) = slots e"
  using pool_drain_slots [of "(ex_frames e, tk_stack (ex_tasks e ! i))"]
  by (auto simp: free_task_def Let_def and_then_def split: prod.splits comp.splits)

lemma slots_cancel_tree [simp]: "slots (snd (cancel_tree e i)) = slots e"
  by (simp add: cancel_tree_def Let_def)

lemma slots_inherit [simp]: "slots (snd (inherit e i c)) = slots e"
  by (simp add: inherit_def Let_def)

lemma slots_return_frame [simp]: "slots (snd (return_frame vs img e i r k)) = slots e"
proof -
  have "slots (snd (return_bind e i slot body v)) = slots e" for slot body v
    by (auto simp: return_bind_def Let_def intro!: slots_and_then)
  then show ?thesis
    by (cases k) (auto simp: Let_def intro!: slots_and_then split: result.splits bool.splits)
qed

lemma slots_return [simp]: "slots (snd (return_step vs img e i r)) = slots e"
  by (auto simp: return_step_def Let_def intro!: slots_and_then split: option.splits)

lemma slots_join [simp]: "slots (snd (join_step vs img e i j)) = slots e"
proof -
  have "slots (snd (join_collect vs img e i j)) = slots e" for e
    by (auto simp: join_collect_def Let_def intro!: slots_and_then split: state.splits)
  then show ?thesis by (auto simp: join_step_def Let_def intro!: slots_and_then)
qed

lemma slots_ready_node [simp]: "slots (snd (ready_node vs img e i pc n v)) = slots e"
proof -
  have "slots (snd (fork_step e i pc l r j v)) = slots e" for l r j
    by (auto simp: fork_step_def Let_def intro!: slots_and_then split: list.splits)
  moreover have "slots (snd (request_step img e i pc pos im v)) = slots e" for pos im
    by (auto simp: request_step_def Let_def split: option.splits)
  ultimately show ?thesis
    by (auto simp: ready_node_def enter_def silent_def Let_def intro!: slots_and_then
        split: node_kind.splits result.splits option.splits)
qed

lemma slots_transition [simp]: "slots (snd (transition vs img e i)) = slots e"
  by (auto simp: transition_def ready_step_def silent_def Let_def intro!: slots_and_then
      split: state.splits result.splits option.splits)

lemma slots_complete [simp]: "slots (snd (complete vs img e i ticket ev)) = slots e"
proof -
  have "slots (snd (enter_scope img e i node c)) = slots e"
    "slots (snd (enter_continuation vs img e i node entry v)) = slots e" for e node c entry v
    by (auto simp: enter_scope_def enter_continuation_def Let_def intro!: slots_and_then
        split: result.splits node_kind.splits option.splits)
  moreover have "slots (keep_control vs e i c) = slots e" for c
    by (simp add: keep_control_def split: option.splits)
  ultimately show ?thesis
    by (auto simp: complete_def Let_def split: option.splits state.splits result.splits host_event.splits)
qed

end
