(* ===== verification/Resource_Bounds.thy ===== *)
theory Resource_Bounds
  imports Task_Shapes Machine_Contract
begin

text \<open>
  The bounds of \<open>analysis.rs\<close> against the machine of \<open>machine.rs\<close>: an execution given the tasks and
  frames the analysis reports never runs out of them. Each task holds a budget; it pays for its
  frames, and when it forks it divides what is left between its children.
\<close>

section \<open>The bounds along an edge\<close>

text \<open>\<open>within a b\<close>: the bound \<open>a\<close> is established and not above \<open>b\<close>, unless \<open>b\<close> is unbounded.\<close>

definition within :: "usize option \<Rightarrow> usize option \<Rightarrow> bool" where
  "within a b \<longleftrightarrow> (\<forall>y. b = Some y \<longrightarrow> (\<exists>x. a = Some x \<and> x \<le> y))"

lemma within_refl [simp]: "within a a"
  by (simp add: within_def)

lemma within_trans: "within a b \<Longrightarrow> within b c \<Longrightarrow> within a c"
  unfolding within_def using order_trans by blast

lemma within_maximum [simp]: "within a (maximum a b)" "within b (maximum a b)"
  by (auto simp: within_def maximum_def split: option.splits)

lemma within_Some: "within a (Some y) \<longleftrightarrow> (\<exists>x. a = Some x \<and> x \<le> y)"
  by (simp add: within_def)

lemma sum_opt_Some: "sum_opt a b = Some z \<longleftrightarrow> (\<exists>x y. a = Some x \<and> b = Some y \<and> z = x + y \<and> z \<le> usize_max)"
  by (auto simp: sum_opt_def checked_add_def split: option.splits)

lemma maximum_Some: "maximum a b = Some z \<longleftrightarrow> (\<exists>x y. a = Some x \<and> b = Some y \<and> z = max x y)"
  by (auto simp: maximum_def split: option.splits)

definition covers_edge :: "(u32 \<Rightarrow> usage) \<Rightarrow> usage \<Rightarrow> edge \<Rightarrow> bool" where
  "covers_edge child u e \<longleftrightarrow>
     (if eg_fork e then within (maximum (us_own (child (eg_entry e))) (us_child (child (eg_entry e)))) (us_child u)
      else within (sum_opt (Some (eg_frames e)) (us_own (child (eg_entry e)))) (us_own u) \<and>
        within (us_child (child (eg_entry e))) (us_child u) \<and>
        within (us_tasks (child (eg_entry e))) (us_tasks u) \<and>
        within (sum_opt (Some (eg_frames e)) (us_frames (child (eg_entry e)))) (us_frames u))"

text \<open>One edge after another only raises the usage.\<close>

definition below_usage :: "usage \<Rightarrow> usage \<Rightarrow> bool" where
  "below_usage u v \<longleftrightarrow>
     within (us_own u) (us_own v) \<and> within (us_child u) (us_child v) \<and>
     within (us_tasks u) (us_tasks v) \<and> within (us_frames u) (us_frames v)"

lemma below_usage_refl [simp]: "below_usage u u"
  by (simp add: below_usage_def)

lemma below_usage_trans: "below_usage u v \<Longrightarrow> below_usage v w \<Longrightarrow> below_usage u w"
  unfolding below_usage_def using within_trans by blast

lemma covers_edge_mono: "covers_edge child u e \<Longrightarrow> below_usage u v \<Longrightarrow> covers_edge child v e"
  unfolding covers_edge_def below_usage_def using within_trans by (auto split: if_splits)

lemma add_edge_covers:
  "below_usage (fst acc) (fst (add_edge e (child (eg_entry e)) acc))"
  "covers_edge child (fst (add_edge e (child (eg_entry e)) acc)) e"
  by (auto simp: add_edge_def below_usage_def covers_edge_def split: prod.splits)

lemma fold_covers:
  "below_usage (fst acc) (fst (foldl (\<lambda>acc e. case e of None \<Rightarrow> acc | Some e \<Rightarrow> add_edge e (child (eg_entry e)) acc) acc es)) \<and>
   (\<forall>e. Some e \<in> set es \<longrightarrow> covers_edge child
      (fst (foldl (\<lambda>acc e. case e of None \<Rightarrow> acc | Some e \<Rightarrow> add_edge e (child (eg_entry e)) acc) acc es)) e)"
proof (induction es arbitrary: acc)
  case (Cons eo es)
  show ?case
  proof (cases eo)
    case None
    then show ?thesis using Cons.IH [of acc] by simp
  next
    case (Some e)
    note ih = Cons.IH [of "add_edge e (child (eg_entry e)) acc"]
    show ?thesis
      using ih add_edge_covers [where acc = acc and e = e and child = child] covers_edge_mono below_usage_trans unfolding Some by fastforce
  qed
qed simp

lemma combine_usage_covers:
  "Some e \<in> set es \<Longrightarrow> covers_edge child (combine_usage child es) e"
  "within (Some 1) (us_tasks (combine_usage child es))"
proof -
  let ?acc = "foldl (\<lambda>acc e. case e of None \<Rightarrow> acc | Some e \<Rightarrow> add_edge e (child (eg_entry e)) acc)
    (usage_default, Some 1, Some 0) es"
  have up: "below_usage (fst ?acc) (combine_usage child es)"
    by (simp add: combine_usage_def Let_def below_usage_def split: prod.splits)
  show "covers_edge child (combine_usage child es) e" if "Some e \<in> set es"
    using fold_covers [of "(usage_default, Some 1, Some 0)" child es] that covers_edge_mono [OF _ up] by blast
  have "below_usage usage_default (fst ?acc)"
    using fold_covers [of "(usage_default, Some 1, Some 0)" child es] by simp
  then have "below_usage usage_default (combine_usage child es)" using up below_usage_trans by blast
  then show "within (Some 1) (us_tasks (combine_usage child es))"
    by (simp add: below_usage_def usage_default_def)
qed

text \<open>A fork needs what both of its sides need.\<close>

lemma combine_usage_fork:
  assumes "nd_kind n = N_Fork l r j"
  shows "within (sum_opt (sum_opt (Some 1) (us_tasks (child l))) (us_tasks (child r)))
      (us_tasks (combine_usage child (edges n)))"
    "within (sum_opt (sum_opt (Some 0) (us_frames (child l))) (us_frames (child r)))
      (us_frames (combine_usage child (edges n)))"
  using assms by (auto simp: combine_usage_def edges_def add_edge_def Let_def split: option.splits)

section \<open>Weights\<close>

text \<open>
  A weight gives each reachable instruction what a task needs from there on: \<open>a\<close> is the price of a
  frame, \<open>b\<close> that of a task. \<open>weighs\<close> states that no edge within a task needs more than its source;
  \<open>divides\<close> that a fork has enough for both of its sides.
\<close>

definition weighs :: "('v, 'e) image \<Rightarrow> nat \<Rightarrow> nat \<Rightarrow> nat set \<Rightarrow> (nat \<Rightarrow> nat) \<Rightarrow> bool" where
  "weighs img a b R w \<longleftrightarrow>
     (\<forall>n \<in> R. b \<le> w n \<and> (\<forall>e. Some e \<in> set (edges (img_nodes img ! n)) \<longrightarrow>
        eg_entry e \<in> R \<and> (\<not> eg_fork e \<longrightarrow> a * eg_frames e + w (eg_entry e) \<le> w n)))"

definition divides :: "('v, 'e) image \<Rightarrow> nat \<Rightarrow> nat set \<Rightarrow> (nat \<Rightarrow> nat) \<Rightarrow> bool" where
  "divides img b R w \<longleftrightarrow>
     (\<forall>n \<in> R. \<forall>l r j. nd_kind (img_nodes img ! n) = N_Fork l r j \<longrightarrow> b + w l + w r \<le> w n)"

lemma weighs_edge:
  assumes "weighs img a b R w" "n \<in> R" "Some e \<in> set (edges (img_nodes img ! n))"
  shows "eg_entry e \<in> R" "\<not> eg_fork e \<Longrightarrow> a * eg_frames e + w (eg_entry e) \<le> w n" "b \<le> w n"
  using assms by (auto simp: weighs_def)

text \<open>What the analysis reports gives the three weights.\<close>

lemma reached_edge:
  "i \<in> reached 0 code root \<Longrightarrow> Some e \<in> set (edges (code ! i)) \<Longrightarrow> eg_entry e \<in> reached 0 code root"
  using reached.edge [of i 0 code root e] by simp

lemma fixpoint_edge:
  assumes "usage_fixpoint 0 code root u" "i \<in> reached 0 code root" "Some e \<in> set (edges (code ! i))"
  shows "covers_edge u (u i) e"
  using assms combine_usage_covers(1) [OF assms(3), of u] by (simp add: usage_fixpoint_def)

lemma fixpoint_own:
  assumes fp: "usage_fixpoint 0 code root u" and top: "maximum (us_own (u root)) (us_child (u root)) = Some F"
    and i: "i \<in> reached 0 code root"
  shows "\<exists>x y. us_own (u i) = Some x \<and> us_child (u i) = Some y \<and> x \<le> F \<and> y \<le> F"
  using i
proof induction
  case entry
  then show ?case using top by (auto simp: maximum_Some)
next
  case (edge i e)
  then show ?case
    using fixpoint_edge [OF fp edge.hyps]
    by (auto simp: covers_edge_def within_Some sum_opt_Some maximum_Some split: if_splits)
qed

lemma fixpoint_tasks:
  assumes fp: "usage_fixpoint 0 code root u" and top: "us_tasks (u root) = Some T"
    and i: "i \<in> reached 0 code root"
  shows "\<exists>x. us_tasks (u i) = Some x"
  using i
proof induction
  case (edge i e)
  show ?case
  proof (cases "eg_fork e")
    case True
    then obtain l r j where kind: "nd_kind (code ! i) = N_Fork l r j" and e: "eg_entry e = l \<or> eg_entry e = r"
      using edge.hyps(2) by (cases "nd_kind (code ! i)") (auto simp: edges_def split: option.splits)
    have "u i = combine_usage u (edges (code ! i))" using fp edge.hyps(1) by (simp add: usage_fixpoint_def)
    then show ?thesis
      using combine_usage_fork(1) [OF kind, of u] edge.IH e by (auto simp: within_Some sum_opt_Some)
  next
    case False
    then show ?thesis
      using fixpoint_edge [OF fp edge.hyps] edge.IH by (auto simp: covers_edge_def within_Some)
  qed
qed (use top in simp)

lemma fixpoint_frames:
  assumes fp: "usage_fixpoint 0 code root u" and top: "us_frames (u root) = Some T"
    and i: "i \<in> reached 0 code root"
  shows "\<exists>x. us_frames (u i) = Some x"
  using i
proof induction
  case (edge i e)
  show ?case
  proof (cases "eg_fork e")
    case True
    then obtain l r j where kind: "nd_kind (code ! i) = N_Fork l r j" and e: "eg_entry e = l \<or> eg_entry e = r"
      using edge.hyps(2) by (cases "nd_kind (code ! i)") (auto simp: edges_def split: option.splits)
    have "u i = combine_usage u (edges (code ! i))" using fp edge.hyps(1) by (simp add: usage_fixpoint_def)
    then show ?thesis
      using combine_usage_fork(2) [OF kind, of u] edge.IH e by (auto simp: within_Some sum_opt_Some)
  next
    case False
    then show ?thesis
      using fixpoint_edge [OF fp edge.hyps] edge.IH by (auto simp: covers_edge_def within_Some sum_opt_Some)
  qed
qed (use top in simp)

definition bounds_ok ::
  "('v, 'e) image \<Rightarrow> nat set \<Rightarrow> nat \<Rightarrow> nat \<Rightarrow> nat \<Rightarrow> (nat \<Rightarrow> nat) \<Rightarrow> (nat \<Rightarrow> nat) \<Rightarrow> (nat \<Rightarrow> nat) \<Rightarrow> bool" where
  "bounds_ok img R T F N tasks own frames \<longleftrightarrow>
     img_entry img \<in> R \<and> (\<forall>n \<in> R. own n \<le> F) \<and> tasks (img_entry img) = T \<and> frames (img_entry img) = N \<and>
     weighs img 1 0 R own \<and> weighs img 0 1 R tasks \<and> divides img 1 R tasks \<and>
     weighs img 1 0 R frames \<and> divides img 0 R frames"

lemma reports_bounds:
  assumes rep: "reports 0 (img_nodes img) (img_entry img) r"
    and some: "rr_tasks r = Some T" "rr_frames_per_task r = Some F" "rr_frames r = Some N"
  shows "\<exists>R tasks own frames. bounds_ok img R T F N tasks own frames"
proof -
  let ?code = "img_nodes img" and ?root = "img_entry img"
  let ?R = "reached 0 ?code ?root"
  from rep some obtain u where fp: "usage_fixpoint 0 ?code ?root u"
    and top: "us_tasks (u ?root) = Some T" "maximum (us_own (u ?root)) (us_child (u ?root)) = Some F"
      "us_frames (u ?root) = Some N"
    by (auto simp: reports_def split: if_splits)
  note own = fixpoint_own [OF fp top(2)] and tasks = fixpoint_tasks [OF fp top(1)]
    and frames = fixpoint_frames [OF fp top(3)]
  have eq: "u i = combine_usage u (edges (?code ! i))" if "i \<in> ?R" for i
    using fp that by (simp add: usage_fixpoint_def)
  have edge: "eg_entry e \<in> ?R"
    "\<not> eg_fork e \<Longrightarrow> eg_frames e + the (us_own (u (eg_entry e))) \<le> the (us_own (u i))"
    "\<not> eg_fork e \<Longrightarrow> the (us_tasks (u (eg_entry e))) \<le> the (us_tasks (u i))"
    "\<not> eg_fork e \<Longrightarrow> eg_frames e + the (us_frames (u (eg_entry e))) \<le> the (us_frames (u i))"
    if "i \<in> ?R" "Some e \<in> set (edges (?code ! i))" for i e
    using reached_edge [OF that] fixpoint_edge [OF fp that] own [OF that(1)] tasks [OF that(1)] frames [OF that(1)]
    by (auto simp: covers_edge_def within_Some sum_opt_Some)
  have fork: "1 + the (us_tasks (u l)) + the (us_tasks (u r)) \<le> the (us_tasks (u i))"
    "the (us_frames (u l)) + the (us_frames (u r)) \<le> the (us_frames (u i))"
    if "i \<in> ?R" "nd_kind (?code ! i) = N_Fork l r j" for i l r j
    using combine_usage_fork [OF that(2), of u] tasks [OF that(1)] frames [OF that(1)] eq [OF that(1)]
    by (auto simp: within_Some sum_opt_Some)
  have one: "1 \<le> the (us_tasks (u i))" if "i \<in> ?R" for i
    using combine_usage_covers(2) [of u "edges (?code ! i)"] tasks [OF that] eq [OF that]
    by (auto simp: within_Some)
  have "weighs img 1 0 ?R (\<lambda>i. the (us_own (u i)))" "weighs img 0 1 ?R (\<lambda>i. the (us_tasks (u i)))"
    "weighs img 1 0 ?R (\<lambda>i. the (us_frames (u i)))"
    using edge one by (simp_all add: weighs_def)
  moreover have "divides img 1 ?R (\<lambda>i. the (us_tasks (u i)))" "divides img 0 ?R (\<lambda>i. the (us_frames (u i)))"
    unfolding divides_def using fork by (metis, metis add_0)
  moreover have "the (us_own (u i)) \<le> F" if "i \<in> ?R" for i using own [OF that] by auto
  ultimately have "bounds_ok img ?R T F N (\<lambda>i. the (us_tasks (u i))) (\<lambda>i. the (us_own (u i))) (\<lambda>i. the (us_frames (u i)))"
    unfolding bounds_ok_def using top reached.entry by simp
  then show ?thesis by blast
qed

section \<open>Budgets\<close>

text \<open>
  \<open>ahead\<close>: a task with \<open>d\<close> frames stacked can go to \<open>m\<close> within the budget \<open>B\<close>. A frame fits when
  every way to come back to it does.
\<close>

definition ahead :: "nat \<Rightarrow> nat set \<Rightarrow> (nat \<Rightarrow> nat) \<Rightarrow> nat \<Rightarrow> nat \<Rightarrow> nat \<Rightarrow> bool" where
  "ahead a R w B d m \<longleftrightarrow> m \<in> R \<and> a * d + w m \<le> B"

fun frame_fits :: "('v, 'e) image \<Rightarrow> (nat \<Rightarrow> nat \<Rightarrow> bool) \<Rightarrow> nat \<Rightarrow> ('v, 'e) frame_kind \<Rightarrow> bool" where
  "frame_fits img g d (K_Finish n) \<longleftrightarrow> (\<forall>m. nd_next (img_nodes img ! n) = Some m \<longrightarrow> g d m)"
| "frame_fits img g d (K_Then m) \<longleftrightarrow> g d m"
| "frame_fits img g d (K_Catch m) \<longleftrightarrow> g d m"
| "frame_fits img g d (K_Finally m _) \<longleftrightarrow> g (d + 1) m"
| "frame_fits img g d (K_Choose y n _) \<longleftrightarrow> g d y \<and> g d n"
| "frame_fits img g d (K_Bind _ m) \<longleftrightarrow> g (d + 1) m"
| "frame_fits img g d (K_Condition c m _ _) \<longleftrightarrow> g (d + 1) c \<and> g (d + 1) m"
| "frame_fits img g d (K_Iteration c m _) \<longleftrightarrow> g (d + 1) c \<and> g (d + 1) m"
| "frame_fits img g d (K_Cleaned _) \<longleftrightarrow> True"
| "frame_fits img g d (K_Context _) \<longleftrightarrow> True"
| "frame_fits img g d (K_Unbind _ _) \<longleftrightarrow> True"
| "frame_fits img g d K_Vacant \<longleftrightarrow> False"
| "frame_fits img g d (K_Continuation _ _) \<longleftrightarrow> False"

fun stack_fits ::
  "('v, 'e) image \<Rightarrow> nat \<Rightarrow> nat \<Rightarrow> (nat \<Rightarrow> nat \<Rightarrow> bool) \<Rightarrow> nat \<Rightarrow> ('v, 'e) frame_kind list \<Rightarrow> bool" where
  "stack_fits img a b g B [] \<longleftrightarrow> b \<le> B"
| "stack_fits img a b g B (k # ks) \<longleftrightarrow>
     frame_fits img g (length ks) k \<and> a * Suc (length ks) + b \<le> B \<and> stack_fits img a b g B ks"

definition shape_fits ::
  "('v, 'e) image \<Rightarrow> nat \<Rightarrow> nat \<Rightarrow> nat set \<Rightarrow> (nat \<Rightarrow> nat) \<Rightarrow> nat \<Rightarrow> ('v, 'e) shape \<Rightarrow> bool" where
  "shape_fits img a b R w B x \<longleftrightarrow>
     stack_fits img a b (ahead a R w B) B (snd x) \<and>
     (case fst x of
        At n \<Rightarrow> ahead a R w B (length (snd x)) n
      | Split _ _ n \<Rightarrow> ahead a R w B (length (snd x)) n
      | _ \<Rightarrow> True)"

lemma stack_fits_length: "stack_fits img a b g B ks \<Longrightarrow> a * length ks + b \<le> B"
  by (cases ks) auto

lemma shape_fits_length: "shape_fits img a b R w B x \<Longrightarrow> a * length (snd x) + b \<le> B"
  unfolding shape_fits_def using stack_fits_length by blast

text \<open>What entering a construct leaves for its parts.\<close>

lemma ahead_edge:
  assumes w: "weighs img a b R w" and n: "ahead a R w B d n"
    and e: "Some \<lparr>eg_entry = m, eg_frames = f, eg_fork = False\<rparr> \<in> set (edges (img_nodes img ! n))"
  shows "ahead a R w B (d + f) m" "a * (d + f) + b \<le> B"
proof -
  have nR: "n \<in> R" "a * d + w n \<le> B" using n by (simp_all add: ahead_def)
  have m: "m \<in> R" "a * f + w m \<le> w n" using weighs_edge [OF w nR(1) e] by simp_all
  then show "ahead a R w B (d + f) m" using nR(2) by (simp add: ahead_def algebra_simps)
  moreover have "b \<le> w m" using w m(1) by (simp add: weighs_def)
  ultimately show "a * (d + f) + b \<le> B" by (simp add: ahead_def)
qed

lemma ahead_less: "ahead a R w B d m \<Longrightarrow> d' \<le> d \<Longrightarrow> ahead a R w B d' m"
  unfolding ahead_def using mult_le_mono2 [of d' d a] by linarith

lemma ahead_next:
  assumes "weighs img a b R w" "ahead a R w B d n" "nd_next (img_nodes img ! n) = Some m"
  shows "ahead a R w B d m"
  using ahead_edge(1) [OF assms(1,2), of m 0] assms(3) by (simp add: edges_def)

lemma descends_fits:
  assumes w: "weighs img a b R w" and n: "ahead a R w B (length ks) n"
    and ks: "stack_fits img a b (ahead a R w B) B ks"
    and into: "descends (nd_kind (img_nodes img ! n)) fs m"
  shows "shape_fits img a b R w B (At m, fs @ K_Finish n # ks)"
proof -
  note edge = ahead_edge [OF w n]
  let ?edges = "set (edges (img_nodes img ! n))"
  have fin: "frame_fits img (ahead a R w B) (length ks) (K_Finish n)" using ahead_next [OF w n] by simp
  have one: "shape_fits img a b R w B (At m, K_Finish n # ks)" if "local_edge m 1 \<in> ?edges"
    using edge [OF that] fin ks by (simp add: shape_fits_def)
  have two: "shape_fits img a b R w B (At m, k # K_Finish n # ks)"
    if "local_edge m 2 \<in> ?edges" "frame_fits img (ahead a R w B) (Suc (length ks)) k" for k
    using edge [OF that(1)] that(2) fin ks by (simp add: shape_fits_def)
  from into show ?thesis
    by (cases rule: descends.cases)
      (use one two edge(1) [of _ 2] edge(1) [of _ 1] in \<open>simp_all add: edges_def\<close>)
qed

lemma resumes_fits:
  assumes w: "weighs img a b R w" and fits: "stack_fits img a b (ahead a R w B) B (k # ks)"
    and into: "resumes img k fs m"
  shows "shape_fits img a b R w B (At m, fs @ ks)"
  using into fits by cases (auto simp: shape_fits_def)

lemma local_step_fits:
  assumes w: "weighs img a b R w" and step: "local_step img x y" and fits: "shape_fits img a b R w B x"
  shows "shape_fits img a b R w B y"
  using step
proof cases
  case (at_next n m ks)
  then show ?thesis using fits ahead_next [OF w _ at_next(3)] by (simp add: shape_fits_def)
next
  case (at_enter n fs m ks)
  then show ?thesis using fits descends_fits [OF w _ _ at_enter(3)] by (simp add: shape_fits_def)
next
  case (back_resume k fs m ks)
  then show ?thesis using fits resumes_fits [OF w _ back_resume(3)] by (simp add: shape_fits_def)
qed (use fits in \<open>auto simp: shape_fits_def\<close>)

text \<open>One bound for every task: the frames of a single task.\<close>

definition all_fit ::
  "('v, 'e) image \<Rightarrow> nat \<Rightarrow> nat \<Rightarrow> nat set \<Rightarrow> (nat \<Rightarrow> nat) \<Rightarrow> nat \<Rightarrow> ('v, 'e) shape list \<Rightarrow> bool" where
  "all_fit img a b R w B xs \<longleftrightarrow> (\<forall>x \<in> set xs. shape_fits img a b R w B x)"

lemma all_fit_nth: "all_fit img a b R w B xs \<Longrightarrow> i < length xs \<Longrightarrow> shape_fits img a b R w B (xs ! i)"
  by (simp add: all_fit_def)

lemma all_fit_update:
  "all_fit img a b R w B xs \<Longrightarrow> shape_fits img a b R w B x \<Longrightarrow> all_fit img a b R w B (xs[i := x])"
  unfolding all_fit_def using set_update_subset_insert [of xs i x] by blast

lemma fork_targets:
  assumes "weighs img a b R w" "n \<in> R" "nd_kind (img_nodes img ! n) = N_Fork l r j"
  shows "l \<in> R" "r \<in> R"
  using weighs_edge(1) [OF assms(1,2), of "\<lparr>eg_entry = l, eg_frames = 0, eg_fork = True\<rparr>"]
    weighs_edge(1) [OF assms(1,2), of "\<lparr>eg_entry = r, eg_frames = 0, eg_fork = True\<rparr>"] assms(3)
  by (simp_all add: edges_def)

lemma all_fit_shift:
  assumes w: "weighs img a 0 R w" and top: "\<And>n. n \<in> R \<Longrightarrow> w n \<le> B"
    and step: "shift img xs ys" and fits: "all_fit img a 0 R w B xs"
  shows "all_fit img a 0 R w B ys"
  using step
proof cases
  case idle
  then show ?thesis using fits by simp
next
  case (local i x)
  then show ?thesis using local_step_fits [OF w local(3) all_fit_nth [OF fits local(2)]] fits all_fit_update by blast
next
  case (fork i n ks l r j c d)
  have n: "shape_fits img a 0 R w B (At n, ks)" using all_fit_nth [OF fits fork(2)] fork(3) by simp
  then have "n \<in> R" by (simp add: shape_fits_def ahead_def)
  then have "l \<in> R" "r \<in> R" using fork_targets [OF w _ fork(4)] by blast+
  then have "shape_fits img a 0 R w B (At l, [])" "shape_fits img a 0 R w B (At r, [])"
    using top by (simp_all add: shape_fits_def ahead_def)
  moreover have "shape_fits img a 0 R w B (Split c d n, ks)" using n by (simp add: shape_fits_def)
  ultimately show ?thesis unfolding fork(1) using fits by (intro all_fit_update)
next
  case (join i c d n ks x)
  have "shape_fits img a 0 R w B (At n, ks)"
    using all_fit_nth [OF fits join(2)] join(3) by (simp add: shape_fits_def)
  then have "shape_fits img a 0 R w B x" using local_step_fits [OF w join(11)] by blast
  moreover have "shape_fits img a 0 R w B (Vacant, [])" by (simp add: shape_fits_def)
  ultimately show ?thesis unfolding join(1) using fits by (intro all_fit_update)
qed

section \<open>Shared budgets\<close>

text \<open>
  \<open>tree_ok\<close>: the children of the joining tasks are live.
\<close>

definition tree_ok :: "('v, 'e) shape list \<Rightarrow> bool" where
  "tree_ok xs \<longleftrightarrow>
     (\<forall>i < length xs. \<forall>l r n. fst (xs ! i) = Split l r n \<longrightarrow> fst (xs ! l) \<noteq> Vacant \<and> fst (xs ! r) \<noteq> Vacant)"

text \<open>A task that waits for its children pays for its own frames; they hold the rest.\<close>

fun share :: "nat \<Rightarrow> nat \<Rightarrow> nat \<Rightarrow> ('v, 'e) shape \<Rightarrow> nat" where
  "share a b B (s, ks) =
     (case s of
        Vacant \<Rightarrow> 0
      | Split _ _ _ \<Rightarrow> b + a * length ks
      | Stopped \<Rightarrow> b + a * length ks
      | _ \<Rightarrow> B)"

definition affords ::
  "('v, 'e) image \<Rightarrow> nat \<Rightarrow> nat \<Rightarrow> nat set \<Rightarrow> (nat \<Rightarrow> nat) \<Rightarrow> nat \<Rightarrow> (nat \<Rightarrow> nat) \<Rightarrow> ('v, 'e) shape list \<Rightarrow> bool" where
  "affords img a b R w cap B xs \<longleftrightarrow>
     (\<forall>i < length xs. fst (xs ! i) \<noteq> Vacant \<longrightarrow> shape_fits img a b R w (B i) (xs ! i)) \<and>
     (\<forall>i < length xs. \<forall>l r n. fst (xs ! i) = Split l r n \<longrightarrow>
        B i = b + a * length (snd (xs ! i)) + B l + B r) \<and>
     (\<Sum>i < length xs. share a b (B i) (xs ! i)) \<le> cap"

lemma share_least:
  "shape_fits img a b R w B x \<Longrightarrow> fst x \<noteq> Vacant \<Longrightarrow> b + a * length (snd x) \<le> share a b B x"
  using shape_fits_length [of img a b R w B x] by (cases x) (auto split: status.splits)

lemma sum_one:
  fixes f g :: "nat \<Rightarrow> nat"
  assumes "i < n" "\<And>k. k < n \<Longrightarrow> k \<noteq> i \<Longrightarrow> g k = f k"
  shows "sum g {..<n} + f i = sum f {..<n} + g i"
proof -
  have "sum g ({..<n} - {i}) = sum f ({..<n} - {i})" using assms(2) by (intro sum.cong) auto
  then show ?thesis
    using sum.remove [of "{..<n}" i f] sum.remove [of "{..<n}" i g] assms(1) by simp
qed

lemma sum_three:
  fixes f g :: "nat \<Rightarrow> nat"
  assumes "i < n" "a < n" "b < n" "a \<noteq> b" "a \<noteq> i" "b \<noteq> i"
    and same: "\<And>k. k < n \<Longrightarrow> k \<notin> {a, b, i} \<Longrightarrow> g k = f k"
    and eq: "g a + g b + g i = f a + f b + f i"
  shows "sum g {..<n} = sum f {..<n}"
proof -
  have split: "sum h {..<n} = sum h ({..<n} - {a, b, i}) + (h a + h b + h i)" for h :: "nat \<Rightarrow> nat"
    using sum.subset_diff [of "{a, b, i}" "{..<n}" h] assms(1-6) by simp
  have "sum g ({..<n} - {a, b, i}) = sum f ({..<n} - {a, b, i})" using same by (intro sum.cong) auto
  then show ?thesis using split [of f] split [of g] eq by simp
qed

lemma affords_local:
  assumes w: "weighs img a b R w" and afford: "affords img a b R w cap B xs"
    and i: "i < length xs" and step: "local_step img (xs ! i) x"
  shows "affords img a b R w cap B (xs[i := x])"
proof -
  let ?ys = "xs[i := x]"
  have live: "fst (xs ! i) \<noteq> Vacant" "\<not> (\<exists>l r n. fst x = Split l r n)" "fst x \<noteq> Vacant"
    using step by (cases rule: local_step.cases; auto)+
  have fits: "shape_fits img a b R w (B i) (xs ! i)" using afford i live(1) by (simp add: affords_def)
  then have new: "shape_fits img a b R w (B i) x" by (rule local_step_fits [OF w step])
  have "share a b (B i) x \<le> share a b (B i) (xs ! i)"
    using step share_least [OF fits live(1)]
    by (cases rule: local_step.cases) auto
  moreover have "(\<Sum>k < length xs. share a b (B k) (?ys ! k)) + share a b (B i) (xs ! i) =
      (\<Sum>k < length xs. share a b (B k) (xs ! k)) + share a b (B i) x"
    using sum_one [of i "length xs" "\<lambda>k. share a b (B k) (?ys ! k)" "\<lambda>k. share a b (B k) (xs ! k)"] i
    by simp
  ultimately have "(\<Sum>k < length ?ys. share a b (B k) (?ys ! k)) \<le> cap"
    using afford by (simp add: affords_def)
  moreover have "shape_fits img a b R w (B k) (?ys ! k)" if "k < length ?ys" "fst (?ys ! k) \<noteq> Vacant" for k
    using that afford new by (cases "k = i") (simp_all add: affords_def)
  moreover have "B k = b + a * length (snd (?ys ! k)) + B l + B r"
    if "k < length ?ys" "fst (?ys ! k) = Split l r n" for k l r n
    using that afford live(2) i by (cases "k = i") (auto simp: affords_def)
  ultimately show ?thesis unfolding affords_def by blast
qed

lemma affords_fork:
  assumes w: "weighs img a b R w" and d: "divides img b R w" and afford: "affords img a b R w cap B xs"
    and tree: "tree_ok xs"
    and i: "i < length xs" "xs ! i = (At n, ks)" "nd_kind (img_nodes img ! n) = N_Fork l r j"
    and kids: "c < length xs" "e < length xs" "c \<noteq> e" "xs ! c = (Vacant, [])" "xs ! e = (Vacant, [])"
  shows "\<exists>B. affords img a b R w cap B (xs[c := (At l, []), e := (At r, []), i := (Split c e n, ks)])"
proof -
  let ?ys = "xs[c := (At l, []), e := (At r, []), i := (Split c e n, ks)]"
  let ?B = "B(c := B i - b - a * length ks - w r, e := w r)"
  have ne: "c \<noteq> i" "e \<noteq> i" using i(2) kids(4,5) by auto
  have fits: "shape_fits img a b R w (B i) (At n, ks)" using afford i by (auto simp: affords_def)
  then have n: "n \<in> R" "a * length ks + w n \<le> B i" by (simp_all add: shape_fits_def ahead_def)
  have lr: "l \<in> R" "r \<in> R" using fork_targets [OF w n(1) i(3)] .
  have cost: "b + w l + w r \<le> w n" using d n(1) i(3) by (simp add: divides_def)
  have least: "b \<le> w l" "b \<le> w r" using w lr by (simp_all add: weighs_def)
  have room: "w l \<le> B i - b - a * length ks - w r" "b \<le> B i - b - a * length ks - w r"
    using n(2) cost least(1) by linarith+
  have at: "?ys ! c = (At l, [])" "?ys ! e = (At r, [])" "?ys ! i = (Split c e n, ks)"
    "\<And>k. k \<notin> {c, e, i} \<Longrightarrow> ?ys ! k = xs ! k"
    using i kids ne by simp_all
  have "(\<Sum>k < length xs. share a b (?B k) (?ys ! k)) = (\<Sum>k < length xs. share a b (B k) (xs ! k))"
  proof (rule sum_three [OF i(1) kids(1,2,3) ne])
    fix k assume "k \<notin> {c, e, i}"
    then show "share a b (?B k) (?ys ! k) = share a b (B k) (xs ! k)" using at(4) by simp
  next
    show "share a b (?B c) (?ys ! c) + share a b (?B e) (?ys ! e) + share a b (?B i) (?ys ! i) =
        share a b (B c) (xs ! c) + share a b (B e) (xs ! e) + share a b (B i) (xs ! i)"
      unfolding at using i(2) kids ne n cost by simp
  qed
  then have "(\<Sum>k < length ?ys. share a b (?B k) (?ys ! k)) \<le> cap" using afford by (simp add: affords_def)
  moreover have "shape_fits img a b R w (?B k) (?ys ! k)" if "k < length ?ys" "fst (?ys ! k) \<noteq> Vacant" for k
  proof -
    consider "k = c" | "k = e" | "k = i" | "k \<notin> {c, e, i}" by blast
    then show ?thesis
    proof cases
      case 1
      then show ?thesis using at(1) kids(3) lr(1) room by (simp add: shape_fits_def ahead_def)
    next
      case 2
      then show ?thesis using at(2) lr least by (simp add: shape_fits_def ahead_def)
    next
      case 3
      then show ?thesis using at(3) ne fits by (simp add: shape_fits_def)
    next
      case 4
      then show ?thesis using at(4) [OF 4] that afford by (simp add: affords_def)
    qed
  qed
  moreover have "?B k = b + a * length (snd (?ys ! k)) + ?B l' + ?B r'"
    if k: "k < length ?ys" "fst (?ys ! k) = Split l' r' n'" for k l' r' n'
  proof (cases "k = i")
    case True
    then have "l' = c" "r' = e" using k(2) at(3) by simp_all
    then show ?thesis using True at(3) ne kids(3) n cost by simp
  next
    case False
    have "k \<noteq> c" "k \<noteq> e" using k(2) at(1,2) by auto
    then have split: "fst (xs ! k) = Split l' r' n'" "?ys ! k = xs ! k" using k(2) at(4) [of k] False by simp_all
    then have "fst (xs ! l') \<noteq> Vacant" "fst (xs ! r') \<noteq> Vacant" using tree k(1) split(1) unfolding tree_ok_def length_list_update by blast+
    then have "l' \<notin> {c, e}" "r' \<notin> {c, e}" using kids(4,5) by auto
    then show ?thesis
      using afford split k(1) \<open>k \<noteq> c\<close> \<open>k \<noteq> e\<close> by (simp add: affords_def)
  qed
  ultimately show ?thesis unfolding affords_def by blast
qed

lemma affords_join:
  assumes w: "weighs img a b R w" and afford: "affords img a b R w cap B xs"
    and i: "i < length xs" "xs ! i = (Split c e n, ks)"
    and kids: "c < length xs" "e < length xs" "c \<noteq> e" "i \<noteq> c" "i \<noteq> e" "xs ! c = (Over, [])" "xs ! e = (Over, [])"
    and step: "local_step img (At n, ks) x"
    and x: "x = (Back, ks) \<or> (\<exists>m. nd_next (img_nodes img ! n) = Some m \<and> x = (At m, ks))"
  shows "affords img a b R w cap B (xs[c := (Vacant, []), e := (Vacant, []), i := x])"
proof -
  let ?ys = "xs[c := (Vacant, []), e := (Vacant, []), i := x]"
  have fits: "shape_fits img a b R w (B i) (Split c e n, ks)" using afford i by (auto simp: affords_def)
  then have "shape_fits img a b R w (B i) (At n, ks)" by (simp add: shape_fits_def)
  then have new: "shape_fits img a b R w (B i) x" by (rule local_step_fits [OF w step])
  have eq: "B i = b + a * length ks + B c + B e" using afford i by (auto simp: affords_def)
  have at: "?ys ! c = (Vacant, [])" "?ys ! e = (Vacant, [])" "?ys ! i = x"
    "\<And>k. k \<notin> {c, e, i} \<Longrightarrow> ?ys ! k = xs ! k"
    using i kids by simp_all
  have "(\<Sum>k < length xs. share a b (B k) (?ys ! k)) = (\<Sum>k < length xs. share a b (B k) (xs ! k))"
  proof (rule sum_three [OF i(1) kids(1,2,3)])
    fix k assume "k \<notin> {c, e, i}"
    then show "share a b (B k) (?ys ! k) = share a b (B k) (xs ! k)" using at(4) by simp
  next
    have "share a b (B i) x = B i" using x by auto
    then show "share a b (B c) (?ys ! c) + share a b (B e) (?ys ! e) + share a b (B i) (?ys ! i) =
        share a b (B c) (xs ! c) + share a b (B e) (xs ! e) + share a b (B i) (xs ! i)"
      unfolding at using i(2) kids eq by simp
  qed (use kids in auto)
  then have "(\<Sum>k < length ?ys. share a b (B k) (?ys ! k)) \<le> cap" using afford by (simp add: affords_def)
  moreover have "shape_fits img a b R w (B k) (?ys ! k)" if "k < length ?ys" "fst (?ys ! k) \<noteq> Vacant" for k
    using that at afford new by (cases "k \<in> {c, e, i}") (auto simp: affords_def)
  moreover have "B k = b + a * length (snd (?ys ! k)) + B l + B r"
    if "k < length ?ys" "fst (?ys ! k) = Split l r n'" for k l r n'
    using that at afford x by (cases "k \<in> {c, e, i}") (auto simp: affords_def)
  ultimately show ?thesis unfolding affords_def by blast
qed

lemma affords_shift:
  assumes "weighs img a b R w" "divides img b R w" "affords img a b R w cap B xs" "tree_ok xs" "shift img xs ys"
  shows "\<exists>B. affords img a b R w cap B ys"
  using assms(5)
proof cases
  case idle
  then show ?thesis using assms(3) by blast
next
  case (local i x)
  then show ?thesis using affords_local [OF assms(1,3)] by blast
next
  case (fork i n ks l r j c d)
  show ?thesis unfolding fork(1) by (rule affords_fork [OF assms(1-4) fork(2-9)])
next
  case (join i c d n ks x)
  show ?thesis unfolding join(1) using affords_join [OF assms(1,3) join(2-12)] by blast
qed

section \<open>Storage that is large enough\<close>

lemma demand_weight:
  assumes "weighs img 1 b R w" "n \<in> R"
  shows "demand (nd_kind (img_nodes img ! n)) \<le> w n"
proof -
  note edge = weighs_edge(2) [OF assms, unfolded edges_def]
  show ?thesis
  proof (cases "nd_kind (img_nodes img ! n)")
    case (N_Then first m)
    then show ?thesis using edge [of "\<lparr>eg_entry = first, eg_frames = 2, eg_fork = False\<rparr>"] by simp
  next
    case (N_Catch body recover)
    then show ?thesis using edge [of "\<lparr>eg_entry = body, eg_frames = 2, eg_fork = False\<rparr>"] by simp
  next
    case (N_Finally body cleanup)
    then show ?thesis using edge [of "\<lparr>eg_entry = body, eg_frames = 2, eg_fork = False\<rparr>"] by simp
  next
    case (N_If yes no)
    then show ?thesis using edge [of "\<lparr>eg_entry = yes, eg_frames = 1, eg_fork = False\<rparr>"] by simp
  next
    case (N_Branch condition yes no)
    then show ?thesis using edge [of "\<lparr>eg_entry = condition, eg_frames = 2, eg_fork = False\<rparr>"] by simp
  next
    case (N_Let slot val body)
    then show ?thesis using edge [of "\<lparr>eg_entry = val, eg_frames = 2, eg_fork = False\<rparr>"] by simp
  next
    case (N_While condition body bound)
    then show ?thesis using edge [of "\<lparr>eg_entry = condition, eg_frames = 2, eg_fork = False\<rparr>"] by simp
  next
    case (N_Call entry)
    then show ?thesis using edge [of "\<lparr>eg_entry = entry, eg_frames = 1, eg_fork = False\<rparr>"] by simp
  next
    case (N_Scope im body)
    then show ?thesis using edge [of "\<lparr>eg_entry = body, eg_frames = 2, eg_fork = False\<rparr>"] by simp
  qed simp_all
qed

text \<open>What is in use, and what the task that stands at \<open>n\<close> may still use.\<close>

lemma affords_room:
  assumes afford: "affords img a b R w cap B xs" and i: "i < length xs" "xs ! i = (At n, ks)"
  shows "n \<in> R" "(\<Sum>k < length xs. if fst (xs ! k) = Vacant then 0 else b + a * length (snd (xs ! k))) + w n \<le> cap + b"
proof -
  let ?use = "\<lambda>k. if fst (xs ! k) = Vacant then 0 else b + a * length (snd (xs ! k))"
  let ?pay = "\<lambda>k. share a b (B k) (xs ! k)"
  have fits: "shape_fits img a b R w (B k) (xs ! k)" if "k < length xs" "fst (xs ! k) \<noteq> Vacant" for k
    using afford that by (simp add: affords_def)
  have here: "n \<in> R" "a * length ks + w n \<le> B i"
    using fits [OF i(1)] i(2) by (simp_all add: shape_fits_def ahead_def)
  show "n \<in> R" by (rule here)
  have "sum ?use ({..<length xs} - {i}) \<le> sum ?pay ({..<length xs} - {i})"
    using share_least [OF fits] by (intro sum_mono) auto
  then have "sum ?use {..<length xs} + ?pay i \<le> sum ?pay {..<length xs} + ?use i"
    using sum.remove [of "{..<length xs}" i ?use] sum.remove [of "{..<length xs}" i ?pay] i(1) by simp
  moreover have "sum ?pay {..<length xs} \<le> cap" using afford by (simp add: affords_def)
  ultimately show "sum ?use {..<length xs} + w n \<le> cap + b" using here(2) i(2) by simp
qed

definition provisioned :: "('v, 'e) image \<Rightarrow> ('v, 'e) exec \<Rightarrow> bool" where
  "provisioned img e \<longleftrightarrow> exec_inv img e \<and>
     (\<exists>R T F N tasks own frames. bounds_ok img R T F N tasks own frames \<and>
        T \<le> task_count e \<and> F \<le> lm_frames_per_task (ex_limits e) \<and> N \<le> slots e \<and>
        all_fit img 1 0 R own F (shapes e) \<and>
        (\<exists>B. affords img 0 1 R tasks T B (shapes e)) \<and> (\<exists>B. affords img 1 0 R frames N B (shapes e)))"

lemma provisionedI:
  assumes "exec_inv img e" "bounds_ok img R T F N tasks own frames"
    and "T \<le> task_count e" "F \<le> lm_frames_per_task (ex_limits e)" "N \<le> slots e"
    and "all_fit img 1 0 R own F (shapes e)" "\<exists>B. affords img 0 1 R tasks T B (shapes e)"
    and "\<exists>B. affords img 1 0 R frames N B (shapes e)"
  shows "provisioned img e"
  unfolding provisioned_def using assms by blast

lemma provisioned_inv: "provisioned img e \<Longrightarrow> exec_inv img e"
  by (simp add: provisioned_def)

lemma shapes_tree:
  assumes inv: "exec_inv img e"
  shows "tree_ok (shapes e)"
  unfolding tree_ok_def
proof (intro allI impI)
  fix i l r n assume i: "i < length (shapes e)" and split: "fst (shapes e ! i) = Split l r n"
  then obtain j where j: "tk_state (task_at e i) = S_Joining j" "l = js_left j" "r = js_right j"
    by (auto simp: status_of_def split: state.splits)
  have joined: "joined img e i j" using inv_exceptD(3) [OF inv, of i] i j(1) by simp
  have live: "fst (shapes e ! k) \<noteq> Vacant" if "k < task_count e" "tk_parent (task_at e k) = Some i" for k
  proof
    assume "fst (shapes e ! k) = Vacant"
    then have "tk_state (task_at e k) = S_Free" using that(1) by (simp add: vacant_iff) (cases "tk_state (task_at e k)"; simp)
    then have "task_at e k = task_default" using inv_exceptD(3) [OF inv that(1)] by simp
    then show False using that(2) by (simp add: task_default_def)
  qed
  show "fst (shapes e ! l) \<noteq> Vacant \<and> fst (shapes e ! r) \<noteq> Vacant"
    using joined live j(2,3) by (simp add: joined_def)
qed

lemma provisioned_shift:
  assumes "provisioned img e" "exec_inv img e'" "shift img (shapes e) (shapes e')"
    and "ex_limits e' = ex_limits e" "slots e' = slots e"
  shows "provisioned img e'"
proof -
  from assms(1) obtain R T F N tasks own frames B C where inv: "exec_inv img e"
    and b: "bounds_ok img R T F N tasks own frames"
    and room: "T \<le> task_count e" "F \<le> lm_frames_per_task (ex_limits e)" "N \<le> slots e"
    and fit: "all_fit img 1 0 R own F (shapes e)"
    and B: "affords img 0 1 R tasks T B (shapes e)" and C: "affords img 1 0 R frames N C (shapes e)"
    by (auto simp: provisioned_def)
  note tree = shapes_tree [OF inv]
  have len: "length (shapes e') = length (shapes e)" using assms(3) by cases simp_all
  have w: "weighs img 1 0 R own" "\<And>n. n \<in> R \<Longrightarrow> own n \<le> F" "weighs img 0 1 R tasks" "divides img 1 R tasks"
    "weighs img 1 0 R frames" "divides img 0 R frames"
    using b by (simp_all add: bounds_ok_def)
  have fit': "all_fit img 1 0 R own F (shapes e')" by (rule all_fit_shift [OF w(1,2) assms(3) fit])
  show ?thesis
    using room len assms(4,5) affords_shift [OF w(3,4) B tree assms(3)] affords_shift [OF w(5,6) C tree assms(3)]
    by (intro provisionedI [OF assms(2) b _ _ _ fit']) simp_all
qed

lemma shift_steps:
  "i < task_count e \<Longrightarrow> local_step img (shapes e ! i) x \<Longrightarrow> shapes e' = (shapes e)[i := x] \<Longrightarrow>
   shift img (shapes e) (shapes e')"
  using local [of i "shapes e" img x] by simp

lemma vacant_frames:
  assumes inv: "exec_inv img e" and k: "k < task_count e" "status_of (task_at e k) = Vacant"
  shows "task_frames e k = []"
proof -
  have "tk_state (task_at e k) = S_Free" using k(2) by (cases "tk_state (task_at e k)") (simp_all add: status_of_def)
  then have "task_at e k = task_default" using inv_exceptD(3) [OF inv k(1)] by simp
  then show ?thesis by (simp add: task_frames_def task_default_def)
qed

lemma vacancies_count:
  "(\<Sum>k < length xs. if fst (xs ! k) = Vacant then 0 else 1) + vacancies xs = length xs"
proof (induction xs rule: rev_induct)
  case (snoc x xs)
  then show ?case by (simp add: vacancies_def nth_append)
qed (simp add: vacancies_def)

lemma provisioned_room:
  assumes "provisioned img e" "i < task_count e"
  shows "roomy img e i"
proof -
  from assms(1) obtain R T F N tasks own frames B C where inv: "exec_inv img e"
    and b: "bounds_ok img R T F N tasks own frames"
    and room: "T \<le> task_count e" "F \<le> lm_frames_per_task (ex_limits e)" "N \<le> slots e"
    and fit: "all_fit img 1 0 R own F (shapes e)"
    and B: "affords img 0 1 R tasks T B (shapes e)" and C: "affords img 1 0 R frames N C (shapes e)"
    by (auto simp: provisioned_def)
  let ?xs = "shapes e"
  have w: "weighs img 1 0 R own" "weighs img 0 1 R tasks" "divides img 1 R tasks" "weighs img 1 0 R frames"
    using b by (simp_all add: bounds_ok_def)
  have own: "shape_fits img 1 0 R own F (?xs ! i)" by (rule all_fit_nth [OF fit]) (use assms(2) in simp)
  show ?thesis
  proof (cases "\<exists>n. status_of (task_at e i) = At n")
    case True
    then obtain n where at: "?xs ! i = (At n, task_frames e i)" "status_of (task_at e i) = At n"
      using assms(2) by auto
    let ?d = "demand (nd_kind (img_nodes img ! n))"
    have n: "n \<in> R" "length (task_frames e i) + own n \<le> F" using own at(1) by (simp_all add: shape_fits_def ahead_def)
    have "length (task_frames e i) + ?d \<le> lm_frames_per_task (ex_limits e)"
      using n demand_weight [OF w(1) n(1)] room(2) by simp
    moreover have "?d \<le> pool_available (ex_frames e)"
    proof -
      have "pool_inv (ex_frames e) (map tk_stack (ex_tasks e))"
        using inv by (simp add: inv_except_def storage_ok_def)
      from pool_inv_used [OF this] have used: "pool_available (ex_frames e) +
          (\<Sum>k < task_count e. length (task_frames e k)) = slots e"
        by (simp add: comp_def sum_list_sum_nth task_frames_def task_at_def atLeast0LessThan)
      have use: "(\<Sum>k < length ?xs. if fst (?xs ! k) = Vacant then 0 else 0 + 1 * length (snd (?xs ! k))) =
          (\<Sum>k < task_count e. length (task_frames e k))"
      proof (rule sum.cong)
        fix k assume "k \<in> {..<task_count e}"
        then show "(if fst (?xs ! k) = Vacant then 0 else 0 + 1 * length (snd (?xs ! k))) = length (task_frames e k)"
          using vacant_frames [OF inv, of k] by auto
      qed simp
      have "(\<Sum>k < task_count e. length (task_frames e k)) + frames n \<le> N"
        using affords_room(2) [OF C _ at(1)] assms(2) unfolding use by simp
      then show ?thesis using demand_weight [OF w(4) n(1)] used room(3) by simp
    qed
    moreover have "2 \<le> vacancies ?xs" if "is_fork (nd_kind (img_nodes img ! n))"
    proof -
      from that obtain l r j where kind: "nd_kind (img_nodes img ! n) = N_Fork l r j"
        by (cases "nd_kind (img_nodes img ! n)") auto
      have lr: "l \<in> R" "r \<in> R" using fork_targets [OF w(2) n(1) kind] .
      have "1 + tasks l + tasks r \<le> tasks n" "1 \<le> tasks l" "1 \<le> tasks r"
        using w(2,3) kind n(1) lr by (simp_all add: weighs_def divides_def)
      then have "(\<Sum>k < length ?xs. if fst (?xs ! k) = Vacant then 0 else 1) + 2 \<le> length ?xs"
        using affords_room(2) [OF B _ at(1)] assms(2) room(1) by (simp cong: if_cong)
      moreover have "(\<Sum>k < length ?xs. if fst (?xs ! k) = Vacant then 0 else 1) + vacancies ?xs = length ?xs"
        by (rule vacancies_count)
      ultimately show ?thesis by linarith
    qed
    ultimately show ?thesis using at(2) by (simp add: roomy_def)
  next
    case False
    then show ?thesis
      using shape_fits_length [OF own] assms(2) room(2) by (auto simp: roomy_def split: status.split)
  qed
qed

section \<open>Runs that stay within the reported storage\<close>

lemma provisioned_same:
  assumes "provisioned img e" "exec_inv img e'" "shapes e' = shapes e" "ex_limits e' = ex_limits e" "slots e' = slots e"
  shows "provisioned img e'"
  by (rule provisioned_shift [OF assms(1,2) _ assms(4,5)]) (simp add: assms(3) idle)

text \<open>Starting a run in storage of the reported size.\<close>

lemma provisioned_new:
  assumes rep: "reports 0 (img_nodes img) (img_entry img) r"
    and some: "rr_tasks r = Some T" "rr_frames_per_task r = Some F" "rr_frames r = Some N"
    and room: "T \<le> length tasks" "N \<le> length frames" "F \<le> lm_frames_per_task lim"
    and new: "exec_new img tasks frames bindings lim input ctx = Ok e"
  shows "provisioned img e"
proof -
  have inv: "exec_inv img e" using new by (rule exec_new_inv)
  obtain R tw own fw where b: "bounds_ok img R T F N tw own fw"
    using reports_bounds [OF rep some] by blast
  let ?root = "(At (img_entry img), [])"
  have e: "task_count e = length tasks" "slots e = length frames" "ex_limits e = lim" "tasks \<noteq> []"
    using new by (auto simp: exec_new_def pool_new_def split: result.splits if_splits)
  have root: "status_of (task_at e 0) = At (img_entry img)"
    and rest: "\<And>k. k < task_count e \<Longrightarrow> k \<noteq> 0 \<Longrightarrow> status_of (task_at e k) = Vacant"
    and empty: "\<And>k. k < task_count e \<Longrightarrow> tk_stack (task_at e k) = stack_default"
    using new by (auto simp: exec_new_def task_at_def status_of_def task_default_def nth_list_update split: result.splits if_splits)
  have none: "task_frames e k = []" if "k < task_count e" for k
    using empty [OF that] by (simp add: task_frames_def)
  have xs: "shapes e = (replicate (length tasks) (Vacant, []))[0 := ?root]"
    using e root rest none by (intro nth_equalityI) (auto simp: nth_list_update)
  have R: "img_entry img \<in> R" "own (img_entry img) \<le> F" "tw (img_entry img) = T" "fw (img_entry img) = N" "1 \<le> T"
    using b by (auto simp: bounds_ok_def weighs_def)
  have fit: "all_fit img 1 0 R own F (shapes e)"
    using R unfolding xs all_fit_def by (auto dest!: set_update_subset_insert [THEN subsetD] simp: shape_fits_def ahead_def)
  have fits: "affords img a b R w cap (\<lambda>_. cap) (shapes e)" if "w (img_entry img) = cap" "b \<le> cap" for a b w cap
  proof -
    have "(\<Sum>k < length tasks. share a b cap (shapes e ! k)) = (\<Sum>k < length tasks. if k = 0 then cap else 0)"
      using e(4) unfolding xs by (intro sum.cong) auto
    also have "\<dots> = cap" using e(4) by (simp add: sum.delta)
    finally show ?thesis
      using e(1,4) R(1) that by (auto simp: affords_def xs nth_list_update shape_fits_def ahead_def split: if_splits)
  qed
  have "affords img 0 1 R tw T (\<lambda>_. T) (shapes e)" "affords img 1 0 R fw N (\<lambda>_. N) (shapes e)"
    using R(3-5) by (intro fits; simp)+
  then show ?thesis
    using e(1-3) room by (intro provisionedI [OF inv b _ _ _ fit]) auto
qed

lemma provisioned_returning:
  assumes "provisioned img e" "i < task_count e" "exec_inv img (set_state e i (S_Returning r))"
    and "status_of (task_at e i) = Back \<or> (\<exists>n. status_of (task_at e i) = At n)"
  shows "provisioned img (set_state e i (S_Returning r))"
proof (rule provisioned_shift [OF assms(1,3)])
  have "local_step img (shapes e ! i) (Back, task_frames e i)"
    using assms(2,4) at_back back_stay by auto
  then show "shift img (shapes e) (shapes (set_state e i (S_Returning r)))"
    using assms(2) by (intro shift_steps [of i]) (simp_all add: shapes_set_state)
qed (simp_all add: set_state_def)

lemma provisioned_transition:
  assumes p: "provisioned img e" and i: "i < task_count e"
  shows "ends (\<lambda>_. provisioned img)
    (\<lambda>f e'. f \<noteq> Fault_Frames \<and> f \<noteq> Fault_Tasks \<and> provisioned img (set_state e' i (S_Returning r)))
    (transition vs img e i)"
proof -
  note inv = provisioned_inv [OF p]
  note moves = transition_shifts [OF inv i provisioned_room [OF p i], of vs]
  note holds = transition_settles [OF inv i, of vs]
  obtain x e' where step: "transition vs img e i = (x, e')" by (cases "transition vs img e i")
  have slots: "slots e' = slots e" using slots_transition [of vs img e i] step by simp
  show ?thesis
  proof (cases x)
    case (Return a)
    then have "settled img e e'" "shift img (shapes e) (shapes e')" using step moves holds by simp_all
    then show ?thesis
      using step Return slots provisioned_shift [OF p, of e'] by (simp add: settled_def progress_def)
  next
    case (Raise f)
    have f: "f \<noteq> Fault_Frames" "f \<noteq> Fault_Tasks" "shapes e' = shapes e" and flux: "fluxes img i e e'"
      using step moves holds Raise by (simp_all add: spared_def)
    have i': "i < task_count e'" using fluxes_count [OF flux] .
    have inv': "exec_inv img (set_state e' i (S_Returning r))" and lim: "ex_limits e' = ex_limits e"
      using settled_returning [OF flux, of r] flux by (simp_all add: settled_def fluxes_def progress_def)
    have "status_of (task_at e i) = Back \<or> (\<exists>n. status_of (task_at e i) = At n)"
    proof (cases "tk_state (task_at e i)")
      case (S_Joining j)
      then have "transition vs img e i = silent (join_step vs img e i j)"
        using i by (simp add: transition_def task_at_def)
      then show ?thesis
        using step Raise join_shifts [OF inv i S_Joining, of vs]
        by (cases "join_step vs img e i j"; cases "fst (join_step vs img e i j)") (auto simp: silent_def and_then_def)
    qed (use step Raise i in \<open>auto simp: transition_def status_of_def task_at_def\<close>)
    then have "local_step img (shapes e ! i) (Back, task_frames e i)"
      using i at_back back_stay by auto
    moreover have "task_frames e' i = task_frames e i"
      using arg_cong [OF f(3), of "\<lambda>xs. snd (xs ! i)"] i i' by simp
    ultimately have "shift img (shapes e) (shapes (set_state e' i (S_Returning r)))"
      using i i' f(3) by (intro shift_steps [of i]) (simp_all add: shapes_set_state)
    then have "provisioned img (set_state e' i (S_Returning r))"
      using provisioned_shift [OF p inv'] lim slots by (simp add: set_state_def)
    then show ?thesis using step Raise f by simp
  qed (use step holds in auto)
qed

lemma provisioned_cancel:
  assumes p: "provisioned img e"
  shows "provisioned img (snd (cancel e))"
proof -
  note inv = provisioned_inv [OF p]
  obtain e' where e': "cancel e = (Return (), e')" "exec_inv img e'" "ex_limits e' = ex_limits e"
    using cancel_inv [OF inv] unfolding evolves_def by metis
  have "shapes e' = shapes e \<and> slots e' = slots e"
  proof -
    let ?m = "e\<lparr>ex_tasks := map (\<lambda>t. if cancel_skips (tk_state t) then t else t\<lparr>tk_cancelled := True\<rparr>)
        (ex_tasks e)\<rparr>"
    have "marks e ?m" by (rule marksI [OF refl]) (auto simp: task_at_def elim!: is_free.elims)
    then have m: "shapes ?m = shapes e" by (rule shapes_marks)
    consider "e' = e" | "e' = ?m\<lparr>ex_aborting := True\<rparr>"
      using e'(1) by (auto simp: cancel_def split: if_splits option.splits)
    then show ?thesis
    proof cases
      case 2
      then have "shapes e' = shapes ?m" by (simp only: shapes_fields)
      then show ?thesis using m 2 by simp
    qed simp
  qed
  then show ?thesis using provisioned_same [OF p e'(2)] e' by simp
qed

lemma provisioned_counters:
  assumes "provisioned img e"
  shows "provisioned img (e\<lparr>ex_cursor := c\<rparr>)" "provisioned img (e\<lparr>ex_steps := n\<rparr>)"
    "provisioned img (e\<lparr>ex_cleanup_steps := n\<rparr>)"
  using provisioned_inv [OF assms] by (auto intro!: provisioned_same [OF assms])

lemma provisioned_select:
  assumes "provisioned img e" "\<And>i. i < task_count e \<Longrightarrow> \<not> halted (tk_state (task_at e i))"
  shows "provisioned img (snd (select vs e offs))"
  using assms
proof (induction offs arbitrary: e)
  case (Cons off offs)
  define i where "i = (ex_cursor e + off) mod task_count e"
  note inv = provisioned_inv [OF Cons.prems(1)]
  have i: "i < task_count e" using inv_exceptD(6) [OF inv] by (simp add: i_def)
  have at: "ex_tasks e ! i = task_at e i" by (simp add: task_at_def)
  define e' where "e' = (if (tk_cancelled (task_at e i) \<and> tk_cleaning (task_at e i) = 0) \<and> interruptible (tk_state (task_at e i))
    then set_state e i (S_Returning (fault_result vs e i Fault_Cancelled)) else e)"
  show ?case
  proof (cases "is_free (tk_state (task_at e i)) \<or> is_done (tk_state (task_at e i))")
    case True
    then show ?thesis using Cons by (simp add: Let_def i_def [symmetric] at)
  next
    case False
    have "provisioned img e'"
      using False Cons.prems(2) [OF i] interrupt_settled [OF inv i]
      unfolding e'_def by (cases "tk_state (task_at e i)")
        (auto simp: halted_def settled_def status_of_def intro!: provisioned_returning Cons.prems(1) i)
    moreover have "\<not> halted (tk_state (task_at e' k))" if "k < task_count e'" for k
      using that i Cons.prems(2) by (auto simp: e'_def set_state_def halted_def split: if_splits)
    ultimately have "provisioned img (snd (select vs e' offs))" by (rule Cons.IH)
    moreover have "snd (select vs e (off # offs)) \<in> {e, e', snd (select vs e' offs)}"
      unfolding select.simps Let_def i_def [symmetric] at e'_def [symmetric]
      using False by (simp split: option.split comp.split bool.split)
    ultimately show ?thesis using \<open>provisioned img e'\<close> Cons.prems(1) by auto
  qed
qed simp

text \<open>
  One round of the scheduler runs at most one task: \<open>turn\<close> is that task and the execution its
  transition starts from.
\<close>

definition turn :: "('v, 'e) vals \<Rightarrow> ('v, 'e) exec \<Rightarrow> (usize \<times> ('v, 'e) exec) option" where
  "turn vs e =
     (if terminal_result (tk_state (ex_tasks e ! 0)) \<noteq> None then None
      else
        let e = (if over_budget e then snd (cancel e) else e) in
        case select vs e [0..<task_count e] of
          (Return (Scan_Task i), e) \<Rightarrow>
            if ex_aborting e \<and> lm_cleanup_steps (ex_limits e) \<le> ex_cleanup_steps e then None
            else
              let e = (if ex_aborting e then e\<lparr>ex_cleanup_steps := ex_cleanup_steps e + 1\<rparr>
                       else e\<lparr>ex_steps := saturating_add u64_max (ex_steps e) 1\<rparr>)
              in Some (i, e\<lparr>ex_cursor := (i + 1) mod task_count e\<rparr>)
        | _ \<Rightarrow> None)"

text \<open>The end of a turn: a fault of the transition becomes the result of the task.\<close>

definition turned ::
  "('v, 'e) vals \<Rightarrow> usize \<Rightarrow> (('v, 'e) advance option, fault) comp \<times> ('v, 'e) exec \<Rightarrow>
   (('v, 'e) advance option, fault) comp \<times> ('v, 'e) exec" where
  "turned vs i r =
     (case r of
        (Raise f, e) \<Rightarrow> (Return None, set_state e i (S_Returning (fault_result vs e i f)))
      | r \<Rightarrow> r)"

lemma round_turn:
  assumes inv: "exec_inv img e" and turn: "turn vs e = Some (i, e1)"
  shows "advance_round vs img e = turned vs i (transition vs img e1 i)"
proof -
  have n: "ex_tasks e \<noteq> []" using inv_exceptD(6) [OF inv] by auto
  obtain e' where cancel: "cancel e = (Return (), e')" using cancel_inv [OF inv] by blast
  show ?thesis
    using turn n cancel
    by (auto simp: turn_def advance_round_def dispatch_def run_task_def turned_def Let_def and_then_def
        split: if_splits prod.splits comp.splits scan.splits)
qed

lemma provisioned_quiet:
  assumes p: "provisioned img e" and quiet: "terminal_result (tk_state (task_at e 0)) = None"
  defines "e' \<equiv> if over_budget e then snd (cancel e) else e"
  shows "provisioned img e'" "\<And>k. k < task_count e' \<Longrightarrow> \<not> halted (tk_state (task_at e' k))"
proof -
  note inv = provisioned_inv [OF p]
  show p': "provisioned img e'" using p provisioned_cancel [OF p] by (simp add: e'_def)
  have "terminal_result (tk_state (task_at e' 0)) = None"
  proof (cases "over_budget e")
    case True
    obtain f where "cancel e = (Return (), f)" "tk_state (task_at f 0) = tk_state (task_at e 0)"
      using cancel_inv [OF inv] inv_exceptD(6) [OF inv] by metis
    then show ?thesis using True quiet by (simp add: e'_def)
  qed (simp add: e'_def quiet)
  then show "\<not> halted (tk_state (task_at e' k))" if "k < task_count e'" for k
    using not_halted [OF provisioned_inv [OF p'] _ that] by simp
qed

lemma provisioned_turn:
  assumes p: "provisioned img e" and turn: "turn vs e = Some (i, e1)"
  shows "provisioned img e1" "i < task_count e1"
proof -
  let ?e = "if over_budget e then snd (cancel e) else e"
  have quiet: "terminal_result (tk_state (task_at e 0)) = None"
    using turn by (auto simp: turn_def task_at_def split: if_splits)
  note start = provisioned_quiet [OF p quiet]
  obtain e2 where sel: "select vs ?e [0..<task_count ?e] = (Return (Scan_Task i), e2)"
    and e1: "e1 = (if ex_aborting e2 then e2\<lparr>ex_cleanup_steps := ex_cleanup_steps e2 + 1\<rparr>
        else e2\<lparr>ex_steps := saturating_add u64_max (ex_steps e2) 1\<rparr>)\<lparr>ex_cursor := (i + 1) mod task_count e2\<rparr>"
    using turn by (auto simp: turn_def Let_def split: if_splits prod.splits comp.splits scan.splits)
  have p2: "provisioned img e2" using provisioned_select [OF start, of vs "[0..<task_count ?e]"] sel by simp
  then show "provisioned img e1" unfolding e1 by (intro provisioned_counters) (auto intro: provisioned_counters)
  have "i < task_count e2"
    using select_ends [OF provisioned_inv [OF start(1)] start(2), of vs "[0..<task_count ?e]"] sel
    by (simp add: scanned_def)
  then show "i < task_count e1" by (simp add: e1)
qed

lemma provisioned_round:
  assumes p: "provisioned img e"
  shows "provisioned img (snd (advance_round vs img e))"
proof (cases "turn vs e")
  case (Some t)
  obtain i e1 where t: "t = (i, e1)" by (cases t)
  note start = provisioned_turn [OF p Some [unfolded t]]
  show ?thesis
    unfolding round_turn [OF provisioned_inv [OF p] Some [unfolded t]]
    using provisioned_transition [OF start, of _ vs]
    by (cases "transition vs img e1 i"; cases "fst (transition vs img e1 i)") (auto simp: turned_def ends_def)
next
  case None
  have n: "ex_tasks e \<noteq> []" using inv_exceptD(6) [OF provisioned_inv [OF p]] by auto
  show ?thesis
  proof (cases "terminal_result (tk_state (task_at e 0))")
    case (Some r)
    then show ?thesis using p n by (simp add: advance_round_def task_at_def)
  next
    case quiet: None
    let ?e = "if over_budget e then snd (cancel e) else e"
    note start = provisioned_quiet [OF p quiet]
    obtain s e2 where sel: "select vs ?e [0..<task_count ?e] = (s, e2)"
      by (cases "select vs ?e [0..<task_count ?e]")
    have p2: "provisioned img e2" using provisioned_select [OF start, of vs "[0..<task_count ?e]"] sel by simp
    obtain e' where cancel: "cancel e = (Return (), e')"
      using cancel_inv [OF provisioned_inv [OF p]] by blast
    have n2: "0 < task_count e2" using inv_exceptD(6) [OF provisioned_inv [OF p2]] .
    have quiet2: "\<not> halted (tk_state (task_at e2 0))" if "\<exists>i. s = Return (Scan_Task i)"
      using that select_ends [OF provisioned_inv [OF start(1)] start(2), of vs "[0..<task_count ?e]"] sel n2 by auto
    have halt: "provisioned img (set_state e2 0 (S_Halted r (state_join (tk_state (task_at e2 0)))))"
      if "\<exists>i. s = Return (Scan_Task i)" for r
    proof (rule provisioned_shift [OF p2 halt_inv [OF provisioned_inv [OF p2] quiet2 [OF that] root_live]])
      show "exec_inv img e2" by (rule provisioned_inv [OF p2])
      have "local_step img (shapes e2 ! 0) (Stopped, task_frames e2 0)"
        using n2 root_live [OF provisioned_inv [OF p2]] by (simp add: halts vacant_iff)
      then show "shift img (shapes e2) (shapes (set_state e2 0 (S_Halted r (state_join (tk_state (task_at e2 0))))))"
        using n2 by (intro shift_steps [of 0]) (simp_all add: shapes_set_state)
    qed (simp_all add: set_state_def)
    have "snd (advance_round vs img e) = e2 \<or>
        (\<exists>i. s = Return (Scan_Task i)) \<and>
        (\<exists>r. snd (advance_round vs img e) = set_state e2 0 (S_Halted r (state_join (tk_state (task_at e2 0)))))"
      using None quiet n sel cancel
      by (auto simp: turn_def advance_round_def dispatch_def Let_def and_then_def task_at_def
          split: if_splits prod.splits comp.splits scan.splits)
    then show ?thesis using p2 halt by auto
  qed
qed

text \<open>
  The executions of a host that starts in given storage and answers requests with results and scopes;
  \<open>HE_Continue\<close>, whose entry the analysis does not see, image extension and resumption are left out.
\<close>

inductive visits :: "('v, 'e) image \<Rightarrow> ('v, 'e) exec \<Rightarrow> ('v, 'e) exec \<Rightarrow> bool" for img e0 where
  visits_start: "visits img e0 e0"
| visits_round: "visits img e0 e \<Longrightarrow> visits img e0 (snd (advance_round vs img e))"
| visits_complete: "visits img e0 e \<Longrightarrow> \<not> continues ev \<Longrightarrow> visits img e0 (snd (complete vs img e i ticket ev))"
| visits_cancel: "visits img e0 e \<Longrightarrow> visits img e0 (snd (cancel e))"
| visits_clear: "visits img e0 e \<Longrightarrow> visits img e0 (snd (clear_bindings e lo hi))"

lemma provisioned_complete:
  assumes p: "provisioned img e" and ev: "\<not> continues ev"
  shows "fst (complete vs img e i ticket ev) \<noteq> Raise Fault_Frames" "provisioned img (snd (complete vs img e i ticket ev))"
proof -
  note inv = provisioned_inv [OF p]
  note moves = complete_shifts [OF inv provisioned_room [OF p] ev, of i vs ticket]
  note holds = complete_ends [OF inv, of i ticket vs ev]
  obtain x e' where step: "complete vs img e i ticket ev = (x, e')" by (cases "complete vs img e i ticket ev")
  have slots: "slots e' = slots e" using slots_complete [of vs img e i ticket ev] step by simp
  have "x \<noteq> Raise Fault_Frames \<and> provisioned img e'"
  proof (cases x)
    case (Return a)
    then have "settled img e e'" "shift img (shapes e) (shapes e')" using step moves holds by (simp_all add: delivered_def)
    then show ?thesis using Return slots provisioned_shift [OF p, of e'] by (simp add: settled_def progress_def)
  next
    case (Raise f)
    then have "settled img e e'" "shapes e' = shapes e" "f \<noteq> Fault_Frames" using step moves holds by (simp_all add: spared_def)
    then show ?thesis using Raise slots provisioned_same [OF p, of e'] by (simp add: settled_def progress_def)
  qed (use step holds in simp)
  then show "fst (complete vs img e i ticket ev) \<noteq> Raise Fault_Frames" "provisioned img (snd (complete vs img e i ticket ev))"
    using step by simp_all
qed

lemma visits_provisioned:
  assumes "provisioned img e0" "visits img e0 e"
  shows "provisioned img e"
  using assms(2)
proof induction
  case (visits_clear e lo hi)
  obtain r e' where step: "clear_bindings e lo hi = (r, e')" by (cases "clear_bindings e lo hi")
  have inv: "exec_inv img e'" "ex_limits e' = ex_limits e"
    using clear_bindings_inv [OF provisioned_inv [OF visits_clear.IH] step] by (simp_all add: evolves_def)
  have "ex_tasks e' = ex_tasks e" "ex_frames e' = ex_frames e"
    using step by (auto simp: clear_bindings_def Let_def split: if_splits prod.splits)
  then have "provisioned img e'"
    by (intro provisioned_same [OF visits_clear.IH inv(1)]) (simp_all add: inv shapes_def task_at_def task_frames_def)
  then show ?case using step by simp
qed (use assms(1) provisioned_round provisioned_complete provisioned_cancel in auto)

lemma visits_loop: "visits img e0 e \<Longrightarrow> visits img e0 (snd (advance_loop vs img fuel e))"
proof (induction fuel arbitrary: e)
  case (Suc fuel)
  show ?case
    using Suc.IH [OF visits_round [OF Suc.prems, of vs]] visits_round [OF Suc.prems, of vs]
    by (cases "advance_round vs img e"; cases "fst (advance_round vs img e)")
      (auto simp: and_then_def split: option.split)
qed simp

lemma visits_advance: "visits img e0 e \<Longrightarrow> visits img e0 (snd (advance vs img e fuel))"
  by (simp add: advance_def visits_loop)

text \<open>
  C6: the reported requirements suffice. When the analysis bounds the tasks, the frames of a task and
  the frames of the run, and a run starts in storage with at least as many, then no turn of the
  scheduler ends in \<open>Fault::Frames\<close> or \<open>Fault::Tasks\<close>, no answer of the host does, and \<open>advance\<close> only
  passes through such executions. The host may advance, answer requests with results and scopes,
  cancel and clear bindings. It may not answer with \<open>HostEvent::Continue\<close>, extend the image or resume
  on other storage: code that enters in those ways is not part of what the analysis has seen.
\<close>

theorem requirements_suffice:
  assumes "image_requirements img scratch = Return r"
    and "rr_tasks r = Some T" "rr_frames_per_task r = Some F" "rr_frames r = Some N"
    and "T \<le> length tasks" "N \<le> length frames" "F \<le> lm_frames_per_task lim"
    and "exec_new img tasks frames bindings lim input ctx = Ok e0" "visits img e0 e"
  shows "(\<forall>i e1. turn vs e = Some (i, e1) \<longrightarrow>
      advance_round vs img e = turned vs i (transition vs img e1 i) \<and>
      fst (transition vs img e1 i) \<notin> {Raise Fault_Frames, Raise Fault_Tasks}) \<and>
    (\<forall>i ticket ev. \<not> continues ev \<longrightarrow> fst (complete vs img e i ticket ev) \<noteq> Raise Fault_Frames) \<and>
    visits img e0 (snd (advance vs img e fuel))"
proof -
  have p: "provisioned img e"
    using provisioned_new [OF image_requirements_reports [OF assms(1)] assms(2-8)] assms(9)
    by (rule visits_provisioned)
  have "fst (transition vs img e1 i) \<notin> {Raise Fault_Frames, Raise Fault_Tasks}" if "turn vs e = Some (i, e1)" for i e1
    using provisioned_transition [OF provisioned_turn [OF p that], of _ vs]
    by (cases "transition vs img e1 i"; cases "fst (transition vs img e1 i)") (auto simp: ends_def)
  then show ?thesis
    using round_turn [OF provisioned_inv [OF p]] provisioned_complete(1) [OF p] visits_advance [OF assms(9)]
    by auto
qed

definition demo_shares :: "(nat, nat) image" where
  "demo_shares = demo_program [N_Fork 1 2 Join_All, N_Then 3 3, N_Input, N_Request 2]"

lemma demo_requirements:
  "image_requirements demo_shares (replicate 4 slot_fresh) =
     Return \<lparr>rr_tasks = Some 3, rr_frames_per_task = Some 2, rr_frames = Some 2, rr_bindings_per_task = 0\<rparr>"
  by (simp add: image_requirements_def module_requirements_def demo_shares_def demo_program_def node_new_def
      eval_nat_numeral visit_indices_def image_version_1_def slot_fresh_def usage_default_def)
    (simp add: search_loop.simps edges_def search_edge_def search_complete_def combine_usage_def add_edge_def
      child_usage_def requirements_def maximum_def sum_opt_def checked_add_def usize_max_def usage_default_def Let_def)

theorem requirements_suffice_witness:
  "(\<exists>i e1. turn demo_vals demo_start = Some (i, e1) \<and>
      advance_round demo_vals demo_shares demo_start = turned demo_vals i (transition demo_vals demo_shares e1 i) \<and>
      fst (transition demo_vals demo_shares e1 i) \<noteq> Raise Fault_Tasks) \<and>
    fst (complete demo_vals demo_shares demo_start 0 1 (HE_Complete (Ok 4))) \<noteq> Raise Fault_Frames \<and>
    visits demo_shares demo_start (snd (advance demo_vals demo_shares demo_start 9))"
proof -
  have valid: "validate demo_shares = Ok ()"
    by (simp add: validate_Ok_iff image_closed_def node_closed_def node_targets_def demo_shares_def demo_defs)
  then have new: "exec_new demo_shares [task_default, task_default, task_default] [None, None, None] [] demo_limits 5 3 = Ok demo_start"
    by (simp add: exec_new_def demo_shares_def demo_defs u32_max_def)
  have "turn demo_vals demo_start \<noteq> None"
    by (simp add: turn_def eval_defs over_budget_def is_ready_def upt_rec Let_def)
  then obtain i e1 where turn: "turn demo_vals demo_start = Some (i, e1)" by auto
  have "\<not> continues (HE_Complete (Ok 4))" by simp
  then show ?thesis
    using requirements_suffice [OF demo_requirements _ _ _ _ _ _ new visits_start, of 3 2 2 demo_vals 9] turn
    by (simp add: demo_limits_def)
qed

end
