(* ===== verification/Fault_Causes.thy ===== *)
theory Fault_Causes
  imports Task_Shapes Machine_Contract
begin

text \<open>
  Why a step of a task fails: for every fault that \<open>transition\<close> can raise on a validated image, the
  instruction that raises it and the resource that is missing.
\<close>

section \<open>Faults by the operation that raises them\<close>

definition raises :: "fault set \<Rightarrow> ('a, fault) comp \<times> 's \<Rightarrow> bool" where
  "raises F r \<longleftrightarrow> (\<forall>f. fst r = Raise f \<longrightarrow> f \<in> F)"

lemma raises_simps [simp]:
  "raises F (Return a, s)" "raises F (Panic, s)" "raises F (Raise f, s) \<longleftrightarrow> f \<in> F"
  by (simp_all add: raises_def)

lemma raises_and_then: "raises F r \<Longrightarrow> (\<And>a s. raises F (k a s)) \<Longrightarrow> raises F (and_then r k)"
  by (cases r; cases "fst r") (simp_all add: and_then_def)

text \<open>What moving frames and finishing an instruction can raise.\<close>

definition frame_faults :: "fault set" where
  "frame_faults = {Fault_Frames, Fault_InvalidState, Fault_InvalidNode, Fault_InvalidBinding}"

lemma raises_check: "raises frame_faults (exec_check e i n)"
  by (simp add: raises_def exec_check_def pool_check_def frame_faults_def Let_def split: option.splits)

lemma raises_push: "raises frame_faults (exec_push e i k)"
  by (auto simp: raises_def exec_push_def pool_push_def pool_check_def pool_allocate_def frame_faults_def
      and_then_def Let_def split: option.splits prod.splits comp.splits if_splits)

lemma raises_pop: "raises frame_faults (exec_pop e i)"
  by (auto simp: raises_def exec_pop_def pool_pop_def frame_faults_def
      and_then_def Let_def split: option.splits prod.splits comp.splits if_splits)


lemma raises_finish: "raises frame_faults (finish vs img e i node r)"
  by (auto simp: finish_def image_node_def ok_or_def frame_faults_def split: option.splits result.splits)

lemmas raises_moves = raises_check raises_push raises_pop raises_finish

lemma raises_bind: "raises frame_faults (return_bind e i slot body v)"
  by (auto simp: return_bind_def Let_def frame_faults_def [symmetric] intro!: raises_and_then raises_moves)
    (simp add: frame_faults_def)

lemma raises_return_frame: "raises frame_faults (return_frame vs img e i r k)"
  by (cases k) (auto simp: Let_def intro!: raises_and_then raises_moves raises_bind split: result.splits bool.splits,
    simp add: frame_faults_def)

lemma raises_return: "raises frame_faults (return_step vs img e i r)"
  unfolding return_step_def Let_def
  by (intro raises_and_then raises_pop) (simp add: raises_return_frame split: option.split)

lemma raises_enter: "raises frame_faults (enter e i pc k first v)"
  unfolding enter_def by (intro raises_and_then raises_push) simp

lemma raises_silent: "raises F r \<Longrightarrow> raises F (silent r)"
  unfolding silent_def by (rule raises_and_then) simp_all

section \<open>Causes\<close>

text \<open>
  The causes of the four faults. \<open>MissingBinding\<close>: the instruction loads a slot that no \<open>Let\<close> around
  it has filled. \<open>Tasks\<close>: a fork finds fewer than two free tasks. \<open>SequenceExhausted\<close>: a request finds no
  ticket left. \<open>Frames\<close>: the instruction needs more frames than the limit of a task or the pool
  allows, or a returning task is already deeper than the limit.
\<close>

text \<open>The instruction a task is about to execute.\<close>

definition current :: "('v, 'e) image \<Rightarrow> ('v, 'e) exec \<Rightarrow> nat \<Rightarrow> ('v, 'e) node_kind option" where
  "current img e i =
     (case tk_state (task_at e i) of
        S_Ready \<Rightarrow> map_option nd_kind (get (img_nodes img) (tk_pc (task_at e i)))
      | _ \<Rightarrow> None)"

definition free_tasks :: "('v, 'e) exec \<Rightarrow> nat" where
  "free_tasks e = length (filter (\<lambda>t. is_free (tk_state t)) (ex_tasks e))"

fun fault_cause :: "('v, 'e) image \<Rightarrow> ('v, 'e) exec \<Rightarrow> nat \<Rightarrow> fault \<Rightarrow> bool" where
  "fault_cause img e i Fault_MissingBinding \<longleftrightarrow>
     (\<exists>slot. current img e i = Some (N_Load slot) \<and>
       get (ex_bindings e) (i * lm_bindings_per_task (ex_limits e) + slot) = Some None)"
| "fault_cause img e i Fault_Tasks \<longleftrightarrow>
     (\<exists>left right join. current img e i = Some (N_Fork left right join)) \<and> free_tasks e < 2"
| "fault_cause img e i Fault_SequenceExhausted \<longleftrightarrow>
     (\<exists>im body. current img e i \<in> {Some (N_Request im), Some (N_Scope im body)}) \<and> u64_max \<le> ex_ticket e"
| "fault_cause img e i Fault_Frames \<longleftrightarrow>
     (case current img e i of
        None \<Rightarrow> lm_frames_per_task (ex_limits e) < length (task_frames e i)
      | Some kind \<Rightarrow> 0 < demand kind \<and>
          (lm_frames_per_task (ex_limits e) < length (task_frames e i) + demand kind \<or>
           pool_available (ex_frames e) < demand kind))"
| "fault_cause img e i _ \<longleftrightarrow> False"


lemma resource_only_frames: "f \<in> frame_faults \<Longrightarrow> f \<in> resource_faults \<Longrightarrow> f = Fault_Frames"
  by (auto simp: frame_faults_def resource_faults_def)

lemma free_tasks_eq: "free_tasks e = vacancies (shapes e)"
proof -
  have "map (\<lambda>i. ex_tasks e ! i) [0..<task_count e] = ex_tasks e" by (rule map_nth)
  then have "free_tasks e = length (filter (\<lambda>t. is_free (tk_state t)) (map (\<lambda>i. ex_tasks e ! i) [0..<task_count e]))"
    by (simp add: free_tasks_def)
  then show ?thesis by (simp add: vacancies_free filter_map comp_def)
qed

lemma transition_raises:
  assumes inv: "exec_inv img e" "i < task_count e" and f: "fst (transition vs img e i) = Raise f"
  shows "f \<in> resource_faults" "f = Fault_Frames \<Longrightarrow> \<not> roomy img e i"
proof -
  obtain e' where "transition vs img e i = (Raise f, e')" using f by (metis prod.collapse)
  then show "f \<in> resource_faults" "f = Fault_Frames \<Longrightarrow> \<not> roomy img e i"
    using transition_settles [OF inv, of vs] transition_shifts [OF inv, of vs] by (auto simp: spared_def)
qed

lemma returning_cause:
  assumes inv: "exec_inv img e" and i: "i < task_count e" and s: "tk_state (task_at e i) = S_Returning r"
    and f: "fst (transition vs img e i) = Raise f"
  shows "f = Fault_Frames \<and> lm_frames_per_task (ex_limits e) < length (task_frames e i)"
proof -
  have "ex_tasks e ! i = task_at e i" by (simp add: task_at_def)
  then have "raises frame_faults (transition vs img e i)"
    using i s raises_silent [OF raises_return] by (simp add: transition_def)
  then have only: "f = Fault_Frames"
    using f transition_raises(1) [OF inv i f] by (auto simp: raises_def intro: resource_only_frames)
  have "\<not> roomy img e i" by (rule transition_raises(2) [OF inv i f only])
  then show ?thesis using only s by (simp add: roomy_def status_of_def)
qed

lemma ready_cause:
  assumes inv: "exec_inv img e" and i: "i < task_count e" and s: "tk_state (task_at e i) = S_Ready"
    and f: "fst (transition vs img e i) = Raise f"
  shows "fault_cause img e i f"
proof -
  define pc where "pc = tk_pc (task_at e i)"
  define n where "n = img_nodes img ! pc"
  have at: "ex_tasks e ! i = task_at e i" by (simp add: task_at_def)
  obtain v where pc: "pc < code_size img" "tk_input (task_at e i) = Some v"
    using inv_exceptD(3) [OF inv i] s by (auto simp: pc_def)
  have cur: "current img e i = Some (nd_kind n)" using s pc(1) by (simp add: current_def n_def pc_def get_def)
  have flux: "fluxes img i e e" using fluxes_open [OF inv i] s by simp
  note closed = closed_node(2-4) [OF fluxes_closed [OF flux] pc(1), folded n_def]
  have stride: "img_bindings img \<le> stride e" using fluxes_storage [OF flux] by (simp add: storage_ok_def)
  define r where "r = (if keeps_input (nd_kind n) then v else v_retain_control vs v)"
  let ?e = "set_input e i (Some r)"
  have run: "transition vs img e i = ready_node vs img ?e i pc n v"
    using pc(2) s i by (simp add: transition_def ready_step_def Let_def at image_node_in [OF pc(1)] n_def r_def flip: pc_def)
  note raised = transition_raises [OF inv i f]
  have f: "fst (ready_node vs img ?e i pc n v) = Raise f" using f run by simp
  have same: "ex_limits ?e = ex_limits e" "ex_bindings ?e = ex_bindings e" "ex_ticket ?e = ex_ticket e"
    by (simp_all add: set_input_def update_task_def)
  have fin: "fst (silent (finish vs img ?e i pc x)) \<noteq> Raise f" for x
    using pc(1) by (auto simp: silent_def finish_def image_node_in split: result.splits option.splits)
  have frames: "fault_cause img e i f"
    if raises: "raises frame_faults (ready_node vs img ?e i pc n v)" and some: "0 < demand (nd_kind n)" "\<not> is_fork (nd_kind n)"
  proof -
    have only: "f = Fault_Frames" using f raises raised(1) by (auto simp: raises_def intro: resource_only_frames)
    have "\<not> roomy img e i" by (rule raised(2) [OF only])
    then show ?thesis using only some s cur by (auto simp: roomy_def status_of_def n_def pc_def)
  qed
  show ?thesis
  proof (cases "nd_kind n")
    case (N_Load slot)
    then have slot: "slot < stride e" using closed stride by simp
    then show ?thesis
      using f fin N_Load cur binding_index [OF fluxes_storage [OF flux] i slot]
      by (auto simp: ready_node_def Let_def same split: option.splits if_splits)
  next
    case (N_Request im)
    then show ?thesis
      using f closed cur by (auto simp: ready_node_def request_step_def checked_add_def same Let_def split: if_splits)
  next
    case (N_Scope im b)
    then show ?thesis
      using f closed cur by (auto simp: ready_node_def request_step_def checked_add_def same Let_def split: if_splits)
  next
    case (N_Fork l q j)
    let ?free = "filter (\<lambda>j. is_free (tk_state (ex_tasks ?e ! j))) [0..<task_count ?e]"
    have "length ?free = free_tasks e" using vacancies_free [of ?e] i by (simp add: free_tasks_eq)
    moreover have ready: "tk_state (task_at ?e i) = S_Ready" using s i by simp
    have "f = Fault_Tasks \<and> length ?free < 2"
    proof (cases ?free rule: remdups_adj.cases)
      case (3 a b rest)
      obtain e' where "fork_step ?e i pc l q j v = (Return (), e')"
        by (rule fork_step_result [OF fluxes_set_input [OF flux] ready 3 refl])
      then show ?thesis using f N_Fork by (simp add: ready_node_def silent_def)
    qed (use f N_Fork in \<open>simp_all add: ready_node_def silent_def fork_step_def\<close>)
    ultimately have "f = Fault_Tasks \<and> free_tasks e < 2" by simp
    then show ?thesis using N_Fork cur by simp
  next
    case (N_If y m)
    show ?thesis
      by (rule frames) (auto simp: N_If ready_node_def intro!: raises_and_then raises_push raises_silent raises_finish split: result.split)
  next
    case (N_Call m)
    show ?thesis by (rule frames) (auto simp: N_Call ready_node_def intro!: raises_and_then raises_push)
  qed (use f fin in \<open>auto simp: ready_node_def intro!: frames raises_enter\<close>)
qed


lemma transition_cause:
  assumes inv: "exec_inv img e" and i: "i < task_count e" and f: "fst (transition vs img e i) = Raise f"
  shows "fault_cause img e i f"
proof -
  have at: "ex_tasks e ! i = task_at e i" by (simp add: task_at_def)
  show ?thesis
  proof (cases "tk_state (task_at e i)")
    case (S_Returning r)
    then show ?thesis using returning_cause [OF inv i S_Returning f] by (simp add: current_def)
  next
    case S_Ready
    then show ?thesis by (rule ready_cause [OF inv i _ f])
  next
    case (S_Joining j)
    have "ends (\<lambda>_ e'. shift img (shapes e) (shapes e')) (\<lambda>_ _. False) (transition vs img e i)"
      using steps_silent [OF join_shifts [OF inv i S_Joining]] S_Joining i by (simp add: transition_def at)
    then show ?thesis using f by (cases "transition vs img e i") (auto simp: ends_def)
  qed (use f i at in \<open>simp_all add: transition_def\<close>)
qed

text \<open>
  C16: every fault that a step of a task of a validated program raises has its cause. Only four faults
  occur: \<open>Frames\<close> when the instruction needs more frames than the task's limit or the pool has left, or
  a returning task is deeper than a limit lowered by a resume; \<open>Tasks\<close> at a fork with fewer than two
  free tasks; \<open>SequenceExhausted\<close> at a request when the last ticket has been issued; \<open>MissingBinding\<close>
  at a load of a slot that holds no value, which validation does not exclude. The faults that report
  a malformed image or a confused machine (invalid node, import or binding, invalid state, type,
  version) never occur.
\<close>

theorem transition_faults:
  assumes "reachable img e" "i < task_count e" "transition vs img e i = (Raise f, e')"
  shows "f \<in> {Fault_Frames, Fault_Tasks, Fault_SequenceExhausted, Fault_MissingBinding} \<and> fault_cause img e i f"
proof -
  have "fault_cause img e i f" using transition_cause [OF reachable_inv [OF assms(1)] assms(2), of vs f] assms(3) by simp
  then show ?thesis by (cases f) simp_all
qed

theorem transition_faults_witness:
  "\<exists>e'. transition demo_vals demo_loops (snd (advance demo_vals demo_loops demo_start 3)) 0 =
       (Raise Fault_Frames, e') \<and>
     fault_cause demo_loops (snd (advance demo_vals demo_loops demo_start 3)) 0 Fault_Frames"
proof -
  let ?e = "snd (advance demo_vals demo_loops demo_start 3)"
  have "\<exists>e'. transition demo_vals demo_loops ?e 0 = (Raise Fault_Frames, e')" "0 < task_count ?e"
    by (simp_all add: eval_defs)
  then show ?thesis
    using transition_faults [of demo_loops ?e 0 demo_vals Fault_Frames] demo_runs demo_valid(4)
    unfolding demo_loops_def by blast
qed

end
