(* ===== verification/Rust_Text.thy ===== *)
theory Rust_Text
  imports Xolotl_Prelude "HOL-Library.Char_ord" "HOL-Library.List_Lexorder" "HOL-Library.Option_ord"
begin

text \<open>
  Text as Rust has it: a \<open>str\<close> is its UTF-8 bytes, a \<open>string\<close> of 8-bit characters. The operations of
  the standard library the modelled sources use, with the laws their proofs need. The order of
  strings is the lexicographic order of their bytes.
\<close>

section \<open>Bytes\<close>

abbreviation byte :: "char \<Rightarrow> nat" where
  "byte c \<equiv> of_char c"

definition is_ascii :: "string \<Rightarrow> bool" where
  "is_ascii s \<longleftrightarrow> list_all (\<lambda>c. byte c < 128) s"

definition ascii_alphabetic :: "char \<Rightarrow> bool" where
  "ascii_alphabetic c \<longleftrightarrow> (65 \<le> byte c \<and> byte c \<le> 90) \<or> (97 \<le> byte c \<and> byte c \<le> 122)"

definition ascii_digit :: "char \<Rightarrow> bool" where
  "ascii_digit c \<longleftrightarrow> 48 \<le> byte c \<and> byte c \<le> 57"

definition ascii_alphanumeric :: "char \<Rightarrow> bool" where
  "ascii_alphanumeric c \<longleftrightarrow> ascii_alphabetic c \<or> ascii_digit c"

section \<open>Splitting\<close>

definition strip_prefix :: "string \<Rightarrow> string \<Rightarrow> string option" where
  "strip_prefix pat s = (if take (length pat) s = pat then Some (drop (length pat) s) else None)"

definition starts_with :: "string \<Rightarrow> string \<Rightarrow> bool" where
  "starts_with pat s \<longleftrightarrow> take (length pat) s = pat"

primrec split_once :: "string \<Rightarrow> string \<Rightarrow> (string \<times> string) option" where
  "split_once pat [] = (if pat = [] then Some ([], []) else None)"
| "split_once pat (c # cs) =
     (if starts_with pat (c # cs) then Some ([], drop (length pat) (c # cs))
      else map_option (apfst ((#) c)) (split_once pat cs))"

primrec str_split :: "char \<Rightarrow> string \<Rightarrow> string list" where
  "str_split d [] = [[]]"
| "str_split d (c # cs) =
     (if c = d then [] # str_split d cs
      else case str_split d cs of p # ps \<Rightarrow> (c # p) # ps | [] \<Rightarrow> [[c]])"

text \<open>The inverse of splitting.\<close>

fun str_join :: "char \<Rightarrow> string list \<Rightarrow> string" where
  "str_join d [] = []"
| "str_join d [p] = p"
| "str_join d (p # q # ps) = p @ d # str_join d (q # ps)"

lemma strip_prefix_append [simp]: "strip_prefix pat (pat @ s) = Some s"
  by (simp add: strip_prefix_def)

lemma strip_prefix_Some_iff: "strip_prefix pat s = Some r \<longleftrightarrow> s = pat @ r"
  unfolding strip_prefix_def by (metis append_take_drop_id append_eq_conv_conj option.inject option.discI)

lemma strip_prefix_None_iff: "strip_prefix pat s = None \<longleftrightarrow> \<not> starts_with pat s"
  by (simp add: strip_prefix_def starts_with_def)

lemma starts_with_iff: "starts_with pat s \<longleftrightarrow> (\<exists>r. s = pat @ r)"
  unfolding starts_with_def by (metis append_take_drop_id append_eq_conv_conj)

lemma split_once_Some: "split_once pat s = Some (a, b) \<Longrightarrow> s = a @ pat @ b"
  by (induction s arbitrary: a b)
    (auto simp: starts_with_iff split: if_splits)

lemma split_once_first:
  assumes "pat \<noteq> []" "hd pat \<notin> set a"
  shows "split_once pat (a @ pat @ b) = Some (a, b)"
  using assms(2)
proof (induction a)
  case Nil
  then show ?case using assms(1) by (cases pat) (auto simp: starts_with_def)
next
  case (Cons c a)
  then have "\<not> starts_with pat (c # a @ pat @ b)"
    using assms(1) by (cases pat) (auto simp: starts_with_def)
  then show ?case using Cons by simp
qed

lemma split_once_char:
  "split_once [d] s = Some (a, b) \<longleftrightarrow> s = a @ d # b \<and> d \<notin> set a"
proof
  show "s = a @ d # b \<and> d \<notin> set a" if "split_once [d] s = Some (a, b)"
    using that by (induction s arbitrary: a b) (auto simp: starts_with_def split: if_splits)
qed (use split_once_first [of "[d]" a b] in simp)

lemma split_once_None: "split_once [d] s = None \<longleftrightarrow> d \<notin> set s"
  by (induction s) (auto simp: starts_with_def split: if_splits)

lemma str_split_not_Nil [simp]: "str_split d s \<noteq> []"
  by (induction s) (auto split: list.splits)

lemma str_split_pieces: "p \<in> set (str_split d s) \<Longrightarrow> d \<notin> set p"
  by (induction s arbitrary: p) (auto split: list.splits if_splits)

lemma str_join_split [simp]: "str_join d (str_split d s) = s"
proof (induction s)
  case (Cons c s)
  obtain p ps where "str_split d s = p # ps" using str_split_not_Nil by (cases "str_split d s") auto
  then show ?case using Cons by (cases ps) auto
qed simp

lemma str_split_append: "d \<notin> set p \<Longrightarrow> str_split d (p @ d # s) = p # str_split d s"
  by (induction p) auto

lemma str_split_single: "d \<notin> set p \<Longrightarrow> str_split d p = [p]"
  by (induction p) auto

lemma str_split_join: "ps \<noteq> [] \<Longrightarrow> (\<And>p. p \<in> set ps \<Longrightarrow> d \<notin> set p) \<Longrightarrow> str_split d (str_join d ps) = ps"
  by (induction d ps rule: str_join.induct) (auto simp: str_split_append str_split_single)

lemma str_join_concat: "str_join d (p # ps) = p @ concat (map ((#) d) ps)"
  by (induction ps arbitrary: p) auto

lemma str_join_Cons: "ps \<noteq> [] \<Longrightarrow> str_join d (p # ps) = p @ d # str_join d ps"
  by (cases ps) auto

end
