(* ===== verification/Path_Syntax.thy ===== *)
theory Path_Syntax
  imports Rust_Text
begin

text \<open>
  Paths, the addresses of every resource: \<open>xolotl-types/src/path.rs\<close> with the identifier rules of
  \<open>path/identifier.rs\<close> and the reserved namespaces of \<open>path/namespace.rs\<close>. The printed form and the
  parsed form determine each other.
\<close>

section \<open>Identifiers\<close>

datatype identifier_kind = Ident_Scheme | Ident_Cluster | Ident_Segment

datatype identifier_error = Ident_Empty | Ident_Character

record ident_scan =
  id_kind :: identifier_kind
  id_position :: nat
  id_wildcards :: nat
  id_invalid :: bool

definition identifier_new :: "identifier_kind \<Rightarrow> ident_scan" where
  "identifier_new k = \<lparr>id_kind = k, id_position = 0, id_wildcards = 0, id_invalid = False\<rparr>"

text \<open>The character check of one byte, with the wildcard count it leaves.\<close>

definition identifier_byte :: "ident_scan \<Rightarrow> char \<Rightarrow> bool \<times> nat" where
  "identifier_byte d c =
     (let first = id_position d = 0; stars = id_wildcards d in
      case id_kind d of
        Ident_Scheme \<Rightarrow>
          if first then (ascii_alphabetic c, stars)
          else (ascii_alphanumeric c \<or> c \<in> {CHR ''_'', CHR ''-''}, stars)
      | Ident_Cluster \<Rightarrow> (ascii_alphanumeric c \<or> c \<in> {CHR ''_'', CHR ''-''}, stars)
      | Ident_Segment \<Rightarrow>
          if 0 < stars \<or> (first \<and> c = CHR ''*'') then
            let valid = (c = CHR ''*'' \<and> stars < 2) in (valid, stars + (if valid then 1 else 0))
          else if first then (ascii_alphanumeric c, stars)
          else (ascii_alphanumeric c \<or> c \<in> {CHR ''_'', CHR ''-'', CHR ''.'', CHR '':''}, stars))"

primrec identifier_bytes :: "string \<Rightarrow> ident_scan \<Rightarrow> (unit, identifier_error) result \<times> ident_scan" where
  "identifier_bytes [] d = (Ok (), d)"
| "identifier_bytes (c # cs) d =
     (let (valid, stars) = identifier_byte d c; d = d\<lparr>id_wildcards := stars\<rparr> in
      if valid then identifier_bytes cs (d\<lparr>id_position := min (saturating_add 255 (id_position d) 1) 8\<rparr>)
      else (Err Ident_Character, d\<lparr>id_invalid := True\<rparr>))"

definition identifier_push :: "ident_scan \<Rightarrow> string \<Rightarrow> (unit, identifier_error) result \<times> ident_scan" where
  "identifier_push d bytes = (if id_invalid d then (Err Ident_Character, d) else identifier_bytes bytes d)"

definition identifier_finish :: "ident_scan \<Rightarrow> (unit, identifier_error) result" where
  "identifier_finish d =
     (if id_invalid d then Err Ident_Character
      else if id_position d = 0 then Err Ident_Empty
      else Ok ())"

definition identifier_validate :: "string \<Rightarrow> identifier_kind \<Rightarrow> (unit, identifier_error) result" where
  "identifier_validate bytes k =
     (case identifier_push (identifier_new k) bytes of
        (Ok _, d) \<Rightarrow> identifier_finish d
      | (Err e, _) \<Rightarrow> Err e)"

section \<open>Paths\<close>

datatype path = Path (p_cluster: "string option") (p_scheme: string) (p_segments: "string list")

datatype path_error =
    Path_Empty | Path_MissingScheme | Path_MissingSeparator | Path_BadScheme | Path_EmptySegment
  | Path_ParamsUnsupported | Path_BadSchemeChar string | Path_ReservedScheme
  | Path_BadSegmentChar string | Path_WildcardSegment string | Path_BadClusterChar string
  | Path_NonAscii

definition path_le :: "path \<Rightarrow> path \<Rightarrow> bool" where
  "path_le a b \<longleftrightarrow>
     p_cluster a < p_cluster b \<or> p_cluster a = p_cluster b \<and>
     (p_scheme a < p_scheme b \<or> p_scheme a = p_scheme b \<and> p_segments a \<le> p_segments b)"

instantiation path :: linorder
begin

definition less_eq_path :: "path \<Rightarrow> path \<Rightarrow> bool" where
  "less_eq_path = path_le"

definition less_path :: "path \<Rightarrow> path \<Rightarrow> bool" where
  "less_path a b \<longleftrightarrow> a \<le> b \<and> \<not> b \<le> (a :: path)"

instance
  by standard (auto simp: less_eq_path_def path_le_def less_path_def path.expand)

end

definition is_scheme_ident :: "string \<Rightarrow> bool" where
  "is_scheme_ident s \<longleftrightarrow> identifier_validate s Ident_Scheme = Ok ()"

definition is_cluster_ident :: "string \<Rightarrow> bool" where
  "is_cluster_ident s \<longleftrightarrow> identifier_validate s Ident_Cluster = Ok ()"

definition validate_cluster_ident :: "string \<Rightarrow> (unit, path_error) result" where
  "validate_cluster_ident s =
     (if \<not> is_ascii s then Err Path_NonAscii
      else if \<not> is_cluster_ident s then Err (Path_BadClusterChar s)
      else Ok ())"

definition is_segment_ident :: "string \<Rightarrow> bool" where
  "is_segment_ident s \<longleftrightarrow> identifier_validate s Ident_Segment = Ok ()"

definition is_simple_id_segment :: "string \<Rightarrow> bool" where
  "is_simple_id_segment s =
     (case s of
        [] \<Rightarrow> False
      | c # cs \<Rightarrow> ascii_alphanumeric c \<and>
          list_all (\<lambda>c. ascii_alphanumeric c \<or> c \<in> {CHR ''_'', CHR ''-''}) cs)"

definition validate_segment :: "string \<Rightarrow> (unit, path_error) result" where
  "validate_segment s =
     (if s = [] then Err Path_EmptySegment
      else if \<not> is_ascii s then Err Path_NonAscii
      else if \<not> is_segment_ident s then Err (Path_BadSegmentChar s)
      else Ok ())"

definition is_wildcard_segment :: "string \<Rightarrow> bool" where
  "is_wildcard_segment s \<longleftrightarrow> s = ''*'' \<or> s = ''**''"

definition path_try_new :: "string \<Rightarrow> (path, path_error) result" where
  "path_try_new scheme =
     (if scheme = [] then Err Path_MissingScheme
      else if \<not> is_ascii scheme then Err Path_NonAscii
      else if CHR ''/'' \<in> set scheme then Err Path_BadScheme
      else if \<not> is_scheme_ident scheme then Err (Path_BadSchemeChar scheme)
      else if scheme = ''path'' then Err Path_ReservedScheme
      else Ok (Path None scheme []))"

text \<open>The head of a path: cluster, scheme and the text of the segments.\<close>

definition path_head :: "string \<Rightarrow> (string option \<times> string \<times> string, path_error) result" where
  "path_head s =
     (case strip_prefix ''path://'' s of
        Some clustered \<Rightarrow>
          bind_result (ok_or Path_MissingScheme (split_once ''/'' clustered)) (\<lambda>(cluster, rest).
          bind_result (validate_cluster_ident cluster) (\<lambda>_.
            let (scheme, body) = (case split_once ''/'' rest of Some r \<Rightarrow> r | None \<Rightarrow> (rest, [])) in
            if rest \<noteq> [] \<and> last rest = CHR ''/'' then Err Path_EmptySegment
            else Ok (Some cluster, scheme, body)))
      | None \<Rightarrow>
          bind_result (ok_or Path_MissingSeparator (split_once ''://'' s)) (\<lambda>(scheme, body).
            Ok (None, scheme, body)))"

definition path_parse :: "string \<Rightarrow> (path, path_error) result" where
  "path_parse s =
     (if s = [] then Err Path_Empty
      else if \<not> is_ascii s then Err Path_NonAscii
      else if CHR ''@'' \<in> set s then Err Path_ParamsUnsupported
      else bind_result (path_head s) (\<lambda>(cluster, scheme, body).
        if scheme = [] then Err Path_MissingScheme
        else if CHR ''/'' \<in> set scheme then Err Path_BadScheme
        else if \<not> is_scheme_ident scheme then Err (Path_BadSchemeChar scheme)
        else if scheme = ''path'' then Err Path_ReservedScheme
        else let segments = (if body = [] then [] else str_split (CHR ''/'') body) in
          bind_result (try_each validate_segment segments) (\<lambda>_.
            Ok (Path cluster scheme segments))))"

definition pop_segment :: "path \<Rightarrow> bool \<times> path" where
  "pop_segment p =
     (p_segments p \<noteq> [], Path (p_cluster p) (p_scheme p) (butlast (p_segments p)))"

definition path_try_push :: "path \<Rightarrow> string \<Rightarrow> (path, path_error) result" where
  "path_try_push p s =
     bind_result (validate_segment s) (\<lambda>_. Ok (Path (p_cluster p) (p_scheme p) (p_segments p @ [s])))"

definition path_try_push_owned :: "path \<Rightarrow> string \<Rightarrow> (path, path_error) result" where
  "path_try_push_owned p s =
     bind_result (validate_segment s) (\<lambda>_. Ok (Path (p_cluster p) (p_scheme p) (p_segments p @ [s])))"

definition path_try_push_literal :: "path \<Rightarrow> string \<Rightarrow> (path, path_error) result" where
  "path_try_push_literal p s =
     (if is_wildcard_segment s then Err (Path_WildcardSegment s) else path_try_push p s)"

definition path_try_with_cluster :: "path \<Rightarrow> string \<Rightarrow> (path, path_error) result" where
  "path_try_with_cluster p c =
     bind_result (validate_cluster_ident c) (\<lambda>_. Ok (Path (Some c) (p_scheme p) (p_segments p)))"

definition is_prefix_of :: "path \<Rightarrow> path \<Rightarrow> bool" where
  "is_prefix_of p q \<longleftrightarrow>
     p_cluster p = p_cluster q \<and> p_scheme p = p_scheme q \<and>
     length (p_segments p) \<le> length (p_segments q) \<and>
     list_all (\<lambda>(a, b). a = b) (zip (p_segments p) (p_segments q))"

definition is_concrete :: "path \<Rightarrow> bool" where
  "is_concrete p \<longleftrightarrow> list_all (\<lambda>s. \<not> is_wildcard_segment s) (p_segments p)"

section \<open>Canonical text\<close>

record canonical_parts =
  cp_path :: path
  cp_prefix :: nat
  cp_segments :: "string list"
  cp_separator :: bool
  cp_pending :: "string option"

definition canonical_parts_of :: "path \<Rightarrow> canonical_parts" where
  "canonical_parts_of p =
     \<lparr>cp_path = p, cp_prefix = 0, cp_segments = p_segments p, cp_separator = (p_cluster p \<noteq> None),
      cp_pending = None\<rparr>"

definition prefix_part :: "path \<Rightarrow> nat \<Rightarrow> string option" where
  "prefix_part p n =
     (case p_cluster p of
        Some cluster \<Rightarrow>
          if n = 0 then Some ''path://'' else if n = 1 then Some cluster
          else if n = 2 then Some ''/'' else if n = 3 then Some (p_scheme p) else None
      | None \<Rightarrow>
          if n = 0 then Some (p_scheme p) else if n = 1 then Some ''://'' else None)"

definition next_part :: "canonical_parts \<Rightarrow> string option \<times> canonical_parts" where
  "next_part it =
     (case prefix_part (cp_path it) (cp_prefix it) of
        Some part \<Rightarrow> (Some part, it\<lparr>cp_prefix := cp_prefix it + 1\<rparr>)
      | None \<Rightarrow>
          (case cp_pending it of
             Some segment \<Rightarrow> (Some segment, it\<lparr>cp_pending := None\<rparr>)
           | None \<Rightarrow>
               (case cp_segments it of
                  [] \<Rightarrow> (None, it)
                | segment # rest \<Rightarrow>
                    if cp_separator it
                    then (Some ''/'', it\<lparr>cp_segments := rest, cp_pending := Some segment\<rparr>)
                    else (Some segment, it\<lparr>cp_segments := rest, cp_separator := True\<rparr>))))"

lemma prefix_part_less: "prefix_part p n = Some part \<Longrightarrow> n < 4"
  by (auto simp: prefix_part_def split: option.splits if_splits)

function all_parts :: "canonical_parts \<Rightarrow> string list" where
  "all_parts it =
     (case next_part it of
        (Some part, it') \<Rightarrow> part # all_parts it'
      | (None, _) \<Rightarrow> [])"
  by pat_completeness auto

definition parts_left :: "canonical_parts \<Rightarrow> nat" where
  "parts_left it = (4 - cp_prefix it) + 2 * length (cp_segments it) + (if cp_pending it = None then 0 else 1)"

lemma next_part_less: "next_part it = (Some part, it') \<Longrightarrow> parts_left it' < parts_left it"
  using prefix_part_less [of "cp_path it" "cp_prefix it"]
  by (auto simp: next_part_def parts_left_def split: option.splits list.splits if_splits)

termination all_parts
  by (relation "measure parts_left") (auto dest: next_part_less [OF sym])

declare all_parts.simps [simp del]

definition path_display :: "path \<Rightarrow> string" where
  "path_display p = concat (all_parts (canonical_parts_of p))"

fun try_fold_len :: "nat \<Rightarrow> string list \<Rightarrow> nat option" where
  "try_fold_len bytes [] = Some bytes"
| "try_fold_len bytes (part # parts) =
     (case checked_add usize_max bytes (length part) of
        Some bytes \<Rightarrow> try_fold_len bytes parts
      | None \<Rightarrow> None)"

definition canonical_len :: "path \<Rightarrow> usize option" where
  "canonical_len p = try_fold_len 0 (all_parts (canonical_parts_of p))"

section \<open>Reserved namespaces\<close>

definition first_segment :: "path \<Rightarrow> string option" where
  "first_segment p = (case p_segments p of [] \<Rightarrow> None | s # _ \<Rightarrow> Some s)"

definition is_kernel_reserved :: "path \<Rightarrow> bool" where
  "is_kernel_reserved p \<longleftrightarrow>
     p_cluster p = None \<and> p_scheme p \<in> {''state'', ''effect''} \<and> first_segment p = Some ''kernel''"

definition is_vault_reserved :: "path \<Rightarrow> bool" where
  "is_vault_reserved p \<longleftrightarrow>
     p_cluster p = None \<and> p_scheme p = ''state'' \<and> first_segment p = Some ''vault''"

definition is_fact_reserved :: "path \<Rightarrow> bool" where
  "is_fact_reserved p \<longleftrightarrow>
     p_cluster p = None \<and> p_scheme p = ''state'' \<and> first_segment p = Some ''fact''"

section \<open>The grammar of identifiers\<close>

definition ident_char :: "char \<Rightarrow> bool" where
  "ident_char c \<longleftrightarrow> ascii_alphanumeric c \<or> c \<in> {CHR ''_'', CHR ''-''}"

definition segment_char :: "char \<Rightarrow> bool" where
  "segment_char c \<longleftrightarrow> ascii_alphanumeric c \<or> c \<in> {CHR ''_'', CHR ''-'', CHR ''.'', CHR '':''}"

fun ident_text :: "identifier_kind \<Rightarrow> string \<Rightarrow> bool" where
  "ident_text k [] \<longleftrightarrow> False"
| "ident_text Ident_Scheme (c # cs) \<longleftrightarrow> ascii_alphabetic c \<and> list_all ident_char cs"
| "ident_text Ident_Cluster (c # cs) \<longleftrightarrow> ident_char c \<and> list_all ident_char cs"
| "ident_text Ident_Segment (c # cs) \<longleftrightarrow>
     c # cs \<in> {''*'', ''**''} \<or> (ascii_alphanumeric c \<and> list_all segment_char cs)"

text \<open>Scanning after the first byte.\<close>

lemma scan_rest:
  assumes "id_kind d \<noteq> Ident_Segment" "0 < id_position d" "\<not> id_invalid d"
  shows "if list_all ident_char cs
    then \<exists>d'. identifier_bytes cs d = (Ok (), d') \<and> \<not> id_invalid d' \<and> 0 < id_position d'
    else \<exists>d'. identifier_bytes cs d = (Err Ident_Character, d') \<and> id_invalid d'"
  using assms
proof (induction cs arbitrary: d)
  case (Cons c cs)
  let ?d = "d\<lparr>id_position := min (saturating_add 255 (id_position d) 1) 8\<rparr>"
  have "id_kind ?d \<noteq> Ident_Segment" "0 < id_position ?d" "\<not> id_invalid ?d"
    using Cons.prems by (simp_all add: saturating_add_def)
  note IH = Cons.IH [OF this]
  have "identifier_byte d c = (ident_char c, id_wildcards d)"
    using Cons.prems by (cases "id_kind d") (simp_all add: identifier_byte_def ident_char_def Let_def)
  then show ?case using IH by (auto simp: Let_def)
qed auto

lemma scan_rest_segment:
  assumes "id_kind d = Ident_Segment" "0 < id_position d" "\<not> id_invalid d" "id_wildcards d \<le> 2"
  shows "if (if id_wildcards d = 0 then list_all segment_char cs
             else cs \<in> {[], ''*''} \<and> id_wildcards d + length cs \<le> 2)
    then \<exists>d'. identifier_bytes cs d = (Ok (), d') \<and> \<not> id_invalid d' \<and> 0 < id_position d'
    else \<exists>d'. identifier_bytes cs d = (Err Ident_Character, d') \<and> id_invalid d'"
  using assms
proof (induction cs arbitrary: d)
  case (Cons c cs)
  show ?case
  proof (cases "id_wildcards d = 0")
    case True
    let ?d = "d\<lparr>id_wildcards := 0, id_position := min (saturating_add 255 (id_position d) 1) 8\<rparr>"
    have "id_kind ?d = Ident_Segment" "0 < id_position ?d" "\<not> id_invalid ?d" "id_wildcards ?d \<le> 2"
      using Cons.prems by (simp_all add: saturating_add_def)
    note IH = Cons.IH [OF this]
    have "identifier_byte d c = (segment_char c, id_wildcards d)"
      using Cons.prems True by (simp add: identifier_byte_def segment_char_def Let_def)
    then show ?thesis using IH True by (auto simp: Let_def)
  next
    case False
    let ?d = "d\<lparr>id_wildcards := id_wildcards d + 1,
      id_position := min (saturating_add 255 (id_position d) 1) 8\<rparr>"
    have byte: "identifier_byte d c = (if c = CHR ''*'' \<and> id_wildcards d < 2
        then (True, id_wildcards d + 1) else (False, id_wildcards d))"
      using Cons.prems False by (simp add: identifier_byte_def Let_def)
    show ?thesis
    proof (cases "c = CHR ''*'' \<and> id_wildcards d < 2")
      case True
      then have "id_kind ?d = Ident_Segment" "0 < id_position ?d" "\<not> id_invalid ?d" "id_wildcards ?d \<le> 2"
        using Cons.prems by (simp_all add: saturating_add_def)
      from Cons.IH [OF this] show ?thesis
        using byte True False by (auto simp: Let_def split: if_splits)
    qed (use byte False in \<open>auto simp: Let_def\<close>)
  qed
qed auto

lemma identifier_validate_cases:
  "identifier_validate s k =
     (if ident_text k s then Ok () else Err (if s = [] then Ident_Empty else Ident_Character))"
proof (cases s)
  case Nil
  then show ?thesis
    by (simp add: identifier_validate_def identifier_push_def identifier_new_def identifier_finish_def)
next
  case (Cons c cs)
  let ?n = "identifier_new k"
  let ?v = "identifier_byte ?n c"
  let ?d = "?n\<lparr>id_wildcards := snd ?v, id_position := 1\<rparr>"
  have step: "identifier_bytes (c # cs) ?n =
      (if fst ?v then identifier_bytes cs ?d else (Err Ident_Character, ?n\<lparr>id_wildcards := snd ?v, id_invalid := True\<rparr>))"
    by (simp add: Let_def split_beta identifier_new_def saturating_add_def)
  show ?thesis
  proof (cases "k = Ident_Segment")
    case True
    then have "?v = (if c = CHR ''*'' then (True, 1) else (ascii_alphanumeric c, 0))"
      by (simp add: identifier_byte_def identifier_new_def Let_def)
    then show ?thesis
      using scan_rest_segment [of ?d cs] True step Cons
      by (auto simp: identifier_validate_def identifier_push_def identifier_finish_def identifier_new_def
        ascii_alphanumeric_def ascii_alphabetic_def ascii_digit_def split: if_splits)
  next
    case False
    then have "?v = ((if k = Ident_Scheme then ascii_alphabetic c else ident_char c), 0)"
      by (cases k) (simp_all add: identifier_byte_def identifier_new_def Let_def ident_char_def)
    then show ?thesis
      using scan_rest [of ?d cs] False step Cons
      by (cases k) (auto simp: identifier_validate_def identifier_push_def identifier_finish_def
        identifier_new_def split: if_splits)
  qed
qed

end
