(* ===== verification/Path_Glob.thy ===== *)
theory Path_Glob
  imports Path_Syntax
begin

text \<open>
  Wildcard patterns over path segments: the iterative matcher of \<open>xolotl-types/src/path.rs\<close> with its
  single retry position, and the pattern-against-pattern check that guards delegation. Both are
  compared with a recursive definition of what a pattern means.
\<close>

section \<open>The matcher\<close>

text \<open>
  One turn of the loop per equation; \<open>globstar\<close> is the position of the latest \<open>**\<close> and \<open>retry_si\<close>
  the target position it currently ends at.
\<close>

function skip_globstars :: "string list \<Rightarrow> nat \<Rightarrow> nat" where
  "skip_globstars pat pi =
     (if pi < length pat \<and> pat ! pi = ''**'' then skip_globstars pat (pi + 1) else pi)"
  by pat_completeness auto

termination skip_globstars
  by (relation "measure (\<lambda>(pat, pi). length pat - pi)") auto

function match_loop ::
  "(string \<Rightarrow> string \<Rightarrow> bool) \<Rightarrow> string list \<Rightarrow> string list \<Rightarrow> nat \<Rightarrow> nat \<Rightarrow> nat option \<Rightarrow> nat \<Rightarrow> bool"
where
  "match_loop covers pat seg pi si globstar retry_si =
     (if si < length seg then
        if pi < length pat \<and> pat ! pi = ''**'' then
          match_loop covers pat seg (pi + 1) si (Some pi) si
        else if pi < length pat \<and> covers (pat ! pi) (seg ! si) then
          match_loop covers pat seg (pi + 1) (si + 1) globstar retry_si
        else
          (case globstar of
             None \<Rightarrow> False
           | Some star_pi \<Rightarrow>
               match_loop covers pat seg (star_pi + 1) (retry_si + 1) globstar (retry_si + 1))
      else skip_globstars pat pi = length pat)"
  by pat_completeness auto

text \<open>
  The loop ends: a retry moves \<open>retry_si\<close> to the right, every other turn moves \<open>pi\<close>. The first
  component covers arguments the loop never has, with \<open>retry_si\<close> beyond \<open>si\<close>.
\<close>

termination match_loop
  by (relation "measures
      [\<lambda>(covers, pat, seg, pi, si, globstar, retry_si). if retry_si \<le> si then 0 else 1,
       \<lambda>(covers, pat, seg, pi, si, globstar, retry_si). length seg - retry_si,
       \<lambda>(covers, pat, seg, pi, si, globstar, retry_si). length pat - pi]") auto

declare skip_globstars.simps [simp del] match_loop.simps [simp del]

definition match_segment_tokens ::
  "string list \<Rightarrow> string list \<Rightarrow> (string \<Rightarrow> string \<Rightarrow> bool) \<Rightarrow> bool" where
  "match_segment_tokens pat seg covers = match_loop covers pat seg 0 0 None 0"

definition covers_token :: "string \<Rightarrow> string \<Rightarrow> bool" where
  "covers_token pattern target \<longleftrightarrow> pattern = ''*'' \<or> pattern = target"

definition subsumes_token :: "string \<Rightarrow> string \<Rightarrow> bool" where
  "subsumes_token pattern target \<longleftrightarrow> pattern = target \<or> (pattern = ''*'' \<and> target \<noteq> ''**'')"

definition match_segments :: "string list \<Rightarrow> string list \<Rightarrow> bool" where
  "match_segments pat seg = match_segment_tokens pat seg covers_token"

definition pattern_subsumes_segments :: "string list \<Rightarrow> string list \<Rightarrow> bool" where
  "pattern_subsumes_segments parent child = match_segment_tokens parent child subsumes_token"

definition path_matches :: "path \<Rightarrow> path \<Rightarrow> bool" where
  "path_matches p pattern \<longleftrightarrow>
     p_cluster pattern = p_cluster p \<and> p_scheme pattern = p_scheme p \<and>
     match_segments (p_segments pattern) (p_segments p)"

definition as_pattern :: "path \<Rightarrow> path" where
  "as_pattern p = p"

section \<open>What a pattern means\<close>

text \<open>\<open>**\<close> stands for any number of segments, any other token for one segment it covers.\<close>

fun glob :: "(string \<Rightarrow> string \<Rightarrow> bool) \<Rightarrow> string list \<Rightarrow> string list \<Rightarrow> bool" where
  "glob covers [] seg \<longleftrightarrow> seg = []"
| "glob covers (p # pat) seg \<longleftrightarrow>
     (if p = ''**'' then \<exists>k \<in> {0..length seg}. glob covers pat (drop k seg)
      else seg \<noteq> [] \<and> covers p (hd seg) \<and> glob covers pat (tl seg))"

lemma glob_star: "glob c (''**'' # pat) seg \<longleftrightarrow> (\<exists>k \<le> length seg. glob c pat (drop k seg))"
  by auto

lemma glob_stars_only: "glob c pat [] \<longleftrightarrow> list_all ((=) ''**'') pat"
  by (induction pat) auto

lemma skip_globstars_all:
  "pi \<le> length pat \<Longrightarrow> skip_globstars pat pi = length pat \<longleftrightarrow> list_all ((=) ''**'') (drop pi pat)"
proof (induction pat pi rule: skip_globstars.induct)
  case (1 pat pi)
  show ?case
  proof (cases "pi < length pat")
    case True
    then have "drop pi pat = pat ! pi # drop (pi + 1) pat" by (simp add: Cons_nth_drop_Suc)
    then show ?thesis using 1 True by (subst skip_globstars.simps) auto
  qed (use 1 in \<open>simp add: skip_globstars.simps\<close>)
qed

text \<open>Tokens other than \<open>**\<close> consume the target one by one.\<close>

lemma glob_tokens:
  assumes "\<And>p. p \<in> set ps \<Longrightarrow> p \<noteq> ''**''"
  shows "glob c (ps @ qs) seg \<longleftrightarrow>
    length ps \<le> length seg \<and> list_all2 c ps (take (length ps) seg) \<and> glob c qs (drop (length ps) seg)"
  using assms
proof (induction ps arbitrary: seg)
  case (Cons p ps)
  then show ?case by (cases seg) auto
qed simp

section \<open>The matcher computes the meaning\<close>

text \<open>
  The tokens since the latest \<open>**\<close> (or since the start) are matched one to one by the target since
  the retry position.
\<close>

definition matched_run ::
  "(string \<Rightarrow> string \<Rightarrow> bool) \<Rightarrow> string list \<Rightarrow> string list \<Rightarrow> nat \<Rightarrow> nat \<Rightarrow> nat \<Rightarrow> bool" where
  "matched_run c pat seg from at n \<longleftrightarrow>
     from + n \<le> length pat \<and> at + n \<le> length seg \<and>
     (\<forall>x < n. pat ! (from + x) \<noteq> ''**'' \<and> c (pat ! (from + x)) (seg ! (at + x)))"

lemma run_split:
  assumes "matched_run c pat seg f a n"
  shows "glob c (drop f pat) ss \<longleftrightarrow>
    n \<le> length ss \<and> list_all2 c (take n (drop f pat)) (take n ss) \<and> glob c (drop (f + n) pat) (drop n ss)"
proof -
  have eq: "take n (drop f pat) @ drop (f + n) pat = drop f pat"
    by (metis append_take_drop_id drop_drop add.commute)
  have len: "length (take n (drop f pat)) = n" using assms by (auto simp: matched_run_def)
  have "p \<noteq> ''**''" if "p \<in> set (take n (drop f pat))" for p
    using that assms len by (auto simp: in_set_conv_nth matched_run_def)
  then show ?thesis
    using glob_tokens [of "take n (drop f pat)" c "drop (f + n) pat" ss] unfolding eq len by blast
qed

lemma run_here:
  assumes "matched_run c pat seg f a n"
  shows "glob c (drop f pat) (drop a seg) \<longleftrightarrow> glob c (drop (f + n) pat) (drop (a + n) seg)"
proof -
  have "list_all2 c (take n (drop f pat)) (take n (drop a seg))" "n \<le> length (drop a seg)"
    using assms by (auto simp: matched_run_def list_all2_conv_all_nth)
  then show ?thesis using run_split [OF assms, of "drop a seg"] by (simp add: add.commute)
qed

lemma run_later:
  assumes "matched_run c pat seg f a n" "glob c (drop f pat) (drop k seg)" "k \<le> length seg"
  shows "k + n \<le> length seg" "glob c (drop (f + n) pat) (drop (k + n) seg)"
  using run_split [OF assms(1), of "drop k seg"] assms(2,3) by (auto simp: add.commute)

lemma drop_star:
  "pi < length pat \<Longrightarrow> pat ! pi = ''**'' \<Longrightarrow>
   glob c (drop pi pat) (drop si seg) \<longleftrightarrow> si \<le> length seg \<and> (\<exists>k \<ge> si. k \<le> length seg \<and> glob c (drop (pi + 1) pat) (drop k seg))
     \<or> length seg < si \<and> glob c (drop (pi + 1) pat) []"
proof -
  assume pi: "pi < length pat" "pat ! pi = ''**''"
  then have "drop pi pat = ''**'' # drop (pi + 1) pat" by (metis Cons_nth_drop_Suc Suc_eq_plus1)
  then have eq: "glob c (drop pi pat) (drop si seg) \<longleftrightarrow>
      (\<exists>k \<le> length seg - si. glob c (drop (pi + 1) pat) (drop (si + k) seg))"
    by (simp only: glob_star drop_drop length_drop add.commute)
  show ?thesis
  proof (cases "si \<le> length seg")
    case True
    have "(\<exists>k \<le> length seg - si. glob c (drop (pi + 1) pat) (drop (si + k) seg)) \<longleftrightarrow>
      (\<exists>k \<ge> si. k \<le> length seg \<and> glob c (drop (pi + 1) pat) (drop k seg))"
      using True by (metis add_diff_cancel_left' le_add1 le_add_diff_inverse nat_add_left_cancel_le)
    then show ?thesis using eq True by simp
  next
    case False
    then show ?thesis using eq by simp
  qed
qed

lemma token_fails:
  assumes "si < length seg" "\<not> (pi < length pat \<and> pat ! pi = ''**'')"
    "\<not> (pi < length pat \<and> c (pat ! pi) (seg ! si))"
  shows "\<not> glob c (drop pi pat) (drop si seg)"
proof (cases "pi < length pat")
  case True
  then have "drop pi pat = pat ! pi # drop (pi + 1) pat" "drop si seg = seg ! si # drop (si + 1) seg"
    using assms(1) by (simp_all add: Cons_nth_drop_Suc)
  then show ?thesis using assms True by simp
qed (use assms(1) in simp)

text \<open>The latest \<open>**\<close> suffices: an earlier one could only move it further to the right.\<close>

lemma match_loop_star:
  assumes "matched_run c pat seg (g + 1) r n" "pi = g + 1 + n" "si = r + n" "pat ! g = ''**''"
  shows "match_loop c pat seg pi si (Some g) r \<longleftrightarrow>
    (\<exists>k \<ge> r. k \<le> length seg \<and> glob c (drop (g + 1) pat) (drop k seg))"
  using assms
proof (induction c pat seg pi si "Some g" r arbitrary: g n rule: match_loop.induct)
  case (1 c pat seg pi si r)
  have len: "pi \<le> length pat" "si \<le> length seg" using 1(4-6) by (auto simp: matched_run_def)
  have here: "glob c (drop (g + 1) pat) (drop r seg) \<longleftrightarrow> glob c (drop pi pat) (drop si seg)"
    using run_here [OF 1(4)] 1(5,6) by simp
  show ?case
  proof (cases "si < length seg")
    case si: True
    show ?thesis
    proof (cases "pi < length pat \<and> pat ! pi = ''**''")
      case True
      have "matched_run c pat seg (pi + 1) si 0" using True len by (simp add: matched_run_def)
      then have "match_loop c pat seg (pi + 1) si (Some pi) si \<longleftrightarrow>
          (\<exists>k \<ge> si. k \<le> length seg \<and> glob c (drop (pi + 1) pat) (drop k seg))"
        by (rule 1(1) [OF si True]) (use True in auto)
      also have "\<dots> \<longleftrightarrow> glob c (drop pi pat) (drop si seg)"
        using drop_star [of pi pat c si seg] True len by auto
      also have "\<dots> \<longleftrightarrow> (\<exists>k \<ge> r. k \<le> length seg \<and> glob c (drop (g + 1) pat) (drop k seg))"
      proof
        assume "glob c (drop pi pat) (drop si seg)"
        then show "\<exists>k \<ge> r. k \<le> length seg \<and> glob c (drop (g + 1) pat) (drop k seg)"
          using here 1(6) len by (intro exI [of _ r]) auto
      next
        assume "\<exists>k \<ge> r. k \<le> length seg \<and> glob c (drop (g + 1) pat) (drop k seg)"
        then obtain k where k: "r \<le> k" "k \<le> length seg" "glob c (drop (g + 1) pat) (drop k seg)" by auto
        have "k + n \<le> length seg" "glob c (drop pi pat) (drop (k + n) seg)"
          using run_later [OF 1(4) k(3,2)] 1(5) by simp_all
        then obtain j where "k + n \<le> j" "j \<le> length seg" "glob c (drop (pi + 1) pat) (drop j seg)"
          using drop_star [of pi pat c "k + n" seg] True by auto
        moreover have "si \<le> k + n" using k(1) 1(6) by simp
        ultimately show "glob c (drop pi pat) (drop si seg)"
          using drop_star [of pi pat c si seg] True len by auto
      qed
      finally show ?thesis using si True by (subst match_loop.simps) simp
    next
      case plain: False
      show ?thesis
      proof (cases "pi < length pat \<and> c (pat ! pi) (seg ! si)")
        case True
        have "matched_run c pat seg (g + 1) r (n + 1)"
          using 1(4-6) True plain si by (auto simp: matched_run_def less_Suc_eq)
        then have "match_loop c pat seg (pi + 1) (si + 1) (Some g) r \<longleftrightarrow>
            (\<exists>k \<ge> r. k \<le> length seg \<and> glob c (drop (g + 1) pat) (drop k seg))"
          by (rule 1(2) [OF si plain True]) (use 1(5-7) in auto)
        then show ?thesis using si plain True by (subst match_loop.simps) auto
      next
        case False
        have "\<not> glob c (drop (g + 1) pat) (drop r seg)"
          using token_fails [of si seg pi pat c] si plain False here by simp
        then have "(\<exists>k \<ge> r. k \<le> length seg \<and> glob c (drop (g + 1) pat) (drop k seg)) \<longleftrightarrow>
            (\<exists>k \<ge> r + 1. k \<le> length seg \<and> glob c (drop (g + 1) pat) (drop k seg))"
          by (metis Suc_eq_plus1 Suc_leD le_antisym not_less_eq_eq)
        moreover have "matched_run c pat seg (g + 1) (r + 1) 0"
          using 1(4-6) si by (auto simp: matched_run_def)
        then have "match_loop c pat seg (g + 1) (r + 1) (Some g) (r + 1) \<longleftrightarrow>
            (\<exists>k \<ge> r + 1. k \<le> length seg \<and> glob c (drop (g + 1) pat) (drop k seg))"
          by (rule 1(3) [OF si plain False refl]) (use 1(7) in auto)
        ultimately show ?thesis using si plain False by (subst match_loop.simps) auto
      qed
    qed
  next
    case False
    then have "si = length seg" using len by simp
    then have "(\<exists>k \<ge> r. k \<le> length seg \<and> glob c (drop (g + 1) pat) (drop k seg)) \<longleftrightarrow>
        glob c (drop (g + 1) pat) (drop r seg)"
      using run_later(1) [OF 1(4)] 1(6) by (metis add_le_cancel_right le_add1 le_antisym)
    then show ?thesis
      using False here skip_globstars_all [OF len(1)] \<open>si = length seg\<close>
      by (subst match_loop.simps) (simp add: glob_stars_only)
  qed
qed

lemma match_loop_start:
  assumes "matched_run c pat seg 0 0 n"
  shows "match_loop c pat seg n n None r \<longleftrightarrow> glob c pat seg"
  using assms
proof (induction "length seg - n" arbitrary: n)
  case 0
  then have n: "n = length seg" "n \<le> length pat" by (auto simp: matched_run_def)
  then show ?case
    using run_here [OF 0(2)] skip_globstars_all [OF n(2)]
    by (subst match_loop.simps) (simp add: glob_stars_only)
next
  case (Suc m)
  have si: "n < length seg" using Suc(2) by simp
  have len: "n \<le> length pat" using Suc(3) by (simp add: matched_run_def)
  have here: "glob c pat seg \<longleftrightarrow> glob c (drop n pat) (drop n seg)"
    using run_here [OF Suc(3)] by simp
  show ?case
  proof (cases "n < length pat \<and> pat ! n = ''**''")
    case True
    then have "match_loop c pat seg (n + 1) n (Some n) n \<longleftrightarrow>
        (\<exists>k \<ge> n. k \<le> length seg \<and> glob c (drop (n + 1) pat) (drop k seg))"
      using si by (intro match_loop_star [of _ _ _ _ _ 0]) (auto simp: matched_run_def)
    then show ?thesis
      using here drop_star [of n pat c n seg] True si by (subst match_loop.simps) auto
  next
    case plain: False
    show ?thesis
    proof (cases "n < length pat \<and> c (pat ! n) (seg ! n)")
      case True
      have "matched_run c pat seg 0 0 (n + 1)"
        using Suc(3) True plain si by (auto simp: matched_run_def less_Suc_eq)
      then have "match_loop c pat seg (n + 1) (n + 1) None r \<longleftrightarrow> glob c pat seg"
        using Suc(2) by (intro Suc(1)) auto
      then show ?thesis using si plain True by (subst match_loop.simps) auto
    next
      case False
      then have "\<not> glob c pat seg" using token_fails [of n seg n pat c] si plain here by simp
      then show ?thesis using si plain False by (subst match_loop.simps) auto
    qed
  qed
qed

lemma match_segment_tokens_glob: "match_segment_tokens pat seg c \<longleftrightarrow> glob c pat seg"
  unfolding match_segment_tokens_def by (rule match_loop_start) (simp add: matched_run_def)

lemma match_segments_glob: "match_segments pat seg \<longleftrightarrow> glob covers_token pat seg"
  by (simp add: match_segments_def match_segment_tokens_glob)

lemma pattern_subsumes_glob:
  "pattern_subsumes_segments parent child \<longleftrightarrow> glob subsumes_token parent child"
  by (simp add: pattern_subsumes_segments_def match_segment_tokens_glob)

section \<open>Subsumption\<close>

lemma glob_absorb: "glob c (''**'' # pat) (drop k seg) \<Longrightarrow> glob c (''**'' # pat) seg"
  unfolding glob_star
  by (metis drop_drop length_drop le_diff_conv drop_all glob_stars_only linorder_le_cases add.commute)

text \<open>
  A parent that subsumes a child matches whatever the child matches, for every token relation that is
  kept by subsumption. The relation may be matching itself or subsumption.
\<close>

lemma subsumes_glob:
  assumes keep: "\<And>p t s. p \<noteq> ''**'' \<Longrightarrow> subsumes_token p t \<Longrightarrow> c t s \<Longrightarrow> c p s"
  shows "glob subsumes_token parent child \<Longrightarrow> glob c child seg \<Longrightarrow> glob c parent seg"
proof (induction parent arbitrary: child seg)
  case (Cons p parent)
  show ?case
  proof (cases "p = ''**''")
    case True
    then obtain k where k: "k \<le> length child" "glob subsumes_token parent (drop k child)"
      using Cons.prems(1) by (auto simp: glob_star)
    have "\<exists>j. glob c (drop k child) (drop j seg)"
      using Cons.prems(2) k(1)
    proof (induction k arbitrary: child seg)
      case 0
      then show ?case by (intro exI [of _ 0]) simp
    next
      case (Suc k)
      obtain t ts where child: "child = t # ts" using Suc.prems(2) by (cases child) auto
      obtain i where i: "glob c ts (drop i seg)"
        using Suc.prems(1) child by (auto simp: drop_Suc split: if_splits)
          (metis drop0 drop_Suc)
      then obtain j where "glob c (drop k ts) (drop j (drop i seg))"
        using Suc.IH [OF i] Suc.prems(2) child by auto
      then show ?case using child by auto
    qed
    then obtain j where "glob c parent (drop j seg)" using Cons.IH [OF k(2)] by blast
    then have "glob c (''**'' # parent) (drop j seg)" unfolding glob_star by (intro exI [of _ 0]) simp
    then show ?thesis using glob_absorb True by blast
  next
    case False
    then obtain t ts where t: "child = t # ts" "subsumes_token p t" "glob subsumes_token parent ts"
      using Cons.prems(1) by (cases child) auto
    then have "t \<noteq> ''**''" using False by (auto simp: subsumes_token_def)
    then show ?thesis using Cons.prems(2) Cons.IH [OF t(3)] t keep [OF False t(2)] False by auto
  qed
qed simp

lemma subsumes_matches:
  "pattern_subsumes_segments parent child \<Longrightarrow> match_segments child seg \<Longrightarrow> match_segments parent seg"
  unfolding pattern_subsumes_glob match_segments_glob
  by (rule subsumes_glob) (auto simp: subsumes_token_def covers_token_def)

lemma subsumes_trans:
  "pattern_subsumes_segments a b \<Longrightarrow> pattern_subsumes_segments b c \<Longrightarrow> pattern_subsumes_segments a c"
  unfolding pattern_subsumes_glob by (rule subsumes_glob) (auto simp: subsumes_token_def)

lemma subsumes_refl: "pattern_subsumes_segments a a"
  unfolding pattern_subsumes_glob
proof (induction a)
  case (Cons p a)
  then show ?case using glob_absorb [of subsumes_token a 1 "p # a"]
    by (auto simp: subsumes_token_def intro!: bexI [of _ "Suc 0"])
qed simp

section \<open>Contracts\<close>

text \<open>
  C24: the iterative matcher with one retry position decides exactly what the pattern means, for every
  way a single token may cover another. Keeping only the latest \<open>**\<close> loses no match.
\<close>

theorem matcher_decides_meaning: "match_segment_tokens pat seg covers \<longleftrightarrow> glob covers pat seg"
  by (rule match_segment_tokens_glob)

text \<open>
  C25: the pattern check that guards delegation never widens: what a subsumed pattern matches, the
  subsuming one matches. The check is reflexive and transitive, so it composes along delegations.
\<close>

theorem subsumption_never_widens:
  assumes "pattern_subsumes_segments parent child"
  shows "(\<forall>seg. match_segments child seg \<longrightarrow> match_segments parent seg) \<and>
    (\<forall>other. pattern_subsumes_segments child other \<longrightarrow> pattern_subsumes_segments parent other) \<and>
    pattern_subsumes_segments child child"
  using assms subsumes_matches subsumes_trans subsumes_refl by blast

theorem subsumption_never_widens_witness:
  "pattern_subsumes_segments [''jobs'', ''**''] [''jobs'', ''*'', ''log''] \<and>
   match_segments [''jobs'', ''*'', ''log''] [''jobs'', ''a'', ''log''] \<and>
   match_segments [''jobs'', ''**''] [''jobs'', ''a'', ''log'']"
proof -
  have "pattern_subsumes_segments [''jobs'', ''**''] [''jobs'', ''*'', ''log'']"
    by (simp add: pattern_subsumes_glob subsumes_token_def)
  moreover have "match_segments [''jobs'', ''*'', ''log''] [''jobs'', ''a'', ''log'']"
    by (simp add: match_segments_glob covers_token_def)
  ultimately show ?thesis using subsumption_never_widens by blast
qed

end
