(* ===== verification/Path_Laws.thy ===== *)
theory Path_Laws
  imports Path_Syntax
begin

text \<open>
  Properties of paths: the invariant every constructor keeps, the printed form, and that printing and
  parsing are inverse to each other.
\<close>

section \<open>Identifier characters\<close>

lemma alphabetic_ascii: "ascii_alphabetic c \<Longrightarrow> ascii_alphanumeric c"
  by (simp add: ascii_alphanumeric_def)

lemma ident_char_ascii: "ident_char c \<Longrightarrow> byte c < 128" "segment_char c \<Longrightarrow> byte c < 128"
  by (auto simp: ident_char_def segment_char_def ascii_alphanumeric_def ascii_alphabetic_def ascii_digit_def)

lemma ident_char_not:
  "\<not> ident_char (CHR ''/'')" "\<not> ident_char (CHR ''@'')" "\<not> ident_char (CHR '':'')" "\<not> ident_char (CHR ''*'')"
  "\<not> segment_char (CHR ''/'')" "\<not> segment_char (CHR ''@'')" "\<not> segment_char (CHR ''*'')"
  by (simp_all add: ident_char_def segment_char_def ascii_alphanumeric_def ascii_alphabetic_def ascii_digit_def)

lemma ident_text_chars:
  assumes "ident_text k s" "c \<in> set s"
  shows "k \<noteq> Ident_Segment \<Longrightarrow> ident_char c" "segment_char c \<or> c = CHR ''*''"
proof -
  show ident: "ident_char c" if "k \<noteq> Ident_Segment"
    using assms that by (cases "(k, s)" rule: ident_text.cases)
      (auto simp: list_all_iff ident_char_def ascii_alphanumeric_def)
  show "segment_char c \<or> c = CHR ''*''"
  proof (cases "k = Ident_Segment")
    case True
    then show ?thesis using assms by (cases s) (auto simp: list_all_iff segment_char_def)
  qed (use ident in \<open>auto simp: ident_char_def segment_char_def\<close>)
qed

lemma ident_text_ascii: "ident_text k s \<Longrightarrow> is_ascii s"
  using ident_text_chars(2) ident_char_ascii(2) by (fastforce simp: is_ascii_def list_all_iff)

lemma ident_text_free:
  "ident_text k s \<Longrightarrow> CHR ''/'' \<notin> set s" "ident_text k s \<Longrightarrow> CHR ''@'' \<notin> set s"
  "ident_text k s \<Longrightarrow> k \<noteq> Ident_Segment \<Longrightarrow> CHR '':'' \<notin> set s" "ident_text k s \<Longrightarrow> s \<noteq> []"
  using ident_text_chars [of k s] ident_char_not by force+

lemma ident_iff:
  "is_scheme_ident s \<longleftrightarrow> ident_text Ident_Scheme s" "is_cluster_ident s \<longleftrightarrow> ident_text Ident_Cluster s"
  "is_segment_ident s \<longleftrightarrow> ident_text Ident_Segment s"
  by (simp_all add: is_scheme_ident_def is_cluster_ident_def is_segment_ident_def identifier_validate_cases)

lemma validate_segment_Ok: "validate_segment s = Ok () \<longleftrightarrow> ident_text Ident_Segment s"
  using ident_text_ascii ident_text_free(4) by (auto simp: validate_segment_def ident_iff)

lemma validate_cluster_Ok: "validate_cluster_ident s = Ok () \<longleftrightarrow> ident_text Ident_Cluster s"
  using ident_text_ascii by (auto simp: validate_cluster_ident_def ident_iff)

section \<open>Well-formed paths\<close>

definition path_wf :: "path \<Rightarrow> bool" where
  "path_wf p \<longleftrightarrow>
     ident_text Ident_Scheme (p_scheme p) \<and> p_scheme p \<noteq> ''path'' \<and>
     (case p_cluster p of Some c \<Rightarrow> ident_text Ident_Cluster c | None \<Rightarrow> True) \<and>
     list_all (ident_text Ident_Segment) (p_segments p)"

lemma try_new_Ok: "path_try_new s = Ok p \<longleftrightarrow> p = Path None s [] \<and> path_wf p"
  using ident_text_ascii [of Ident_Scheme s] ident_text_free [of Ident_Scheme s]
  by (auto simp: path_try_new_def path_wf_def ident_iff)

lemma try_push_Ok:
  "path_try_push p s = Ok q \<longleftrightarrow>
     q = Path (p_cluster p) (p_scheme p) (p_segments p @ [s]) \<and> ident_text Ident_Segment s"
  by (auto simp: path_try_push_def validate_segment_Ok)

lemma try_with_cluster_Ok:
  "path_try_with_cluster p c = Ok q \<longleftrightarrow>
     q = Path (Some c) (p_scheme p) (p_segments p) \<and> ident_text Ident_Cluster c"
  by (auto simp: path_try_with_cluster_def validate_cluster_Ok)

section \<open>Printing\<close>

definition segments_text :: "string list \<Rightarrow> string" where
  "segments_text segs = concat (map ((#) (CHR ''/'')) segs)"

definition path_text :: "path \<Rightarrow> string" where
  "path_text p =
     (case p_cluster p of
        Some c \<Rightarrow> ''path://'' @ c @ ''/'' @ p_scheme p @ segments_text (p_segments p)
      | None \<Rightarrow> p_scheme p @ ''://'' @ str_join (CHR ''/'') (p_segments p))"

lemma str_join_text: "segs \<noteq> [] \<Longrightarrow> CHR ''/'' # str_join (CHR ''/'') segs = segments_text segs"
  by (cases segs) (simp_all add: segments_text_def str_join_concat)

text \<open>What the iterator still yields once the prefix is out.\<close>

lemma all_parts_tail:
  assumes "prefix_part (cp_path it) (cp_prefix it) = None"
  shows "concat (all_parts it) =
    (case cp_pending it of Some s \<Rightarrow> s | None \<Rightarrow> []) @
    (if cp_separator it then segments_text (cp_segments it)
     else str_join (CHR ''/'') (cp_segments it))"
  using assms
proof (induction it rule: all_parts.induct)
  case (1 it)
  obtain r it' where step: "next_part it = (r, it')" by fastforce
  show ?case
  proof (cases r)
    case None
    then show ?thesis using step 1(2)
      by (subst all_parts.simps)
        (auto simp: next_part_def segments_text_def split: option.splits list.splits if_splits)
  next
    case (Some part)
    have same: "cp_path it' = cp_path it" "cp_prefix it' = cp_prefix it"
      using step Some 1(2) by (auto simp: next_part_def split: option.splits list.splits if_splits)
    have IH: "concat (all_parts it') = (case cp_pending it' of Some s \<Rightarrow> s | None \<Rightarrow> []) @
      (if cp_separator it' then segments_text (cp_segments it')
       else str_join (CHR ''/'') (cp_segments it'))"
      using 1(1) [OF step [symmetric] Some] 1(2) same by simp
    then have all: "concat (all_parts it) = part @ concat (all_parts it')"
      using step Some by (subst all_parts.simps) simp
    show ?thesis
      unfolding all IH using step Some 1(2)
      by (auto simp: next_part_def segments_text_def str_join_concat split: option.splits list.splits if_splits)
  qed
qed

lemma all_parts_prefix:
  "prefix_part (cp_path it) (cp_prefix it) = Some part \<Longrightarrow>
   all_parts it = part # all_parts (it\<lparr>cp_prefix := cp_prefix it + 1\<rparr>)"
  by (subst all_parts.simps) (simp add: next_part_def)

lemma path_display_text: "path_display p = path_text p"
proof (cases "p_cluster p")
  case None
  let ?it = "canonical_parts_of p"
  have "all_parts ?it = p_scheme p # ''://'' # all_parts (?it\<lparr>cp_prefix := 2\<rparr>)"
    using None by (simp add: all_parts_prefix canonical_parts_of_def prefix_part_def eval_nat_numeral)
  then show ?thesis
    using None all_parts_tail [of "?it\<lparr>cp_prefix := 2\<rparr>"]
    by (simp add: path_display_def path_text_def canonical_parts_of_def prefix_part_def)
next
  case (Some c)
  let ?it = "canonical_parts_of p"
  have "all_parts ?it = ''path://'' # c # ''/'' # p_scheme p # all_parts (?it\<lparr>cp_prefix := 4\<rparr>)"
    using Some by (simp add: all_parts_prefix canonical_parts_of_def prefix_part_def eval_nat_numeral)
  then show ?thesis
    using Some all_parts_tail [of "?it\<lparr>cp_prefix := 4\<rparr>"]
    by (simp add: path_display_def path_text_def canonical_parts_of_def prefix_part_def)
qed

lemma try_fold_len_eq:
  "try_fold_len n parts =
     (if parts = [] \<or> n + length (concat parts) \<le> usize_max then Some (n + length (concat parts)) else None)"
  by (induction n parts rule: try_fold_len.induct) (auto simp: checked_add_def)

section \<open>Parsing\<close>

lemma path_head_local:
  assumes "path_wf (Path None scheme segs)"
  shows "path_head (scheme @ ''://'' @ body) = Ok (None, scheme, body)"
proof -
  have colon: "CHR '':'' \<notin> set scheme" and name: "scheme \<noteq> ''path''"
    using assms ident_text_free(3) [of Ident_Scheme scheme] by (auto simp: path_wf_def)
  have split: "split_once ''://'' (scheme @ ''://'' @ body) = Some (scheme, body)"
    using colon by (intro split_once_first) auto
  have "\<not> starts_with ''path://'' (scheme @ ''://'' @ body)"
  proof
    assume "starts_with ''path://'' (scheme @ ''://'' @ body)"
    then obtain r where "scheme @ ''://'' @ body = ''path'' @ ''://'' @ r"
      by (auto simp: starts_with_iff)
    then have "split_once ''://'' (scheme @ ''://'' @ body) = Some (''path'', r)"
      using split_once_first [of "''://''" "''path''" r] by simp
    then show False using split name by simp
  qed
  then show ?thesis
    using split by (simp add: path_head_def strip_prefix_None_iff [THEN iffD2])
qed

lemma path_head_clustered:
  assumes "path_wf (Path (Some c) scheme segs)"
  shows "path_head (''path://'' @ c @ ''/'' @ scheme @ segments_text segs) =
    Ok (Some c, scheme, str_join (CHR ''/'') segs)"
proof -
  have c: "ident_text Ident_Cluster c" and scheme: "ident_text Ident_Scheme scheme"
    and segs: "list_all (ident_text Ident_Segment) segs"
    using assms by (simp_all add: path_wf_def)
  note free = ident_text_free(1) [OF c] ident_text_free(1) [OF scheme] ident_text_free(4) [OF scheme]
  let ?rest = "scheme @ segments_text segs"
  have first: "split_once ''/'' (c @ ''/'' @ ?rest) = Some (c, ?rest)"
    using split_once_first [of "''/''" c ?rest] free by simp
  have "last ?rest \<noteq> CHR ''/'' \<and> (case split_once ''/'' ?rest of Some r \<Rightarrow> r | None \<Rightarrow> (?rest, [])) =
      (scheme, str_join (CHR ''/'') segs)"
  proof (cases "segs = []")
    case True
    moreover have "last scheme \<noteq> CHR ''/''" using free last_in_set by metis
    ultimately show ?thesis
      using free by (auto simp: segments_text_def split_once_None [THEN iffD2])
  next
    case False
    then have tail: "segments_text segs = CHR ''/'' # str_join (CHR ''/'') segs"
      by (simp add: str_join_text)
    obtain xs x where xs: "segs = xs @ [x]" using False by (cases segs rule: rev_cases) auto
    then have x: "x \<noteq> []" "CHR ''/'' \<notin> set x"
      using segs ident_text_free [of Ident_Segment x] by auto
    have "last ?rest = last x" using xs x(1) by (simp add: segments_text_def)
    then have "last ?rest \<noteq> CHR ''/''" using x last_in_set by metis
    then show ?thesis
      using split_once_first [of "''/''" scheme "str_join (CHR ''/'') segs"] free(2) by (simp add: tail)
  qed
  then show ?thesis
    using strip_prefix_append [of "''path://''" "c @ ''/'' @ ?rest"] first validate_cluster_Ok [of c] c
    by (simp add: path_head_def)
qed

text \<open>What a successful head leaves determines the text.\<close>

lemma path_head_text:
  assumes "path_head s = Ok (cluster, scheme, body)"
  shows "s = (case cluster of
      Some c \<Rightarrow> ''path://'' @ c @ ''/'' @ scheme @ (if body = [] then [] else CHR ''/'' # body)
    | None \<Rightarrow> scheme @ ''://'' @ body)"
    and "case cluster of Some c \<Rightarrow> ident_text Ident_Cluster c | None \<Rightarrow> True"
proof -
  have "s = (case cluster of
      Some c \<Rightarrow> ''path://'' @ c @ ''/'' @ scheme @ (if body = [] then [] else CHR ''/'' # body)
    | None \<Rightarrow> scheme @ ''://'' @ body) \<and>
    (case cluster of Some c \<Rightarrow> ident_text Ident_Cluster c | None \<Rightarrow> True)"
  proof (cases "strip_prefix ''path://'' s")
    case None
    then show ?thesis using assms by (auto simp: path_head_def dest!: split_once_Some)
  next
    case (Some clustered)
    then obtain c rest where c: "split_once ''/'' clustered = Some (c, rest)"
      "validate_cluster_ident c = Ok ()" "cluster = Some c"
      and rest: "rest = [] \<or> last rest \<noteq> CHR ''/''"
      and body: "(scheme, body) = (case split_once ''/'' rest of Some r \<Rightarrow> r | None \<Rightarrow> (rest, []))"
      using assms by (auto simp: path_head_def Let_def split: if_splits prod.splits)
    have "clustered = c @ ''/'' @ rest" "s = ''path://'' @ clustered"
      using c(1) Some by (auto simp: split_once_char strip_prefix_Some_iff)
    moreover have "rest = scheme @ (if body = [] then [] else CHR ''/'' # body)"
      using body rest by (auto simp: split_once_char split: option.splits)
    ultimately show ?thesis using c validate_cluster_Ok by simp
  qed
  then show "s = (case cluster of
      Some c \<Rightarrow> ''path://'' @ c @ ''/'' @ scheme @ (if body = [] then [] else CHR ''/'' # body)
    | None \<Rightarrow> scheme @ ''://'' @ body)"
    "case cluster of Some c \<Rightarrow> ident_text Ident_Cluster c | None \<Rightarrow> True" by simp_all
qed

lemma path_text_plain:
  assumes "path_wf p"
  shows "path_text p \<noteq> []" "is_ascii (path_text p)" "CHR ''@'' \<notin> set (path_text p)"
proof -
  have ascii: "byte x < 128 \<and> x \<noteq> CHR ''@''" if "x \<in> set (path_text p)" for x
  proof -
    have piece: "byte x < 128 \<and> x \<noteq> CHR ''@''" if "ident_text k s" "x \<in> set s" for k s
      using that ident_text_ascii [of k s] ident_text_free(2) [of k s] by (auto simp: is_ascii_def list_all_iff)
    have "x \<in> set ''path://'' \<union> set (p_scheme p) \<union> (case p_cluster p of Some c \<Rightarrow> set c | None \<Rightarrow> {}) \<union>
        \<Union> (set (map set (p_segments p)))"
      using \<open>x \<in> set (path_text p)\<close>
      by (cases "p_segments p")
        (auto simp: path_text_def segments_text_def str_join_concat split: option.splits if_splits)
    then show ?thesis
      using assms by (auto simp: path_wf_def list_all_iff dest: piece split: option.splits)
  qed
  then show "is_ascii (path_text p)" "CHR ''@'' \<notin> set (path_text p)"
    by (auto simp: is_ascii_def list_all_iff)
  show "path_text p \<noteq> []" by (simp add: path_text_def split: option.splits)
qed

lemma path_text_parses:
  assumes "path_wf p"
  shows "path_parse (path_text p) = Ok p"
proof -
  obtain cluster scheme segs where p: "p = Path cluster scheme segs" by (cases p)
  have segs: "list_all (ident_text Ident_Segment) segs" using assms p by (simp add: path_wf_def)
  then have "p \<in> set segs \<Longrightarrow> CHR ''/'' \<notin> set p" for p
    using ident_text_free(1) by (auto simp: list_all_iff)
  then have split: "(if str_join (CHR ''/'') segs = [] then []
      else str_split (CHR ''/'') (str_join (CHR ''/'') segs)) = segs"
    using segs str_split_join [of segs "CHR ''/''"]
    by (cases segs) (auto simp: str_join_concat dest: ident_text_free(4))
  have "path_head (path_text p) = Ok (cluster, scheme, str_join (CHR ''/'') segs)"
    using assms path_head_local [of scheme segs] path_head_clustered [of _ scheme segs]
    by (cases cluster) (simp_all add: p path_text_def)
  moreover have "ident_text Ident_Scheme scheme" "scheme \<noteq> ''path''" using assms p by (simp_all add: path_wf_def)
  ultimately show ?thesis
    using path_text_plain [OF assms] segs split ident_text_free [of Ident_Scheme scheme]
    by (auto simp: path_parse_def ident_iff validate_segment_Ok list_all_iff Let_def p)
qed

lemma path_parse_text:
  assumes "path_parse s = Ok p"
  shows "path_wf p" "path_text p = s"
proof -
  obtain body where head: "path_head s = Ok (p_cluster p, p_scheme p, body)"
    and segs: "p_segments p = (if body = [] then [] else str_split (CHR ''/'') body)"
    and ok: "ident_text Ident_Scheme (p_scheme p)" "p_scheme p \<noteq> ''path''"
      "list_all (ident_text Ident_Segment) (p_segments p)"
    using assms by (auto simp: path_parse_def ident_iff validate_segment_Ok list_all_iff Let_def split: if_splits prod.splits)
  note head_text = path_head_text [OF head]
  show "path_wf p" using ok head_text(2) by (simp add: path_wf_def)
  have join: "str_join (CHR ''/'') (p_segments p) = body" by (simp add: segs)
  have "segments_text (p_segments p) = (if body = [] then [] else CHR ''/'' # body)"
    using str_join_text [of "p_segments p"] join by (auto simp: segs segments_text_def)
  then show "path_text p = s"
    using head_text(1) join by (auto simp: path_text_def split: option.splits)
qed

section \<open>Incremental validation\<close>

lemma identifier_bytes_append:
  "identifier_bytes (a @ b) d =
     (case identifier_bytes a d of (Ok _, d') \<Rightarrow> identifier_bytes b d' | r \<Rightarrow> r)"
  by (induction a arbitrary: d) (auto simp: Let_def split: prod.splits)

lemma identifier_bytes_invalid:
  assumes "identifier_bytes a d = (r, d')" "\<not> id_invalid d"
  shows "id_invalid d' \<longleftrightarrow> r \<noteq> Ok ()" "r = Ok () \<or> r = Err Ident_Character"
  using assms
  by (induction a arbitrary: d) (auto simp: Let_def split: prod.splits if_splits)

definition push_fragments :: "ident_scan \<Rightarrow> string list \<Rightarrow> ident_scan" where
  "push_fragments = foldl (\<lambda>d bytes. snd (identifier_push d bytes))"

lemma push_fragments_invalid: "id_invalid d \<Longrightarrow> push_fragments d frags = d"
  by (induction frags) (simp_all add: push_fragments_def identifier_push_def)

lemma push_fragments_eq:
  "\<not> id_invalid d \<Longrightarrow> push_fragments d frags = snd (identifier_bytes (concat frags) d)"
proof (induction frags arbitrary: d)
  case (Cons f frags)
  obtain r d' where f: "identifier_bytes f d = (r, d')" by fastforce
  have step: "push_fragments d (f # frags) = push_fragments d' frags"
    using Cons.prems f by (simp add: push_fragments_def identifier_push_def)
  show ?case
  proof (cases r)
    case (Ok u)
    then show ?thesis
      using Cons.IH [of d'] identifier_bytes_invalid [OF f Cons.prems] step f
      by (simp add: identifier_bytes_append)
  next
    case (Err x)
    then show ?thesis
      using push_fragments_invalid [of d' frags] identifier_bytes_invalid [OF f Cons.prems] step f
      by (simp add: identifier_bytes_append)
  qed
qed (simp add: push_fragments_def)

text \<open>
  C30: validating an identifier that arrives in fragments gives the verdict of validating it whole,
  wherever the fragments are cut; the scanner keeps only a capped position and a wildcard count.
\<close>

theorem fragments_validate_whole:
  "identifier_finish (push_fragments (identifier_new k) frags) = identifier_validate (concat frags) k"
proof -
  have new: "\<not> id_invalid (identifier_new k)" by (simp add: identifier_new_def)
  obtain r d where "identifier_bytes (concat frags) (identifier_new k) = (r, d)" by fastforce
  then show ?thesis
    using push_fragments_eq [OF new, of frags] identifier_bytes_invalid [OF _ new, of "concat frags" r d] new
    by (auto simp: identifier_validate_def identifier_push_def identifier_finish_def)
qed

section \<open>Contracts\<close>

text \<open>
  C28: parsing and printing are inverse. A text parses to a path exactly when it is the printed form of
  that well-formed path: what is printed parses back to the same path, nothing else parses to it, and
  no text has two readings.
\<close>

theorem path_parse_print: "path_parse s = Ok p \<longleftrightarrow> path_wf p \<and> path_display p = s"
  using path_parse_text [of s p] path_text_parses [of p] by (auto simp: path_display_text)

text \<open>
  C31: every operation that builds a path gives a well-formed one: identifiers in the grammar of their
  place and never the reserved scheme. A pushed literal keeps a concrete path concrete.
\<close>

theorem path_operations_wf:
  assumes "path_wf p"
  shows "(\<forall>s q. path_try_new s = Ok q \<longrightarrow> path_wf q) \<and> (\<forall>s q. path_parse s = Ok q \<longrightarrow> path_wf q) \<and>
    (\<forall>s q. path_try_push p s = Ok q \<longrightarrow> path_wf q) \<and>
    (\<forall>s q. path_try_push_owned p s = Ok q \<longrightarrow> path_wf q) \<and>
    (\<forall>s q. path_try_push_literal p s = Ok q \<longrightarrow> path_wf q \<and> (is_concrete p \<longrightarrow> is_concrete q)) \<and>
    (\<forall>c q. path_try_with_cluster p c = Ok q \<longrightarrow> path_wf q) \<and> path_wf (snd (pop_segment p))"
  using assms path_parse_text(1)
  by (auto simp: try_new_Ok try_push_Ok try_with_cluster_Ok path_try_push_owned_def validate_segment_Ok
    path_try_push_literal_def pop_segment_def is_concrete_def path_wf_def list_all_iff
    dest: in_set_butlastD split: if_splits)

theorem path_operations_wf_witness:
  "path_wf (Path None ''state'' [''jobs'']) \<and>
   path_try_push_literal (Path None ''state'' [''jobs'']) ''a.1'' = Ok (Path None ''state'' [''jobs'', ''a.1'']) \<and>
   path_wf (Path None ''state'' [''jobs'', ''a.1''])"
proof -
  let ?p = "Path None ''state'' [''jobs'']"
  have wf: "path_wf ?p"
    by (simp add: path_wf_def ident_char_def segment_char_def ascii_alphanumeric_def ascii_alphabetic_def)
  have push: "path_try_push_literal ?p ''a.1'' = Ok (Path None ''state'' [''jobs'', ''a.1''])"
    by (simp add: path_try_push_literal_def is_wildcard_segment_def try_push_Ok segment_char_def
      ascii_alphanumeric_def ascii_alphabetic_def ascii_digit_def)
  then show ?thesis using path_operations_wf [OF wf] wf by blast
qed

text \<open>
  C36: the length computed part by part is the length of the printed path, and is absent exactly when
  that length does not fit a \<open>usize\<close>.
\<close>

theorem canonical_len_exact:
  "canonical_len p =
     (if length (path_display p) \<le> usize_max then Some (length (path_display p)) else None)"
proof -
  have "all_parts (canonical_parts_of p) \<noteq> []"
    by (cases "p_cluster p") (simp_all add: all_parts_prefix canonical_parts_of_def prefix_part_def)
  then show ?thesis by (simp add: canonical_len_def path_display_def try_fold_len_eq)
qed

end
