(* ===== verification/Rust_Numbers.thy ===== *)
theory Rust_Numbers
  imports Rust_Text
begin

text \<open>
  Number texts and character classes of the standard library: \<open>i64\<close> and \<open>f64\<close> parsing, binary64
  comparison on bit patterns, UTF-8 validity and trimming of white space.
\<close>

unbundle bit_operations_syntax

section \<open>Integers\<close>

fun digits_value :: "nat \<Rightarrow> string \<Rightarrow> nat option" where
  "digits_value acc [] = Some acc"
| "digits_value acc (c # cs) =
     (if ascii_digit c then digits_value (10 * acc + (byte c - 48)) cs else None)"

definition digits :: "string \<Rightarrow> nat option" where
  "digits s = (if s = [] then None else digits_value 0 s)"

text \<open>\<open>str::parse::<i64>\<close>: an optional sign, then decimal digits within range.\<close>

definition parse_i64 :: "string \<Rightarrow> int option" where
  "parse_i64 s =
     (case s of
        [] \<Rightarrow> None
      | c # cs \<Rightarrow>
          if c = CHR ''-'' then
            (case digits cs of Some n \<Rightarrow> if n \<le> 2 ^ 63 then Some (- int n) else None | None \<Rightarrow> None)
          else
            (case digits (if c = CHR ''+'' then cs else s) of
               Some n \<Rightarrow> if n < 2 ^ 63 then Some (int n) else None
             | None \<Rightarrow> None))"

section \<open>Binary64\<close>

text \<open>A float is its bit pattern; the magnitude bits order finite values and infinities.\<close>

type_synonym f64 = "64 word"

definition f64_magnitude :: "f64 \<Rightarrow> nat" where
  "f64_magnitude b = unat (take_bit 63 b)"

definition f64_infinity :: nat where
  "f64_infinity = 2047 * 2 ^ 52"

definition f64_is_finite :: "f64 \<Rightarrow> bool" where
  "f64_is_finite b \<longleftrightarrow> f64_magnitude b < f64_infinity"

definition f64_is_nan :: "f64 \<Rightarrow> bool" where
  "f64_is_nan b \<longleftrightarrow> f64_infinity < f64_magnitude b"

definition f64_key :: "f64 \<Rightarrow> int" where
  "f64_key b = (if bit b 63 then - int (f64_magnitude b) else int (f64_magnitude b))"

definition f64_eq :: "f64 \<Rightarrow> f64 \<Rightarrow> bool" where
  "f64_eq a b \<longleftrightarrow> \<not> f64_is_nan a \<and> \<not> f64_is_nan b \<and> f64_key a = f64_key b"

definition f64_lt :: "f64 \<Rightarrow> f64 \<Rightarrow> bool" where
  "f64_lt a b \<longleftrightarrow> \<not> f64_is_nan a \<and> \<not> f64_is_nan b \<and> f64_key a < f64_key b"

definition f64_le :: "f64 \<Rightarrow> f64 \<Rightarrow> bool" where
  "f64_le a b \<longleftrightarrow> f64_lt a b \<or> f64_eq a b"

text \<open>
  Decimal to nearest: the value \<open>n / d\<close> is scaled so that its quotient has 53 bits (fewer for
  subnormal values) and rounded to the nearest integer, ties to even. Adding the significand to the
  biased exponent carries into it when rounding up reaches the next power of two.
\<close>

fun bit_length :: "nat \<Rightarrow> nat" where
  "bit_length n = (if n = 0 then 0 else 1 + bit_length (n div 2))"

declare bit_length.simps [simp del]

definition round_half_even :: "nat \<Rightarrow> nat \<Rightarrow> nat" where
  "round_half_even n d =
     (let q = n div d; r = n mod d in if d < 2 * r \<or> (2 * r = d \<and> odd q) then q + 1 else q)"

definition scaled_quotient :: "nat \<Rightarrow> nat \<Rightarrow> int \<Rightarrow> nat" where
  "scaled_quotient n d e =
     (if 0 \<le> e then round_half_even n (d * 2 ^ nat e) else round_half_even (n * 2 ^ nat (- e)) d)"

definition f64_of_ratio :: "nat \<Rightarrow> nat \<Rightarrow> nat" where
  "f64_of_ratio n d =
     (if n = 0 then 0
      else
        let e = int (bit_length n) - int (bit_length d) - 53;
            big = (if 0 \<le> e then d * 2 ^ nat e * 2 ^ 53 \<le> n else d * 2 ^ 53 \<le> n * 2 ^ nat (- e));
            e = max (if big then e + 1 else e) (- 1074)
        in min f64_infinity (nat (e + 1074) * 2 ^ 52 + scaled_quotient n d e))"

text \<open>The decimal grammar: digits, an optional fraction, an optional exponent, at least one digit.\<close>

definition digit_run :: "string \<Rightarrow> string \<times> string" where
  "digit_run s = (takeWhile ascii_digit s, dropWhile ascii_digit s)"

definition parse_exponent :: "string \<Rightarrow> int option" where
  "parse_exponent s =
     (case s of
        [] \<Rightarrow> Some 0
      | c # cs \<Rightarrow>
          if c \<in> {CHR ''e'', CHR ''E''} then
            (case cs of
               CHR ''-'' # ds \<Rightarrow> map_option (\<lambda>n. - int n) (digits ds)
             | CHR ''+'' # ds \<Rightarrow> map_option int (digits ds)
             | _ \<Rightarrow> map_option int (digits cs))
          else None)"

definition parse_decimal :: "string \<Rightarrow> nat option" where
  "parse_decimal s =
     (let (whole, s) = digit_run s;
          (fraction, s) =
            (case s of c # cs \<Rightarrow> if c = CHR ''.'' then digit_run cs else ([], s) | [] \<Rightarrow> ([], s))
      in if whole @ fraction = [] then None
         else (case (digits (whole @ fraction), parse_exponent s) of
                 (Some n, Some e) \<Rightarrow>
                   let e = e - int (length fraction) in
                   Some (if 0 \<le> e then f64_of_ratio (n * 10 ^ nat e) 1
                         else f64_of_ratio n (10 ^ nat (- e)))
               | _ \<Rightarrow> None))"

definition ascii_lower :: "char \<Rightarrow> char" where
  "ascii_lower c = (if 65 \<le> byte c \<and> byte c \<le> 90 then char_of (byte c + 32) else c)"

definition parse_magnitude :: "string \<Rightarrow> nat option" where
  "parse_magnitude s =
     (if map ascii_lower s \<in> {''inf'', ''infinity''} then Some f64_infinity
      else if map ascii_lower s = ''nan'' then Some (f64_infinity + 2 ^ 51)
      else parse_decimal s)"

definition parse_f64 :: "string \<Rightarrow> f64 option" where
  "parse_f64 s =
     (case s of
        CHR ''-'' # cs \<Rightarrow> map_option (\<lambda>m. word_of_nat (2 ^ 63 + m)) (parse_magnitude cs)
      | CHR ''+'' # cs \<Rightarrow> map_option word_of_nat (parse_magnitude cs)
      | _ \<Rightarrow> map_option word_of_nat (parse_magnitude s))"

section \<open>UTF-8\<close>

definition continuation :: "nat \<Rightarrow> nat \<Rightarrow> char \<Rightarrow> bool" where
  "continuation lo hi c \<longleftrightarrow> lo \<le> byte c \<and> byte c \<le> hi"

fun utf8_valid :: "string \<Rightarrow> bool" where
  "utf8_valid [] = True"
| "utf8_valid (a # s) =
     (if byte a < 128 then utf8_valid s
      else if 194 \<le> byte a \<and> byte a \<le> 223 then
        (case s of b # s' \<Rightarrow> continuation 128 191 b \<and> utf8_valid s' | _ \<Rightarrow> False)
      else if 224 \<le> byte a \<and> byte a \<le> 239 then
        (case s of
           b # c # s' \<Rightarrow>
             continuation (if byte a = 224 then 160 else 128) (if byte a = 237 then 159 else 191) b \<and>
             continuation 128 191 c \<and> utf8_valid s'
         | _ \<Rightarrow> False)
      else if 240 \<le> byte a \<and> byte a \<le> 244 then
        (case s of
           b # c # d # s' \<Rightarrow>
             continuation (if byte a = 240 then 144 else 128) (if byte a = 244 then 143 else 191) b \<and>
             continuation 128 191 c \<and> continuation 128 191 d \<and> utf8_valid s'
         | _ \<Rightarrow> False)
      else False)"

section \<open>White space\<close>

text \<open>The encodings of the code points with the \<open>White_Space\<close> property.\<close>

definition white_spaces :: "string list" where
  "white_spaces = map (map char_of)
     ([[9], [10], [11], [12], [13], [32], [194, 133], [194, 160], [225, 154, 128]] @
      map (\<lambda>x. [226, 128, x]) [128..<139] @
      [[226, 128, 168], [226, 128, 169], [226, 128, 175], [226, 129, 159], [227, 128, 128 :: nat]])"

function trim_start :: "string \<Rightarrow> string" where
  "trim_start s =
     (case find (\<lambda>w. starts_with w s) white_spaces of
        Some w \<Rightarrow> trim_start (drop (length w) s)
      | None \<Rightarrow> s)"
  by pat_completeness auto

text \<open>Nonempty encodings whose bytes after the first are never ASCII.\<close>

lemma white_spaces_shape:
  assumes "w \<in> set white_spaces"
  shows "w \<noteq> []" "c \<in> set (tl w) \<Longrightarrow> 128 \<le> byte c"
  using assms by (auto simp: white_spaces_def)

termination trim_start
proof (relation "measure length")
  fix s w
  assume "find (\<lambda>w. starts_with w s) white_spaces = Some w"
  then have "w \<in> set white_spaces" "starts_with w s" by (auto simp: find_Some_iff)
  then show "(drop (length w) s, s) \<in> measure length"
    using white_spaces_shape(1) [of w] by (auto simp: starts_with_iff)
qed simp

definition ends_with :: "string \<Rightarrow> string \<Rightarrow> bool" where
  "ends_with pat s \<longleftrightarrow> starts_with (rev pat) (rev s)"

function trim_end :: "string \<Rightarrow> string" where
  "trim_end s =
     (case find (\<lambda>w. ends_with w s) white_spaces of
        Some w \<Rightarrow> trim_end (take (length s - length w) s)
      | None \<Rightarrow> s)"
  by pat_completeness auto

lemma ends_with_iff: "ends_with pat s \<longleftrightarrow> (\<exists>r. s = r @ pat)"
  unfolding ends_with_def starts_with_iff by (metis rev_append rev_rev_ident)

termination trim_end
proof (relation "measure length")
  fix s w
  assume "find (\<lambda>w. ends_with w s) white_spaces = Some w"
  then have "w \<in> set white_spaces" "ends_with w s" by (auto simp: find_Some_iff)
  then show "(take (length s - length w) s, s) \<in> measure length"
    using white_spaces_shape(1) [of w] by (auto simp: ends_with_iff)
qed simp

declare trim_start.simps [simp del] trim_end.simps [simp del]

definition trim :: "string \<Rightarrow> string" where
  "trim s = trim_end (trim_start s)"

end
