(* ===== verification/Value_Data.thy ===== *)
theory Value_Data
  imports Rust_Numbers
begin

text \<open>
  The generic data values of \<open>xolotl-types/src/value.rs\<close> and \<open>value/resident.rs\<close>: their semantic
  variants, accessors, content references and digests. A map value is its entries in key order; how
  collections are stored and shared is not part of this model.
\<close>

section \<open>Variants\<close>

datatype stream_marker = Marker_Done | Marker_Error string

record blob_ref =
  bl_hash :: string
  bl_size :: u64
  bl_mime :: "string option"

datatype dtype = DT_F16 | DT_Bf16 | DT_F32 | DT_F64 | DT_I8 | DT_I16 | DT_I32 | DT_I64 | DT_U8 | DT_Bool

record tensor_ref =
  tr_blob :: blob_ref
  tr_dtype :: dtype
  tr_shape :: "u64 list"

datatype media_kind = Media_Audio | Media_Video | Media_Pose | Media_Sensor

record frame_ref =
  fm_blob :: blob_ref
  fm_ts_nanos :: int
  fm_kind :: media_kind

datatype xvalue =
    V_Null
  | V_Bool bool
  | V_Int int
  | V_Float f64
  | V_Str string
  | V_Bytes "8 word list"
  | V_List "xvalue list"
  | V_Map "(string \<times> xvalue) list"
  | V_Blob blob_ref
  | V_Tensor tensor_ref
  | V_Frame frame_ref
  | V_StreamEnd stream_marker

section \<open>Accessors\<close>

definition as_list :: "xvalue \<Rightarrow> xvalue list option" where
  "as_list v = (case v of V_List vs \<Rightarrow> Some vs | _ \<Rightarrow> None)"

definition as_map :: "xvalue \<Rightarrow> (string \<times> xvalue) list option" where
  "as_map v = (case v of V_Map m \<Rightarrow> Some m | _ \<Rightarrow> None)"

definition as_str :: "xvalue \<Rightarrow> string option" where
  "as_str v = (case v of V_Str s \<Rightarrow> Some s | _ \<Rightarrow> None)"

definition as_bytes :: "xvalue \<Rightarrow> 8 word list option" where
  "as_bytes v = (case v of V_Bytes b \<Rightarrow> Some b | _ \<Rightarrow> None)"

definition as_int :: "xvalue \<Rightarrow> int option" where
  "as_int v = (case v of V_Int n \<Rightarrow> Some n | _ \<Rightarrow> None)"

definition as_bool :: "xvalue \<Rightarrow> bool option" where
  "as_bool v = (case v of V_Bool b \<Rightarrow> Some b | _ \<Rightarrow> None)"

definition is_null :: "xvalue \<Rightarrow> bool" where
  "is_null v \<longleftrightarrow> v = V_Null"

definition backing_blob :: "xvalue \<Rightarrow> blob_ref option" where
  "backing_blob v =
     (case v of
        V_Blob b \<Rightarrow> Some b
      | V_Tensor t \<Rightarrow> Some (tr_blob t)
      | V_Frame f \<Rightarrow> Some (fm_blob f)
      | _ \<Rightarrow> None)"

definition is_large_ref :: "xvalue \<Rightarrow> bool" where
  "is_large_ref v \<longleftrightarrow> backing_blob v \<noteq> None"

section \<open>Content digests\<close>

definition hash_bytes :: nat where "hash_bytes = 48"
definition hash_hex_len :: nat where "hash_hex_len = hash_bytes * 2"

definition sha384_hex :: "8 word list \<Rightarrow> string" where
  "sha384_hex digest =
     concat (map (\<lambda>b. [''0123456789abcdef'' ! unat (drop_bit 4 b),
                        ''0123456789abcdef'' ! unat (b AND 15)]) digest)"

definition is_valid_hash :: "string \<Rightarrow> bool" where
  "is_valid_hash h \<longleftrightarrow>
     length h = hash_hex_len \<and> list_all (\<lambda>c. ascii_digit c \<or> (97 \<le> byte c \<and> byte c \<le> 102)) h"

end
