(* ===== verification/Capability.thy ===== *)
theory Capability
  imports Path_Glob Path_Laws Value_Data
begin

text \<open>
  Capabilities, the source form of authority: \<open>xolotl-types/src/cap.rs\<close>. Literals and their parser,
  attenuation predicates, the coverage checks at the operation gate and the coverage of one capability
  by another. The diagnostic text of a malformed literal is left out.
\<close>

section \<open>Data\<close>

datatype pred_op = Op_Eq | Op_Ne | Op_Le | Op_Lt | Op_Ge | Op_Gt

record cap_pred =
  pr_key :: string
  pr_op :: pred_op
  pr_value :: string

record capability =
  c_verb :: string
  c_cluster :: "string option"
  c_scheme :: string
  c_segments :: "string list"
  c_method :: "string option"
  c_predicate :: "cap_pred option"

datatype cap_error = Malformed

section \<open>Predicates\<close>

definition predicate_number_text :: "string \<Rightarrow> string" where
  "predicate_number_text s = (case strip_prefix ''$'' s of Some r \<Rightarrow> r | None \<Rightarrow> s)"

definition parse_predicate_integer :: "string \<Rightarrow> (int, cap_error) result" where
  "parse_predicate_integer s = ok_or Malformed (parse_i64 (predicate_number_text s))"

definition parse_predicate_number :: "string \<Rightarrow> (f64, cap_error) result" where
  "parse_predicate_number s =
     bind_result (ok_or Malformed (parse_f64 (predicate_number_text s)))
       (\<lambda>n. if f64_is_finite n then Ok n else Err Malformed)"

definition op_char :: "char \<Rightarrow> bool" where
  "op_char c \<longleftrightarrow> c \<in> {CHR ''<'', CHR ''>'', CHR ''!'', CHR ''=''}"

definition parse_operator :: "string \<Rightarrow> (nat \<times> pred_op, cap_error) result" where
  "parse_operator tail =
     (if starts_with ''<='' tail then Ok (2, Op_Le)
      else if starts_with ''>='' tail then Ok (2, Op_Ge)
      else if starts_with ''!='' tail then Ok (2, Op_Ne)
      else if starts_with ''='' tail then Ok (1, Op_Eq)
      else if starts_with ''<'' tail then Ok (1, Op_Lt)
      else if starts_with ''>'' tail then Ok (1, Op_Gt)
      else Err Malformed)"

definition check_operand :: "string \<Rightarrow> pred_op \<Rightarrow> string \<Rightarrow> (unit, cap_error) result" where
  "check_operand key op v =
     (if key = ''until'' then
        if op \<noteq> Op_Eq then Err Malformed
        else bind_result (ok_or Malformed (parse_i64 v)) (\<lambda>_. Ok ())
      else if op \<in> {Op_Le, Op_Lt, Op_Ge, Op_Gt} then
        bind_result (parse_predicate_number v) (\<lambda>_. Ok ())
      else Ok ())"

definition predicate_parse :: "string \<Rightarrow> (cap_pred, cap_error) result" where
  "predicate_parse raw =
     (let raw = trim raw;
          before = takeWhile (\<lambda>c. \<not> op_char c) raw;
          tail = dropWhile (\<lambda>c. \<not> op_char c) raw
      in if tail = [] then Err Malformed
         else bind_result (parse_operator tail) (\<lambda>(width, op).
           let key = trim before; v = trim (drop width tail) in
           if key = [] \<or> v = [] then Err Malformed
           else bind_result (check_operand key op v) (\<lambda>_.
             Ok \<lparr>pr_key = key, pr_op = op, pr_value = v\<rparr>)))"

definition cmp_num :: "f64 \<Rightarrow> pred_op \<Rightarrow> f64 \<Rightarrow> bool" where
  "cmp_num a op b =
     (case op of
        Op_Eq \<Rightarrow> f64_eq a b | Op_Ne \<Rightarrow> \<not> f64_eq a b | Op_Le \<Rightarrow> f64_le a b
      | Op_Lt \<Rightarrow> f64_lt a b | Op_Ge \<Rightarrow> f64_le b a | Op_Gt \<Rightarrow> f64_lt b a)"

definition cmp_int :: "int \<Rightarrow> pred_op \<Rightarrow> int \<Rightarrow> bool" where
  "cmp_int a op b =
     (case op of
        Op_Eq \<Rightarrow> a = b | Op_Ne \<Rightarrow> a \<noteq> b | Op_Le \<Rightarrow> a \<le> b
      | Op_Lt \<Rightarrow> a < b | Op_Ge \<Rightarrow> b \<le> a | Op_Gt \<Rightarrow> b < a)"

definition predicate_eval :: "cap_pred \<Rightarrow> xvalue \<Rightarrow> int \<Rightarrow> bool" where
  "predicate_eval p input now =
     (if pr_key p = ''until'' then
        if pr_op p \<noteq> Op_Eq then False
        else (case parse_i64 (pr_value p) of None \<Rightarrow> False | Some bound \<Rightarrow> now \<le> bound)
      else
        (case Option.bind (as_map input) (\<lambda>m. map_of m (pr_key p)) of
           None \<Rightarrow> False
         | Some field \<Rightarrow>
             (case field of
                V_Str s \<Rightarrow>
                  (case pr_op p of Op_Eq \<Rightarrow> s = pr_value p | Op_Ne \<Rightarrow> s \<noteq> pr_value p | _ \<Rightarrow> False)
              | V_Int n \<Rightarrow>
                  (case parse_predicate_integer (pr_value p) of
                     Ok rhs \<Rightarrow> cmp_int n (pr_op p) rhs
                   | Err _ \<Rightarrow> False)
              | V_Float n \<Rightarrow>
                  f64_is_finite n \<and>
                  (case parse_predicate_number (pr_value p) of
                     Ok rhs \<Rightarrow> cmp_num n (pr_op p) rhs
                   | Err _ \<Rightarrow> False)
              | _ \<Rightarrow> False)))"

definition op_text :: "pred_op \<Rightarrow> string" where
  "op_text op =
     (case op of
        Op_Eq \<Rightarrow> ''='' | Op_Ne \<Rightarrow> ''!='' | Op_Le \<Rightarrow> ''<=''
      | Op_Lt \<Rightarrow> ''<'' | Op_Ge \<Rightarrow> ''>='' | Op_Gt \<Rightarrow> ''>'')"

definition predicate_display :: "cap_pred \<Rightarrow> string" where
  "predicate_display p = pr_key p @ op_text (pr_op p) @ pr_value p"

section \<open>Construction\<close>

definition is_capability_verb :: "string \<Rightarrow> bool" where
  "is_capability_verb verb \<longleftrightarrow>
     verb \<in> {''*'', ''perform'', ''publish'', ''read'', ''write'', ''append'', ''subscribe'', ''spawn'',
             ''spawn-with'', ''act-as'', ''delegate''}"

definition any_scheme :: "string \<Rightarrow> bool" where
  "any_scheme scheme \<longleftrightarrow> scheme = ''*'' \<or> scheme = ''**''"

definition validate_capability_scheme :: "string \<Rightarrow> string \<Rightarrow> (unit, cap_error) result" where
  "validate_capability_scheme verb scheme =
     bind_result
       (if any_scheme scheme then Ok ()
        else bind_result (map_err (\<lambda>_. Malformed) (path_try_new scheme)) (\<lambda>_. Ok ()))
       (\<lambda>_. if verb = ''*'' \<or> any_scheme scheme then Ok ()
            else if verb = ''spawn'' \<and> scheme \<noteq> ''process'' then Err Malformed
            else if verb = ''act-as'' \<and> scheme \<noteq> ''identity'' then Err Malformed
            else Ok ())"

definition validate_capability_segment :: "string \<Rightarrow> (unit, cap_error) result" where
  "validate_capability_segment s =
     bind_result (map_err (\<lambda>_. Malformed)
         (bind_result (path_try_new ''state'') (\<lambda>p. path_try_push p s)))
       (\<lambda>_. Ok ())"

definition cap_try_new ::
  "string \<Rightarrow> string \<Rightarrow> string list \<Rightarrow> cap_pred option \<Rightarrow> (capability, cap_error) result" where
  "cap_try_new verb scheme segs pred =
     (if verb = [] then Err Malformed
      else if \<not> is_capability_verb verb then Err Malformed
      else bind_result (validate_capability_scheme verb scheme) (\<lambda>_.
        bind_result (try_each validate_capability_segment segs) (\<lambda>_.
          Ok \<lparr>c_verb = verb, c_cluster = None, c_scheme = scheme, c_segments = segs,
              c_method = None, c_predicate = pred\<rparr>)))"

definition cap_try_with_method :: "capability \<Rightarrow> string \<Rightarrow> (capability, cap_error) result" where
  "cap_try_with_method c method =
     (if method = [] then Err Malformed else Ok (c\<lparr>c_method := Some method\<rparr>))"

definition cap_try_with_cluster :: "capability \<Rightarrow> string \<Rightarrow> (capability, cap_error) result" where
  "cap_try_with_cluster c cluster =
     bind_result
       (if cluster \<noteq> ''*'' then
          bind_result (map_err (\<lambda>_. Malformed)
              (bind_result (path_try_new ''state'') (\<lambda>p. path_try_with_cluster p cluster)))
            (\<lambda>_. Ok ())
        else Ok ())
       (\<lambda>_. Ok (c\<lparr>c_cluster := Some cluster\<rparr>))"

section \<open>Method names\<close>

definition method_unreserved :: "char \<Rightarrow> bool" where
  "method_unreserved c \<longleftrightarrow>
     ascii_alphanumeric c \<or> c \<in> {CHR ''-'', CHR ''_'', CHR ''.'', CHR ''~''}"

definition canonical_hex :: "char \<Rightarrow> nat option" where
  "canonical_hex c =
     (if 48 \<le> byte c \<and> byte c \<le> 57 then Some (byte c - 48)
      else if 65 \<le> byte c \<and> byte c \<le> 70 then Some (byte c - 65 + 10)
      else None)"

fun decode_bytes :: "string \<Rightarrow> (string, cap_error) result" where
  "decode_bytes [] = Ok []"
| "decode_bytes (c # cs) =
     (if c = CHR ''%'' then
        (case cs of
           h # l # rest \<Rightarrow>
             (case (canonical_hex h, canonical_hex l) of
                (Some high, Some low) \<Rightarrow>
                  let decoded = char_of (16 * high + low) in
                  if method_unreserved decoded then Err Malformed
                  else bind_result (decode_bytes rest) (\<lambda>ds. Ok (decoded # ds))
              | _ \<Rightarrow> Err Malformed)
         | _ \<Rightarrow> Err Malformed)
      else if method_unreserved c then bind_result (decode_bytes cs) (\<lambda>ds. Ok (c # ds))
      else Err Malformed)"

definition decode_method :: "string \<Rightarrow> (string, cap_error) result" where
  "decode_method encoded =
     (if encoded = [] then Err Malformed
      else bind_result (decode_bytes encoded) (\<lambda>bytes.
        if utf8_valid bytes then Ok bytes else Err Malformed))"

definition hex_digit :: "nat \<Rightarrow> char" where
  "hex_digit n = ''0123456789ABCDEF'' ! n"

definition encode_byte :: "char \<Rightarrow> string" where
  "encode_byte c =
     (if method_unreserved c then [c] else [CHR ''%'', hex_digit (byte c div 16), hex_digit (byte c mod 16)])"

section \<open>Literals\<close>

definition cap_display :: "capability \<Rightarrow> string" where
  "cap_display c =
     c_verb c @ ''://'' @
     (case c_cluster c of Some cluster \<Rightarrow> ''path://'' @ cluster @ ''/'' | None \<Rightarrow> []) @
     c_scheme c @ concat (map ((#) (CHR ''/'')) (c_segments c)) @
     (case c_method c of Some m \<Rightarrow> ''#'' @ concat (map encode_byte m) | None \<Rightarrow> []) @
     (case c_predicate c of Some p \<Rightarrow> ''@'' @ predicate_display p | None \<Rightarrow> [])"

definition cap_head :: "string \<Rightarrow> (string option \<times> string, cap_error) result" where
  "cap_head head =
     (case strip_prefix ''path://'' head of
        Some clustered \<Rightarrow>
          bind_result (ok_or Malformed (split_once ''/'' clustered))
            (\<lambda>(cluster, rest). Ok (Some cluster, rest))
      | None \<Rightarrow> Ok (None, head))"

definition cap_body :: "string \<Rightarrow> (string \<times> string list, cap_error) result" where
  "cap_body head =
     (let (scheme, body) =
            (if head = ''*'' \<or> head = ''**'' then (head, Some ''**'')
             else case split_once ''/'' head of
                    Some (s, b) \<Rightarrow> (s, Some b)
                  | None \<Rightarrow> (head, None))
      in case body of
           Some b \<Rightarrow> if b = [] then Err Malformed else Ok (scheme, str_split (CHR ''/'') b)
         | None \<Rightarrow> Ok (scheme, []))"

definition cap_parse :: "string \<Rightarrow> (capability, cap_error) result" where
  "cap_parse s =
     bind_result (ok_or Malformed (split_once ''://'' s)) (\<lambda>(verb, rest).
     bind_result
       (case split_once ''@'' rest of
          Some (head, raw) \<Rightarrow> bind_result (predicate_parse raw) (\<lambda>p. Ok (head, Some p))
        | None \<Rightarrow> Ok (rest, None)) (\<lambda>(head, pred).
     if (case split_once ''@'' rest of Some (_, raw) \<Rightarrow> CHR ''#'' \<in> set raw | None \<Rightarrow> False)
     then Err Malformed
     else bind_result
       (case split_once ''#'' head of
          Some (head, m) \<Rightarrow> bind_result (decode_method m) (\<lambda>m. Ok (head, Some m))
        | None \<Rightarrow> Ok (head, None)) (\<lambda>(head, method).
     if verb = [] then Err Malformed
     else if \<not> is_capability_verb verb then Err Malformed
     else bind_result (cap_head head) (\<lambda>(cluster, head).
     bind_result (cap_body head) (\<lambda>(scheme, segs).
     bind_result (cap_try_new verb scheme segs pred) (\<lambda>c.
     bind_result (case method of Some m \<Rightarrow> cap_try_with_method c m | None \<Rightarrow> Ok c) (\<lambda>c.
       case cluster of Some cl \<Rightarrow> cap_try_with_cluster c cl | None \<Rightarrow> Ok c)))))))"

section \<open>Coverage\<close>

definition is_global_root :: "capability \<Rightarrow> bool" where
  "is_global_root c \<longleftrightarrow>
     c_cluster c = None \<and> c_verb c = ''*'' \<and> c_scheme c = ''**'' \<and> c_segments c = [''**'']"

definition cluster_covers :: "string option \<Rightarrow> string option \<Rightarrow> bool" where
  "cluster_covers parent child =
     (case (parent, child) of
        (None, None) \<Rightarrow> True
      | (Some a, Some b) \<Rightarrow> a = ''*'' \<or> a = b
      | _ \<Rightarrow> False)"

definition cluster_covers_path :: "capability \<Rightarrow> path \<Rightarrow> bool" where
  "cluster_covers_path c target \<longleftrightarrow>
     is_global_root c \<or> cluster_covers (c_cluster c) (p_cluster target)"

definition cluster_covers_cap :: "capability \<Rightarrow> capability \<Rightarrow> bool" where
  "cluster_covers_cap c other \<longleftrightarrow>
     is_global_root c \<or> cluster_covers (c_cluster c) (c_cluster other)"

definition covers_path :: "capability \<Rightarrow> string \<Rightarrow> path \<Rightarrow> bool" where
  "covers_path c verb target \<longleftrightarrow>
     cluster_covers_path c target \<and> (c_verb c = ''*'' \<or> c_verb c = verb) \<and>
     (any_scheme (c_scheme c) \<or> c_scheme c = p_scheme target) \<and>
     match_segments (c_segments c) (p_segments target)"

definition matches_structure :: "capability \<Rightarrow> string \<Rightarrow> path \<Rightarrow> bool" where
  "matches_structure c verb target \<longleftrightarrow> c_method c = None \<and> covers_path c verb target"

definition matches_path_structure :: "capability \<Rightarrow> string \<Rightarrow> path \<Rightarrow> bool" where
  "matches_path_structure c verb target \<longleftrightarrow> covers_path c verb target"

definition method_selected :: "capability \<Rightarrow> string \<Rightarrow> bool" where
  "method_selected c method = (case c_method c of None \<Rightarrow> True | Some m \<Rightarrow> m = method)"

definition matches_method :: "capability \<Rightarrow> string \<Rightarrow> path \<Rightarrow> string \<Rightarrow> bool" where
  "matches_method c verb target method \<longleftrightarrow> covers_path c verb target \<and> method_selected c method"

definition covers :: "capability \<Rightarrow> string \<Rightarrow> path \<Rightarrow> bool" where
  "covers c verb target \<longleftrightarrow> c_method c = None \<and> c_predicate c = None \<and> covers_path c verb target"

definition covers_method :: "capability \<Rightarrow> string \<Rightarrow> path \<Rightarrow> string \<Rightarrow> bool" where
  "covers_method c verb target method \<longleftrightarrow> c_predicate c = None \<and> matches_method c verb target method"

definition covers_with :: "capability \<Rightarrow> string \<Rightarrow> path \<Rightarrow> xvalue \<Rightarrow> int \<Rightarrow> bool" where
  "covers_with c verb target input now =
     (if c_method c \<noteq> None \<or> \<not> covers_path c verb target then False
      else case c_predicate c of None \<Rightarrow> True | Some p \<Rightarrow> predicate_eval p input now)"

definition matches_preflight_path :: "capability \<Rightarrow> string \<Rightarrow> path \<Rightarrow> int \<Rightarrow> bool" where
  "matches_preflight_path c verb target now \<longleftrightarrow>
     covers_path c verb target \<and>
     \<not> (case c_predicate c of
          Some p \<Rightarrow> pr_key p = ''until'' \<and> \<not> predicate_eval p V_Null now
        | None \<Rightarrow> False)"

definition matches_preflight :: "capability \<Rightarrow> string \<Rightarrow> path \<Rightarrow> int \<Rightarrow> bool" where
  "matches_preflight c verb target now \<longleftrightarrow>
     c_method c = None \<and> matches_preflight_path c verb target now"

definition matches_method_preflight :: "capability \<Rightarrow> string \<Rightarrow> path \<Rightarrow> string \<Rightarrow> int \<Rightarrow> bool" where
  "matches_method_preflight c verb target method now \<longleftrightarrow>
     method_selected c method \<and> matches_preflight_path c verb target now"

definition covers_cap_path_pattern :: "capability \<Rightarrow> capability \<Rightarrow> bool" where
  "covers_cap_path_pattern c other \<longleftrightarrow>
     cluster_covers_cap c other \<and> (c_verb c = ''*'' \<or> c_verb c = c_verb other) \<and>
     (any_scheme (c_scheme c) \<or> c_scheme c = c_scheme other) \<and>
     pattern_subsumes_segments (c_segments c) (c_segments other)"

definition covers_cap_pattern :: "capability \<Rightarrow> capability \<Rightarrow> bool" where
  "covers_cap_pattern c other \<longleftrightarrow>
     covers_cap_path_pattern c other \<and> (c_method c = None \<or> c_method c = c_method other)"

definition covers_cap :: "capability \<Rightarrow> capability \<Rightarrow> bool" where
  "covers_cap c other \<longleftrightarrow>
     covers_cap_pattern c other \<and> (c_predicate c = None \<or> c_predicate c = c_predicate other)"

section \<open>Sets\<close>

type_synonym cap_set = "capability list"

fun from_strs :: "string list \<Rightarrow> (cap_set, cap_error) result" where
  "from_strs [] = Ok []"
| "from_strs (s # ss) = bind_result (cap_parse s) (\<lambda>c. bind_result (from_strs ss) (\<lambda>cs. Ok (c # cs)))"

definition set_push :: "cap_set \<Rightarrow> capability \<Rightarrow> cap_set" where
  "set_push cs c = cs @ [c]"

definition set_contains :: "cap_set \<Rightarrow> string \<Rightarrow> path \<Rightarrow> bool" where
  "set_contains cs verb target \<longleftrightarrow> list_ex (\<lambda>c. covers c verb target) cs"

definition set_contains_method :: "cap_set \<Rightarrow> string \<Rightarrow> path \<Rightarrow> string \<Rightarrow> bool" where
  "set_contains_method cs verb target method \<longleftrightarrow> list_ex (\<lambda>c. covers_method c verb target method) cs"

definition set_matches_preflight :: "cap_set \<Rightarrow> string \<Rightarrow> path \<Rightarrow> int \<Rightarrow> bool" where
  "set_matches_preflight cs verb target now \<longleftrightarrow> list_ex (\<lambda>c. matches_preflight c verb target now) cs"

definition set_matches_method_preflight :: "cap_set \<Rightarrow> string \<Rightarrow> path \<Rightarrow> string \<Rightarrow> int \<Rightarrow> bool" where
  "set_matches_method_preflight cs verb target method now \<longleftrightarrow>
     list_ex (\<lambda>c. matches_method_preflight c verb target method now) cs"

definition set_contains_with :: "cap_set \<Rightarrow> string \<Rightarrow> path \<Rightarrow> xvalue \<Rightarrow> int \<Rightarrow> bool" where
  "set_contains_with cs verb target input now \<longleftrightarrow> list_ex (\<lambda>c. covers_with c verb target input now) cs"

definition set_contains_all :: "cap_set \<Rightarrow> (string \<times> path) list \<Rightarrow> bool" where
  "set_contains_all cs required \<longleftrightarrow> list_all (\<lambda>(v, p). set_contains cs v p) required"

definition cap_intersect :: "cap_set \<Rightarrow> cap_set \<Rightarrow> cap_set" where
  "cap_intersect cs requested = filter (\<lambda>r. list_ex (\<lambda>p. covers_cap p r) cs) requested"

end
