(* ===== verification/Capability_Literals.thy ===== *)
theory Capability_Literals
  imports Capability
begin

text \<open>
  The literal form of capabilities: what the parser accepts, and that printing a parsed capability and
  parsing it again gives the same capability.
\<close>

section \<open>Trimming\<close>

definition trimmed :: "string \<Rightarrow> bool" where
  "trimmed s \<longleftrightarrow> (\<forall>w \<in> set white_spaces. \<not> starts_with w s \<and> \<not> ends_with w s)"

lemma trim_start_fix: "(\<And>w. w \<in> set white_spaces \<Longrightarrow> \<not> starts_with w s) \<Longrightarrow> trim_start s = s"
  by (subst trim_start.simps) (auto split: option.splits simp: find_Some_iff)

lemma trim_end_fix: "(\<And>w. w \<in> set white_spaces \<Longrightarrow> \<not> ends_with w s) \<Longrightarrow> trim_end s = s"
  by (subst trim_end.simps) (auto split: option.splits simp: find_Some_iff)

lemma trim_start_suffix: "\<exists>r. s = r @ trim_start s"
proof (induction s rule: trim_start.induct)
  case (1 s)
  show ?case
  proof (cases "find (\<lambda>w. starts_with w s) white_spaces")
    case (Some w)
    then have "s = w @ drop (length w) s" by (auto simp: find_Some_iff starts_with_iff)
    then show ?thesis using 1 [OF Some] Some by (subst trim_start.simps) (metis append_assoc option.case(2))
  qed (subst trim_start.simps, simp)
qed

lemma trim_end_prefix: "\<exists>r. s = trim_end s @ r"
proof (induction s rule: trim_end.induct)
  case (1 s)
  show ?case
  proof (cases "find (\<lambda>w. ends_with w s) white_spaces")
    case (Some w)
    then have "s = take (length s - length w) s @ w" by (auto simp: find_Some_iff ends_with_iff)
    then show ?thesis using 1 [OF Some] Some by (subst trim_end.simps) (metis append_assoc option.case(2))
  qed (subst trim_end.simps, simp)
qed

lemma trim_start_done: "w \<in> set white_spaces \<Longrightarrow> \<not> starts_with w (trim_start s)"
proof (induction s rule: trim_start.induct)
  case (1 s)
  then show ?case
    by (subst trim_start.simps) (auto split: option.splits simp: find_None_iff)
qed

lemma trim_end_done: "w \<in> set white_spaces \<Longrightarrow> \<not> ends_with w (trim_end s)"
proof (induction s rule: trim_end.induct)
  case (1 s)
  then show ?case
    by (subst trim_end.simps) (auto split: option.splits simp: find_None_iff)
qed

lemma trimmed_trim: "trimmed (trim s)"
proof -
  obtain r where r: "trim_start s = trim s @ r" using trim_end_prefix by (auto simp: trim_def)
  have "\<not> starts_with w (trim s)" if "w \<in> set white_spaces" for w
  proof
    assume "starts_with w (trim s)"
    then have "starts_with w (trim_start s)" unfolding r by (auto simp: starts_with_iff)
    then show False using trim_start_done [OF that] by simp
  qed
  then show ?thesis using trim_end_done by (auto simp: trimmed_def trim_def)
qed

lemma trim_trimmed: "trimmed s \<Longrightarrow> trim s = s"
  by (simp add: trimmed_def trim_def trim_start_fix trim_end_fix)

lemma set_trim: "set (trim s) \<subseteq> set s"
proof -
  obtain r where "s = r @ trim_start s" using trim_start_suffix by blast
  moreover obtain r' where "trim_start s = trim s @ r'" using trim_end_prefix by (auto simp: trim_def)
  ultimately have "s = r @ trim s @ r'" by simp
  then show ?thesis by (metis Un_upper1 Un_upper2 order_trans set_append)
qed

section \<open>Predicates\<close>

lemma white_no_operator:
  assumes "w \<in> set white_spaces" "c \<in> set w"
  shows "\<not> op_char c"
proof -
  have "byte c \<le> 32 \<or> 128 \<le> byte c" using assms by (auto simp: white_spaces_def)
  moreover have "32 < byte c \<and> byte c < 128" if "op_char c" using that by (auto simp: op_char_def)
  ultimately show ?thesis by auto
qed

lemma append_eq_shorter: "a @ b = c @ d \<Longrightarrow> length c \<le> length a \<Longrightarrow> \<exists>r. a = c @ r"
  by (metis append_eq_append_conv_if append_take_drop_id)

lemma trimmed_around:
  assumes "trimmed key" "trimmed v" "key \<noteq> []" "v \<noteq> []" "op_char c" "op_char d"
    and m: "m = [] \<and> c = d \<or> m = [d]"
  shows "trimmed (key @ c # m @ v)"
proof -
  have "\<not> starts_with w (key @ c # m @ v) \<and> \<not> ends_with w (key @ c # m @ v)" if w: "w \<in> set white_spaces" for w
  proof (intro conjI notI)
    assume "starts_with w (key @ c # m @ v)"
    then obtain r where r: "key @ c # m @ v = w @ r" by (auto simp: starts_with_iff)
    show False
    proof (cases "length w \<le> length key")
      case True
      then show False using append_eq_shorter [OF r] assms(1) w by (auto simp: trimmed_def starts_with_iff)
    next
      case False
      then have "(key @ c # m @ v) ! length key = w ! length key" unfolding r by (simp add: nth_append)
      then have "c \<in> set w" using False by (simp add: nth_append)
      then show False using white_no_operator [OF w] assms(5) by blast
    qed
  next
    assume "ends_with w (key @ c # m @ v)"
    then obtain r where "rev v @ rev (key @ c # m) = rev w @ r"
      by (auto simp: ends_with_def starts_with_iff)
    note r = this
    show False
    proof (cases "length w \<le> length v")
      case True
      then obtain r' where "rev v = rev w @ r'" using append_eq_shorter [OF r] by auto
      then show False using assms(2) w by (auto simp: trimmed_def ends_with_def starts_with_iff)
    next
      case False
      have last: "rev (key @ c # m) = d # tl (rev (key @ c # m))" using m by auto
      have "(rev v @ rev (key @ c # m)) ! length v = d" by (subst last) (simp add: nth_append)
      moreover have "(rev w @ r) ! length v \<in> set w"
        using False by (metis length_rev not_le nth_append nth_mem set_rev)
      ultimately have "d \<in> set w" using r by simp
      then show False using white_no_operator [OF w] assms(6) by blast
    qed
  qed
  then show ?thesis by (simp add: trimmed_def)
qed

lemma number_not_equals: "parse_predicate_number (CHR ''='' # r) = Err Malformed"
  by (simp add: parse_predicate_number_def predicate_number_text_def strip_prefix_def parse_f64_def
    parse_magnitude_def ascii_lower_def parse_decimal_def digit_run_def ascii_digit_def)

text \<open>What the parser leaves in a predicate.\<close>

definition predicate_wf :: "cap_pred \<Rightarrow> bool" where
  "predicate_wf p \<longleftrightarrow>
     trimmed (pr_key p) \<and> pr_key p \<noteq> [] \<and> (\<forall>c \<in> set (pr_key p). \<not> op_char c) \<and>
     trimmed (pr_value p) \<and> pr_value p \<noteq> [] \<and> check_operand (pr_key p) (pr_op p) (pr_value p) = Ok ()"

lemma predicate_parse_wf:
  assumes "predicate_parse raw = Ok p"
  shows "predicate_wf p" "set (pr_key p) \<union> set (pr_value p) \<subseteq> set raw"
proof -
  let ?raw = "trim raw"
  let ?before = "takeWhile (\<lambda>c. \<not> op_char c) ?raw" and ?tail = "dropWhile (\<lambda>c. \<not> op_char c) ?raw"
  from assms obtain width op where p: "p = \<lparr>pr_key = trim ?before, pr_op = op, pr_value = trim (drop width ?tail)\<rparr>"
    "trim ?before \<noteq> []" "trim (drop width ?tail) \<noteq> []"
    "check_operand (trim ?before) op (trim (drop width ?tail)) = Ok ()"
    by (auto simp: predicate_parse_def Let_def split: if_splits)
  have before: "\<not> op_char c" if "c \<in> set (trim ?before)" for c
    using that set_trim [of ?before] set_takeWhileD by fastforce
  show "predicate_wf p" using p before by (simp add: predicate_wf_def trimmed_trim)
  have "set (trim ?before) \<subseteq> set raw"
    using set_trim [of ?before] set_trim [of raw] set_takeWhileD by fastforce
  moreover have "set (trim (drop width ?tail)) \<subseteq> set raw"
    using set_trim [of "drop width ?tail"] set_trim [of raw] set_drop_subset [of width ?tail]
      set_dropWhileD by fastforce
  ultimately show "set (pr_key p) \<union> set (pr_value p) \<subseteq> set raw" by (simp add: p(1))
qed

lemma operator_reparses:
  assumes "predicate_wf p"
  shows "parse_operator (op_text (pr_op p) @ pr_value p) = Ok (length (op_text (pr_op p)), pr_op p)"
proof (cases "pr_op p \<in> {Op_Lt, Op_Gt}")
  case True
  then have "parse_predicate_number (pr_value p) \<noteq> Err Malformed"
    using assms by (auto simp: predicate_wf_def check_operand_def split: if_splits)
  then have "\<not> starts_with ''='' (pr_value p)"
    using number_not_equals by (auto simp: starts_with_iff)
  then show ?thesis
    using True by (cases "pr_value p") (auto simp: parse_operator_def op_text_def starts_with_def)
qed (cases "pr_op p"; simp add: parse_operator_def op_text_def starts_with_def)

lemma predicate_reparses:
  assumes "predicate_wf p"
  shows "predicate_parse (predicate_display p) = Ok p"
proof -
  let ?op = "op_text (pr_op p)"
  have "trimmed (pr_key p)" "trimmed (pr_value p)" "pr_key p \<noteq> []" "pr_value p \<noteq> []"
    using assms by (simp_all add: predicate_wf_def)
  note around = trimmed_around [OF this]
  have around: "trimmed (predicate_display p)"
    using around [of "CHR ''=''" "CHR ''=''" "[]"] around [of "CHR ''<''" "CHR ''<''" "[]"]
      around [of "CHR ''>''" "CHR ''>''" "[]"] around [of "CHR ''!''" "CHR ''=''" "''=''"]
      around [of "CHR ''<''" "CHR ''=''" "''=''"] around [of "CHR ''>''" "CHR ''=''" "''=''"]
    by (cases "pr_op p") (simp_all add: predicate_display_def op_text_def op_char_def)
  obtain c m where op: "?op = c # m" "op_char c"
    by (cases "pr_op p") (simp_all add: op_text_def op_char_def)
  have "takeWhile (\<lambda>c. \<not> op_char c) (predicate_display p) = pr_key p"
    "dropWhile (\<lambda>c. \<not> op_char c) (predicate_display p) = ?op @ pr_value p"
    using assms op by (auto simp: predicate_display_def predicate_wf_def takeWhile_append dropWhile_append)
  moreover have "\<exists>c \<in> set (predicate_display p). op_char c"
    using op by (auto simp: predicate_display_def)
  ultimately show ?thesis
    using trim_trimmed [OF around] operator_reparses [OF assms] assms op(1)
    by (simp add: predicate_parse_def Let_def predicate_wf_def trim_trimmed)
qed

section \<open>Method names\<close>

lemma canonical_hex_digit: "n < 16 \<Longrightarrow> canonical_hex (hex_digit n) = Some n"
proof -
  have "list_all (\<lambda>n. canonical_hex (hex_digit n) = Some n) [0..<16]" by code_simp
  then show "n < 16 \<Longrightarrow> canonical_hex (hex_digit n) = Some n" by (simp only: list_all_iff set_upt) simp
qed

lemma byte_high: "byte c div 16 < 16"
  using nat_of_char_less_256 [of c] by (intro less_mult_imp_div_less) simp

lemma percent_reserved: "\<not> method_unreserved (CHR ''%'')"
  by (simp add: method_unreserved_def ascii_alphanumeric_def ascii_alphabetic_def ascii_digit_def)

lemma decode_encode_byte:
  "decode_bytes (encode_byte c @ rest) = bind_result (decode_bytes rest) (\<lambda>ds. Ok (c # ds))"
proof (cases "method_unreserved c")
  case True
  then show ?thesis using percent_reserved by (auto simp: encode_byte_def)
next
  case False
  have "byte c div 16 < 16" by (rule byte_high)
  moreover have "char_of (16 * (byte c div 16) + byte c mod 16) = c" by simp
  ultimately show ?thesis
    using False by (simp add: encode_byte_def canonical_hex_digit Let_def)
qed

lemma decode_encode: "decode_bytes (concat (map encode_byte m)) = Ok m"
  by (induction m) (simp_all add: decode_encode_byte)

definition method_char :: "char \<Rightarrow> bool" where
  "method_char c \<longleftrightarrow> method_unreserved c \<or> c = CHR ''%''"

lemma hex_digit_method: "n < 16 \<Longrightarrow> method_char (hex_digit n)"
proof -
  have "list_all (\<lambda>n. method_char (hex_digit n)) [0..<16]" by code_simp
  then show "n < 16 \<Longrightarrow> method_char (hex_digit n)" by (simp only: list_all_iff set_upt) simp
qed

lemma encoded_chars: "c \<in> set (concat (map encode_byte m)) \<Longrightarrow> method_char c"
proof -
  show "c \<in> set (concat (map encode_byte m)) \<Longrightarrow> method_char c"
    using hex_digit_method [OF byte_high] hex_digit_method [of "byte _ mod 16"]
    by (auto simp: encode_byte_def split: if_splits) (auto simp: method_char_def)
qed

section \<open>Well-formed capabilities\<close>

lemma state_path: "path_try_new ''state'' = Ok (Path None ''state'' [])"
  by (simp add: try_new_Ok path_wf_def ident_char_def ascii_alphanumeric_def ascii_alphabetic_def)

lemma capability_segment_Ok: "validate_capability_segment s = Ok () \<longleftrightarrow> ident_text Ident_Segment s"
  by (simp add: validate_capability_segment_def state_path try_push_Ok)

lemma capability_scheme_Ok:
  assumes "validate_capability_scheme verb scheme = Ok ()"
  shows "any_scheme scheme \<or> (ident_text Ident_Scheme scheme \<and> scheme \<noteq> ''path'')"
  using assms by (auto simp: validate_capability_scheme_def try_new_Ok path_wf_def split: if_splits)

lemma try_with_cluster_Ok_cap:
  "cap_try_with_cluster c cl = Ok d \<longleftrightarrow>
     d = c\<lparr>c_cluster := Some cl\<rparr> \<and> (cl = ''*'' \<or> ident_text Ident_Cluster cl)"
  by (auto simp: cap_try_with_cluster_def state_path try_with_cluster_Ok)

definition cap_wf :: "capability \<Rightarrow> bool" where
  "cap_wf c \<longleftrightarrow>
     is_capability_verb (c_verb c) \<and> validate_capability_scheme (c_verb c) (c_scheme c) = Ok () \<and>
     list_all (ident_text Ident_Segment) (c_segments c) \<and> (any_scheme (c_scheme c) \<longrightarrow> c_segments c \<noteq> []) \<and>
     (case c_cluster c of Some cl \<Rightarrow> cl = ''*'' \<or> ident_text Ident_Cluster cl | None \<Rightarrow> True) \<and>
     (case c_method c of Some m \<Rightarrow> m \<noteq> [] \<and> utf8_valid m | None \<Rightarrow> True) \<and>
     (case c_predicate c of
        Some p \<Rightarrow> predicate_wf p \<and> CHR ''#'' \<notin> set (pr_key p) \<union> set (pr_value p)
      | None \<Rightarrow> True)"

lemma try_new_Ok_cap:
  "cap_try_new verb scheme segs pred = Ok c \<longleftrightarrow>
     c = \<lparr>c_verb = verb, c_cluster = None, c_scheme = scheme, c_segments = segs, c_method = None,
          c_predicate = pred\<rparr> \<and>
     is_capability_verb verb \<and> validate_capability_scheme verb scheme = Ok () \<and>
     list_all (ident_text Ident_Segment) segs"
  by (auto simp: cap_try_new_def capability_segment_Ok list_all_iff is_capability_verb_def)

lemma decode_bytes_utf8: "decode_method m = Ok d \<Longrightarrow> d \<noteq> [] \<and> utf8_valid d"
  by (cases m) (auto simp: decode_method_def Let_def split: if_splits list.splits option.splits)

lemma cap_body_any: "cap_body head = Ok (scheme, segs) \<Longrightarrow> any_scheme scheme \<Longrightarrow> segs \<noteq> []"
  by (auto simp: cap_body_def any_scheme_def split: if_splits option.splits prod.splits)

lemma cap_parse_wf:
  assumes "cap_parse s = Ok c"
  shows "cap_wf c"
proof -
  from assms obtain verb rest head pred head2 meth cluster head3 scheme segs c0 c1
    where split: "split_once ''://'' s = Some (verb, rest)"
    and pred: "(case split_once ''@'' rest of
        Some (head, raw) \<Rightarrow> bind_result (predicate_parse raw) (\<lambda>p. Ok (head, Some p))
      | None \<Rightarrow> Ok (rest, None)) = Ok (head, pred)"
    and hash: "\<not> (case split_once ''@'' rest of Some (_, raw) \<Rightarrow> CHR ''#'' \<in> set raw | None \<Rightarrow> False)"
    and meth: "(case split_once ''#'' head of
        Some (head, m) \<Rightarrow> bind_result (decode_method m) (\<lambda>m. Ok (head, Some m))
      | None \<Rightarrow> Ok (head, None)) = Ok (head2, meth)"
    and body: "cap_body head3 = Ok (scheme, segs)"
    and new: "cap_try_new verb scheme segs pred = Ok c0"
    and c1: "(case meth of Some m \<Rightarrow> cap_try_with_method c0 m | None \<Rightarrow> Ok c0) = Ok c1"
    and c: "(case cluster of Some cl \<Rightarrow> cap_try_with_cluster c1 cl | None \<Rightarrow> Ok c1) = Ok c"
    by (auto simp: cap_parse_def split: if_splits prod.splits)
  have p: "case pred of Some p \<Rightarrow> predicate_wf p \<and> CHR ''#'' \<notin> set (pr_key p) \<union> set (pr_value p) | None \<Rightarrow> True"
    using pred hash predicate_parse_wf by (fastforce split: option.splits prod.splits)
  have m: "case meth of Some m \<Rightarrow> m \<noteq> [] \<and> utf8_valid m | None \<Rightarrow> True"
    using meth decode_bytes_utf8 by (fastforce split: option.splits prod.splits)
  have "c1 = c0\<lparr>c_method := meth\<rparr>"
    using c1 new by (auto simp: cap_try_with_method_def try_new_Ok_cap split: option.splits if_splits)
  then show ?thesis
    using new c p m cap_body_any [OF body]
    by (auto simp: cap_wf_def try_new_Ok_cap try_with_cluster_Ok_cap split: option.splits)
qed

section \<open>Printing and parsing again\<close>

definition cap_core :: "capability \<Rightarrow> string" where
  "cap_core c =
     (case c_cluster c of Some cl \<Rightarrow> ''path://'' @ cl @ ''/'' | None \<Rightarrow> []) @
     c_scheme c @ segments_text (c_segments c)"

lemma piece_chars:
  "ident_text k s \<or> s = ''*'' \<or> s = ''**'' \<Longrightarrow> x \<in> set s \<Longrightarrow> segment_char x \<or> x = CHR ''*''"
  using ident_text_chars(2) [of k s x] by auto

lemma cap_pieces:
  assumes "cap_wf c"
  shows "ident_text Ident_Scheme (c_scheme c) \<or> c_scheme c = ''*'' \<or> c_scheme c = ''**''"
    and "c_cluster c = Some cl \<Longrightarrow> ident_text Ident_Cluster cl \<or> cl = ''*'' \<or> cl = ''**''"
    and "seg \<in> set (c_segments c) \<Longrightarrow> ident_text Ident_Segment seg"
  using assms capability_scheme_Ok [of "c_verb c" "c_scheme c"]
  by (auto simp: cap_wf_def any_scheme_def list_all_iff)

lemma cap_core_chars:
  assumes "cap_wf c" "x \<in> set (cap_core c)"
  shows "segment_char x \<or> x = CHR ''*'' \<or> x = CHR ''/''"
proof -
  have "x \<in> set ''path://'' \<union> set (c_scheme c) \<union> (case c_cluster c of Some cl \<Rightarrow> set cl | None \<Rightarrow> {}) \<union>
      \<Union> (set ` set (c_segments c))"
    using assms(2) by (auto simp: cap_core_def segments_text_def split: option.splits if_splits)
  moreover have "segment_char x \<or> x = CHR ''*''" if "x \<in> set (c_scheme c)"
    using piece_chars [OF cap_pieces(1) [OF assms(1)] that] .
  moreover have "segment_char x \<or> x = CHR ''*''" if "c_cluster c = Some cl" "x \<in> set cl" for cl
    using piece_chars [OF cap_pieces(2) [OF assms(1) that(1)] that(2)] .
  moreover have "segment_char x \<or> x = CHR ''*''" if "seg \<in> set (c_segments c)" "x \<in> set seg" for seg
    using ident_text_chars(2) [OF cap_pieces(3) [OF assms(1) that(1)] that(2)] .
  moreover have "segment_char x \<or> x = CHR ''/''" if "x \<in> set ''path://''"
  proof -
    have "list_all (\<lambda>x. segment_char x \<or> x = CHR ''/'') ''path://''" by code_simp
    then show ?thesis using that unfolding list_all_iff by blast
  qed
  ultimately show ?thesis by (auto split: option.splits)
qed

lemma cap_core_free:
  assumes "cap_wf c"
  shows "CHR ''@'' \<notin> set (cap_core c)" "CHR ''#'' \<notin> set (cap_core c)"
  using cap_core_chars [OF assms]
  by (fastforce simp: segment_char_def ascii_alphanumeric_def ascii_alphabetic_def ascii_digit_def)+

lemma verb_colon: "is_capability_verb v \<Longrightarrow> CHR '':'' \<notin> set v"
  by (auto simp: is_capability_verb_def)

lemma slash_free:
  assumes "cap_wf c"
  shows "CHR ''/'' \<notin> set (c_scheme c)" "c_cluster c = Some cl \<Longrightarrow> CHR ''/'' \<notin> set cl"
    "seg \<in> set (c_segments c) \<Longrightarrow> CHR ''/'' \<notin> set seg \<and> seg \<noteq> []"
  using cap_pieces [OF assms] ident_text_free(1,4) by fastforce+

lemma cap_body_text:
  assumes "cap_wf c"
  shows "cap_body (c_scheme c @ segments_text (c_segments c)) = Ok (c_scheme c, c_segments c)"
proof (cases "c_segments c")
  case Nil
  then have "\<not> any_scheme (c_scheme c)" using assms by (auto simp: cap_wf_def)
  then show ?thesis
    using Nil slash_free(1) [OF assms]
    by (simp add: cap_body_def any_scheme_def segments_text_def split_once_None [THEN iffD2])
next
  case (Cons s ss)
  let ?join = "str_join (CHR ''/'') (c_segments c)"
  have head: "c_scheme c @ segments_text (c_segments c) = c_scheme c @ ''/'' @ ?join"
    using Cons by (simp flip: str_join_text)
  have pieces: "CHR ''/'' \<notin> set p" if "p \<in> set (c_segments c)" for p
    using slash_free(3) [OF assms that] by simp
  have "split_once ''/'' (c_scheme c @ ''/'' @ ?join) = Some (c_scheme c, ?join)"
    using slash_free(1) [OF assms] by (intro split_once_first) auto
  moreover have "?join \<noteq> []" using Cons slash_free(3) [OF assms, of s] by (simp add: str_join_concat)
  moreover have "str_split (CHR ''/'') ?join = c_segments c"
    using Cons pieces by (intro str_split_join) auto
  moreover have "c_scheme c @ ''/'' @ ?join \<noteq> ''*''" "c_scheme c @ ''/'' @ ?join \<noteq> ''**''"
    by (cases "c_scheme c"; auto simp: append_eq_Cons_conv)+
  ultimately show ?thesis unfolding head by (simp add: cap_body_def)
qed

lemma not_path_prefix:
  assumes "ident_text Ident_Scheme scheme \<or> scheme = ''*'' \<or> scheme = ''**''" "scheme \<noteq> ''path''"
  shows "\<not> starts_with ''path://'' (scheme @ segments_text segs)"
proof
  assume "starts_with ''path://'' (scheme @ segments_text segs)"
  then obtain r where r: "scheme @ segments_text segs = ''path'' @ '':'' @ ''//'' @ r"
    by (auto simp: starts_with_iff)
  have "ident_text Ident_Scheme scheme" using assms(1) r by auto
  then have free: "CHR '':'' \<notin> set scheme" "CHR ''/'' \<notin> set scheme" using ident_text_free by auto
  let ?P = "\<lambda>x. x \<noteq> CHR ''/'' \<and> x \<noteq> CHR '':''"
  have "takeWhile ?P (segments_text segs) = []" by (cases segs) (simp_all add: segments_text_def)
  moreover have "\<forall>x \<in> set scheme. ?P x" using free by auto
  ultimately have "takeWhile ?P (scheme @ segments_text segs) = scheme"
    by (subst takeWhile_append2) auto
  moreover have "takeWhile ?P (scheme @ segments_text segs) = ''path''" unfolding r by simp
  ultimately show False using assms(2) by simp
qed

lemma cap_head_text:
  assumes "cap_wf c"
  shows "cap_head (cap_core c) = Ok (c_cluster c, c_scheme c @ segments_text (c_segments c))"
proof (cases "c_cluster c")
  case None
  have "c_scheme c \<noteq> ''path''"
    using assms capability_scheme_Ok [of "c_verb c" "c_scheme c"] by (auto simp: cap_wf_def any_scheme_def)
  then show ?thesis
    using not_path_prefix [OF cap_pieces(1) [OF assms]] None
    by (simp add: cap_head_def cap_core_def strip_prefix_None_iff [THEN iffD2])
next
  case (Some cl)
  let ?rest = "c_scheme c @ segments_text (c_segments c)"
  have "strip_prefix ''path://'' (cap_core c) = Some (cl @ ''/'' @ ?rest)"
    using strip_prefix_append [of "''path://''" "cl @ ''/'' @ ?rest"] Some by (simp add: cap_core_def)
  moreover have "split_once ''/'' (cl @ ''/'' @ ?rest) = Some (cl, ?rest)"
    using slash_free(2) [OF assms Some] by (intro split_once_first) auto
  ultimately show ?thesis using Some by (simp add: cap_head_def)
qed

lemma cap_display_parses:
  assumes wf: "cap_wf c"
  shows "cap_parse (cap_display c) = Ok c"
proof -
  define enc where "enc = (case c_method c of Some m \<Rightarrow> ''#'' @ concat (map encode_byte m) | None \<Rightarrow> [])"
  define rest where "rest = (cap_core c @ enc) @
    (case c_predicate c of Some p \<Rightarrow> ''@'' @ predicate_display p | None \<Rightarrow> [])"
  have verb: "is_capability_verb (c_verb c)" "c_verb c \<noteq> []"
    using wf by (auto simp: cap_wf_def is_capability_verb_def)
  have "cap_display c = c_verb c @ ''://'' @ rest"
    by (simp add: cap_display_def rest_def enc_def cap_core_def segments_text_def)
  then have split: "split_once ''://'' (cap_display c) = Some (c_verb c, rest)"
    using verb_colon [OF verb(1)] by (metis list.sel(1) list.distinct(1) split_once_first)
  have enc_free: "CHR ''@'' \<notin> set enc"
    using encoded_chars [of "CHR ''@''"]
    by (auto simp: enc_def method_char_def method_unreserved_def ascii_alphanumeric_def
      ascii_alphabetic_def ascii_digit_def simp del: set_concat split: option.splits)
  have at: "split_once ''@'' rest =
      (case c_predicate c of Some p \<Rightarrow> Some (cap_core c @ enc, predicate_display p) | None \<Rightarrow> None)"
  proof (cases "c_predicate c")
    case None
    then show ?thesis
      using enc_free cap_core_free(1) [OF wf] by (simp add: rest_def split_once_None)
  next
    case (Some p)
    then show ?thesis
      using split_once_first [of "''@''" "cap_core c @ enc" "predicate_display p"] enc_free
        cap_core_free(1) [OF wf] by (simp add: rest_def)
  qed
  have pred: "predicate_parse (predicate_display p) = Ok p \<and> CHR ''#'' \<notin> set (predicate_display p)"
    if "c_predicate c = Some p" for p
    using that wf predicate_reparses [of p]
    by (cases "pr_op p") (auto simp: cap_wf_def predicate_display_def op_text_def)
  have parsed: "(case split_once ''@'' rest of
        Some (head, raw) \<Rightarrow> bind_result (predicate_parse raw) (\<lambda>p. Ok (head, Some p))
      | None \<Rightarrow> Ok (rest, None)) = Ok (cap_core c @ enc, c_predicate c)"
    and no_hash: "\<not> (case split_once ''@'' rest of Some (_, raw) \<Rightarrow> CHR ''#'' \<in> set raw | None \<Rightarrow> False)"
    using at pred by (cases "c_predicate c"; simp add: rest_def)+
  have meth: "(case split_once ''#'' (cap_core c @ enc) of
        Some (head, m) \<Rightarrow> bind_result (decode_method m) (\<lambda>m. Ok (head, Some m))
      | None \<Rightarrow> Ok (cap_core c @ enc, None)) = Ok (cap_core c, c_method c)"
  proof (cases "c_method c")
    case None
    then show ?thesis using cap_core_free(2) [OF wf] by (simp add: enc_def split_once_None [THEN iffD2])
  next
    case (Some m)
    then have m: "m \<noteq> []" "utf8_valid m" using wf by (auto simp: cap_wf_def)
    have "concat (map encode_byte m) \<noteq> []" using m(1) by (cases m) (auto simp: encode_byte_def)
    then have "decode_method (concat (map encode_byte m)) = Ok m"
      using m(2) by (simp add: decode_method_def decode_encode del: concat_eq_Nil_conv)
    moreover have "split_once ''#'' (cap_core c @ enc) = Some (cap_core c, concat (map encode_byte m))"
      using split_once_first [of "''#''" "cap_core c"] cap_core_free(2) [OF wf] Some by (simp add: enc_def)
    ultimately show ?thesis using Some by simp
  qed
  let ?new = "\<lparr>c_verb = c_verb c, c_cluster = None, c_scheme = c_scheme c, c_segments = c_segments c,
    c_method = None, c_predicate = c_predicate c\<rparr>"
  have new: "cap_try_new (c_verb c) (c_scheme c) (c_segments c) (c_predicate c) = Ok ?new"
    using wf by (simp add: try_new_Ok_cap cap_wf_def)
  have last: "bind_result (case c_method c of Some m \<Rightarrow> cap_try_with_method ?new m | None \<Rightarrow> Ok ?new) (\<lambda>c1.
      case c_cluster c of Some cl \<Rightarrow> cap_try_with_cluster c1 cl | None \<Rightarrow> Ok c1) = Ok c"
    using wf
    by (cases c) (auto simp: cap_wf_def cap_try_with_method_def try_with_cluster_Ok_cap split: option.splits)
  show ?thesis
    by (simp add: cap_parse_def split parsed no_hash verb meth new last cap_head_text [OF wf]
      cap_body_text [OF wf] del: bind_result_Ok_iff)
qed

text \<open>The short forms of the two roots.\<close>

lemma parse_roots:
  "cap_parse ''*://*'' = Ok \<lparr>c_verb = ''*'', c_cluster = None, c_scheme = ''*'', c_segments = [''**''],
     c_method = None, c_predicate = None\<rparr>"
  "cap_parse ''*://**'' = Ok \<lparr>c_verb = ''*'', c_cluster = None, c_scheme = ''**'', c_segments = [''**''],
     c_method = None, c_predicate = None\<rparr>"
  by (simp_all add: cap_parse_def starts_with_def is_capability_verb_def cap_head_def strip_prefix_def
    cap_body_def try_new_Ok_cap validate_capability_scheme_def any_scheme_def)

text \<open>
  C29: a parsed capability survives printing: its literal parses back to the same capability, cluster,
  method and predicate included, although the parser also accepts spellings it never prints (spaces
  around operators, the short form of the root).
\<close>

theorem cap_literal_roundtrip:
  assumes "cap_parse s = Ok c"
  shows "cap_parse (cap_display c) = Ok c"
  using cap_display_parses [OF cap_parse_wf [OF assms]] .

theorem cap_literal_roundtrip_witness:
  "\<exists>c. cap_parse ''*://*'' = Ok c \<and> cap_display c = ''*://*/**'' \<and> cap_parse ''*://*/**'' = Ok c"
  using cap_literal_roundtrip [OF parse_roots(1)] parse_roots(1) by (simp add: cap_display_def)

end
