(* ===== verification/Attenuation.thy ===== *)
theory Attenuation
  imports Capability_Literals
begin

text \<open>
  Attenuation of authority: an order on sources of authority that never lets a derived source permit
  what its parent does not, however long the chain of derivations. Capabilities are one instance.
\<close>

section \<open>The interface\<close>

locale attenuation =
  fixes within :: "'a \<Rightarrow> 'a \<Rightarrow> bool"
    and permits :: "'a \<Rightarrow> 'r \<Rightarrow> bool"
  assumes within_trans: "within a b \<Longrightarrow> within b c \<Longrightarrow> within a c"
    and within_sound: "within a b \<Longrightarrow> permits a r \<Longrightarrow> permits b r"
begin

lemma chain_within: "within\<^sup>+\<^sup>+ a b \<Longrightarrow> within a b"
  by (induction rule: tranclp_induct) (auto intro: within_trans)

lemma chain_sound: "within\<^sup>*\<^sup>* a b \<Longrightarrow> permits a r \<Longrightarrow> permits b r"
  by (induction rule: rtranclp_induct) (auto intro: within_sound)

text \<open>What a filtered request permits, some parent permits.\<close>

lemma filtered_sound:
  assumes "list_ex (\<lambda>c. permits c r) (filter (\<lambda>c. list_ex (within c) parents) requested)"
  shows "list_ex (\<lambda>p. permits p r) parents \<and> list_ex (\<lambda>c. permits c r) requested"
  using assms within_sound by (fastforce simp: list_ex_iff)

end

section \<open>Capabilities\<close>

text \<open>A request at the operation gate: verb, target, named method or none, input and clock.\<close>

datatype access = Access (ac_verb: string) (ac_target: path) (ac_method: "string option") (ac_input: xvalue) (ac_now: int)

definition predicate_holds :: "capability \<Rightarrow> xvalue \<Rightarrow> int \<Rightarrow> bool" where
  "predicate_holds c input now = (case c_predicate c of None \<Rightarrow> True | Some p \<Rightarrow> predicate_eval p input now)"

definition cap_permits :: "capability \<Rightarrow> access \<Rightarrow> bool" where
  "cap_permits c a \<longleftrightarrow>
     (case ac_method a of
        None \<Rightarrow> covers_with c (ac_verb a) (ac_target a) (ac_input a) (ac_now a)
      | Some m \<Rightarrow> matches_method c (ac_verb a) (ac_target a) m \<and> predicate_holds c (ac_input a) (ac_now a))"

lemma cap_permits_iff:
  "cap_permits c a \<longleftrightarrow>
     covers_path c (ac_verb a) (ac_target a) \<and> predicate_holds c (ac_input a) (ac_now a) \<and>
     (c_method c = None \<or> c_method c = ac_method a)"
  by (auto simp: cap_permits_def covers_with_def matches_method_def method_selected_def
    predicate_holds_def split: option.splits)

text \<open>
  Coverage of a capability by another, except that only the global root covers the global root.
\<close>

definition attenuates :: "capability \<Rightarrow> capability \<Rightarrow> bool" where
  "attenuates c parent \<longleftrightarrow> covers_cap parent c \<and> (is_global_root c \<longrightarrow> is_global_root parent)"

lemma root_segments: "match_segments [''**''] s" "pattern_subsumes_segments [''**''] s"
  by (simp_all add: match_segments_glob pattern_subsumes_glob)

lemma cluster_covers_trans: "cluster_covers a b \<Longrightarrow> cluster_covers b c \<Longrightarrow> cluster_covers a c"
  by (auto simp: cluster_covers_def split: option.splits)

lemma covers_cap_path_sound:
  assumes "covers_cap_path_pattern parent c" "is_global_root c \<longrightarrow> is_global_root parent"
    and "covers_path c verb target"
  shows "covers_path parent verb target"
proof -
  have "match_segments (c_segments parent) (p_segments target)"
    using assms subsumes_matches by (auto simp: covers_cap_path_pattern_def covers_path_def)
  moreover have "cluster_covers_path parent target"
    using assms cluster_covers_trans [of "c_cluster parent" "c_cluster c" "p_cluster target"]
    by (auto simp: covers_cap_path_pattern_def cluster_covers_cap_def covers_path_def cluster_covers_path_def)
  moreover have "any_scheme (c_scheme parent) \<or> c_scheme parent = p_scheme target"
    "c_verb parent = ''*'' \<or> c_verb parent = verb"
    using assms by (auto simp: covers_cap_path_pattern_def covers_path_def any_scheme_def)
  ultimately show ?thesis by (simp add: covers_path_def)
qed

lemma covers_cap_path_trans:
  assumes "covers_cap_path_pattern a b" "covers_cap_path_pattern b c" "is_global_root b \<longrightarrow> is_global_root a"
  shows "covers_cap_path_pattern a c"
proof -
  have "pattern_subsumes_segments (c_segments a) (c_segments c)"
    using assms subsumes_trans by (auto simp: covers_cap_path_pattern_def)
  moreover have "cluster_covers_cap a c"
    using assms cluster_covers_trans [of "c_cluster a" "c_cluster b" "c_cluster c"]
    by (auto simp: covers_cap_path_pattern_def cluster_covers_cap_def)
  moreover have "any_scheme (c_scheme a) \<or> c_scheme a = c_scheme c" "c_verb a = ''*'' \<or> c_verb a = c_verb c"
    using assms by (auto simp: covers_cap_path_pattern_def any_scheme_def)
  ultimately show ?thesis by (simp add: covers_cap_path_pattern_def)
qed

interpretation caps: attenuation attenuates cap_permits
proof
  show "attenuates a c" if "attenuates a b" "attenuates b c" for a b c
    using that covers_cap_path_trans [of c b a]
    by (auto simp: attenuates_def covers_cap_def covers_cap_pattern_def)
  show "cap_permits b r" if "attenuates a b" "cap_permits a r" for a b r
    using that covers_cap_path_sound [of b a]
    by (auto simp: attenuates_def covers_cap_def covers_cap_pattern_def cap_permits_iff predicate_holds_def)
qed

text \<open>
  C22: attenuation never widens authority. Whatever a capability permits, each capability it was derived
  from along any chain of covered derivations permits too: same verb, target, method, input and time.
  The one exception is excluded: a chain in which a capability that is not the global root yields it.
\<close>

theorem delegation_never_widens:
  assumes "attenuates\<^sup>*\<^sup>* c ancestor" "cap_permits c request"
  shows "cap_permits ancestor request"
  using assms by (rule caps.chain_sound)

theorem delegation_never_widens_witness:
  "let parent = \<lparr>c_verb = ''read'', c_cluster = None, c_scheme = ''state'', c_segments = [''jobs'', ''**''],
         c_method = None, c_predicate = None\<rparr>;
       c = parent\<lparr>c_segments := [''jobs'', ''*'', ''log'']\<rparr>;
       request = Access ''read'' (Path None ''state'' [''jobs'', ''a'', ''log'']) None V_Null 0
   in attenuates c parent \<and> cap_permits c request \<and> cap_permits parent request"
proof -
  define parent where "parent = \<lparr>c_verb = ''read'', c_cluster = None, c_scheme = ''state'',
    c_segments = [''jobs'', ''**''], c_method = None, c_predicate = None\<rparr>"
  define c where "c = parent\<lparr>c_segments := [''jobs'', ''*'', ''log'']\<rparr>"
  let ?request = "Access ''read'' (Path None ''state'' [''jobs'', ''a'', ''log'']) None V_Null 0"
  have "attenuates c parent"
    by (simp add: c_def parent_def attenuates_def covers_cap_def covers_cap_pattern_def
      covers_cap_path_pattern_def cluster_covers_cap_def cluster_covers_def is_global_root_def
      pattern_subsumes_glob subsumes_token_def)
  moreover have "cap_permits c ?request"
    by (simp add: c_def parent_def cap_permits_iff covers_path_def cluster_covers_path_def
      cluster_covers_def predicate_holds_def match_segments_glob covers_token_def)
  ultimately have "cap_permits parent ?request"
    using delegation_never_widens [OF r_into_rtranclp] by blast
  then show ?thesis
    using \<open>attenuates c parent\<close> \<open>cap_permits c ?request\<close> by (simp add: c_def parent_def Let_def)
qed

text \<open>
  C23: intersecting a requested set with a held set yields only requested capabilities, and as long as
  the global root is not requested it permits nothing that the held set does not permit.
\<close>

theorem intersect_attenuates:
  assumes "list_all (\<lambda>r. \<not> is_global_root r) requested"
    and "list_ex (\<lambda>c. cap_permits c request) (cap_intersect held requested)"
  shows "list_ex (\<lambda>c. cap_permits c request) held \<and> list_ex (\<lambda>c. cap_permits c request) requested"
proof -
  have "cap_intersect held requested = filter (\<lambda>c. list_ex (attenuates c) held) requested"
    using assms(1) by (auto simp: cap_intersect_def attenuates_def list_all_iff list_ex_iff intro!: filter_cong)
  then show ?thesis using caps.filtered_sound [of request held requested] assms(2) by simp
qed

theorem intersect_attenuates_witness:
  "\<exists>held requested request. list_all (\<lambda>r. \<not> is_global_root r) requested \<and>
     cap_intersect held requested \<noteq> requested \<and>
     list_ex (\<lambda>c. cap_permits c request) (cap_intersect held requested) \<and>
     list_ex (\<lambda>c. cap_permits c request) held"
proof -
  define held where "held = \<lparr>c_verb = ''read'', c_cluster = None, c_scheme = ''state'',
    c_segments = [''jobs'', ''**''], c_method = None, c_predicate = None\<rparr>"
  define other where "other = held\<lparr>c_segments := [''vault'']\<rparr>"
  let ?request = "Access ''read'' (Path None ''state'' [''jobs'', ''a'']) None V_Null 0"
  have keep: "cap_intersect [held] [held, other] = [held]" and no_root: "list_all (\<lambda>r. \<not> is_global_root r) [held, other]"
    by (simp_all add: held_def other_def cap_intersect_def covers_cap_def covers_cap_pattern_def
      covers_cap_path_pattern_def cluster_covers_cap_def cluster_covers_def is_global_root_def
      pattern_subsumes_glob subsumes_token_def)
  moreover have ok: "list_ex (\<lambda>c. cap_permits c ?request) (cap_intersect [held] [held, other])"
    unfolding keep
    by (simp add: held_def cap_permits_iff covers_path_def cluster_covers_path_def
      cluster_covers_def predicate_holds_def match_segments_glob covers_token_def)
  moreover have "list_ex (\<lambda>c. cap_permits c ?request) [held]"
    using intersect_attenuates [OF no_root ok] by blast
  ultimately show ?thesis by (intro exI [of _ "[held]"] exI [of _ "[held, other]"] exI [of _ ?request]) simp
qed

text \<open>
  The exception of the soundness result is real. The literal \<open>*://*\<close> holds every local path and no clustered one. Requesting
  the global root \<open>*://**\<close> from it is granted by \<open>intersect\<close>, and the result reaches clustered paths.
\<close>

lemma root_widens_to_clusters:
  "\<exists>held root target. cap_parse ''*://*'' = Ok held \<and> cap_parse ''*://**'' = Ok root \<and>
     cap_intersect [held] [root] = [root] \<and> p_cluster target = Some ''edge'' \<and>
     \<not> set_contains [held] ''read'' target \<and> set_contains (cap_intersect [held] [root]) ''read'' target"
proof -
  define held where "held = \<lparr>c_verb = ''*'', c_cluster = None, c_scheme = ''*'', c_segments = [''**''],
    c_method = None, c_predicate = None\<rparr>"
  define root where "root = held\<lparr>c_scheme := ''**''\<rparr>"
  let ?target = "Path (Some ''edge'') ''state'' [''jobs'']"
  have "cap_intersect [held] [root] = [root]"
    by (simp add: cap_intersect_def covers_cap_def covers_cap_pattern_def covers_cap_path_pattern_def
      cluster_covers_cap_def cluster_covers_def any_scheme_def root_segments held_def root_def)
  moreover have "\<not> set_contains [held] ''read'' ?target" "set_contains [root] ''read'' ?target"
    by (simp_all add: set_contains_def covers_def covers_path_def cluster_covers_path_def
      cluster_covers_def is_global_root_def any_scheme_def root_segments held_def root_def)
  ultimately show ?thesis
    using parse_roots unfolding held_def root_def by (intro exI [of _ held] exI [of _ root] exI [of _ ?target])
      (simp add: held_def root_def)
qed

text \<open>
  C37: the input-free preflight refuses nothing the gate would permit: every capability set that
  authorizes an operation on its real input passes the preflight at the same time.
\<close>

theorem preflight_keeps_permitted:
  assumes "set_contains_with cs verb target input now"
  shows "set_matches_preflight cs verb target now \<and>
    (\<forall>method. set_matches_method_preflight cs verb target method now)"
proof -
  have until: "predicate_eval p V_Null now" if "predicate_eval p input now" "pr_key p = ''until''" for p
    using that by (simp add: predicate_eval_def)
  from assms obtain c where c: "c \<in> set cs" "covers_with c verb target input now"
    by (auto simp: set_contains_with_def list_ex_iff)
  then have "matches_preflight c verb target now" "\<And>m. matches_method_preflight c verb target m now"
    using until
    by (auto simp: covers_with_def matches_preflight_def matches_method_preflight_def method_selected_def
      matches_preflight_path_def split: if_splits option.splits)
  then show ?thesis
    using c(1) by (auto simp: set_matches_preflight_def set_matches_method_preflight_def list_ex_iff)
qed

theorem preflight_keeps_permitted_witness:
  "\<exists>c. cap_parse ''*://**'' = Ok c \<and> set_contains_with [c] ''read'' (Path (Some ''edge'') ''state'' [''jobs'']) V_Null 5 \<and>
     set_matches_preflight [c] ''read'' (Path (Some ''edge'') ''state'' [''jobs'']) 5"
proof -
  define root where "root = \<lparr>c_verb = ''*'', c_cluster = None, c_scheme = ''**'', c_segments = [''**''],
    c_method = None, c_predicate = None\<rparr>"
  have "set_contains_with [root] ''read'' (Path (Some ''edge'') ''state'' [''jobs'']) V_Null 5"
    by (simp add: set_contains_with_def covers_with_def covers_path_def cluster_covers_path_def
      is_global_root_def any_scheme_def root_segments root_def)
  from preflight_keeps_permitted [OF this] this show ?thesis using parse_roots(2) by (auto simp: root_def)
qed

end
