(* ===== verification/Rust_Search.thy ===== *)
theory Rust_Search
  imports Xolotl_Prelude
begin

text \<open>
  The binary search of the Rust standard library over a sorted slice: the position of a match, or
  the position at which the key can be inserted.
\<close>

text \<open>The loop: \<open>n\<close> elements from \<open>base\<close> on are left.\<close>

function bisect :: "('a :: linorder) list \<Rightarrow> 'a \<Rightarrow> nat \<Rightarrow> nat \<Rightarrow> nat" where
  "bisect xs key base n =
     (if 1 < n then
        let half = n div 2; mid = base + half
        in bisect xs key (if key < xs ! mid then base else mid) (n - half)
      else base)"
  by pat_completeness auto

termination bisect
  by (relation "measure (\<lambda>(xs, key, base, n). n)") auto

declare bisect.simps [simp del]

definition binary_search :: "('a :: linorder) list \<Rightarrow> 'a \<Rightarrow> (nat, nat) result" where
  "binary_search xs key =
     (if xs = [] then Err 0
      else let base = bisect xs key 0 (length xs) in
        if xs ! base = key then Ok base else Err (if xs ! base < key then base + 1 else base))"

fun is_ok :: "('a, 'e) result \<Rightarrow> bool" where
  "is_ok (Ok _) = True"
| "is_ok (Err _) = False"

text \<open>The loop ends at the last element not above the key, or at its start.\<close>

lemma bisect_spec:
  assumes "sorted xs" "0 < n" "base + n \<le> length xs" "base = 0 \<or> xs ! base \<le> key"
    and "\<And>j. base + n \<le> j \<Longrightarrow> j < length xs \<Longrightarrow> key < xs ! j"
  shows "bisect xs key base n < length xs \<and>
    (bisect xs key base n = 0 \<or> xs ! bisect xs key base n \<le> key) \<and>
    (\<forall>j. bisect xs key base n < j \<and> j < length xs \<longrightarrow> key < xs ! j)"
  using assms
proof (induction xs key base n rule: bisect.induct)
  case (1 xs key base n)
  show ?case
  proof (cases "1 < n")
    case False
    then have "n = 1" using "1.prems"(2) by simp
    moreover have "bisect xs key base n = base" using False by (subst bisect.simps) simp
    ultimately show ?thesis using "1.prems"(3-5) by (auto simp: Suc_le_eq)
  next
    case True
    define half where "half = n div 2"
    define mid where "mid = base + half"
    define base' where "base' = (if key < xs ! mid then base else mid)"
    have half: "0 < half" "half < n" "half \<le> n - half" using True by (auto simp: half_def)
    have mid: "mid < length xs" using half "1.prems"(3) by (simp add: mid_def)
    have above: "key < xs ! j" if "base' + (n - half) \<le> j" "j < length xs" for j
    proof (cases "key < xs ! mid")
      case True
      then have "mid \<le> j" using that(1) half by (simp add: base'_def mid_def)
      then show ?thesis using sorted_nth_mono [OF "1.prems"(1) _ that(2), of mid] True by auto
    next
      case False
      then have "base + n \<le> j" using that(1) half by (simp add: base'_def mid_def)
      then show ?thesis using "1.prems"(5) that(2) by simp
    qed
    have base: "base' = 0 \<or> xs ! base' \<le> key" using "1.prems"(4) by (auto simp: base'_def)
    have room: "base' + (n - half) \<le> length xs"
      using "1.prems"(3) half by (auto simp: base'_def mid_def)
    have step: "bisect xs key base n = bisect xs key base' (n - half)"
      using True by (subst bisect.simps) (simp add: Let_def half_def mid_def base'_def)
    show ?thesis
      unfolding step
      by (rule "1.IH" [OF True half_def mid_def, folded base'_def])
        (use "1.prems"(1) half base room above in simp_all)
  qed
qed

lemma binary_search_Ok:
  assumes "sorted xs" "binary_search xs key = Ok i"
  shows "i < length xs \<and> xs ! i = key"
  using assms bisect_spec [OF assms(1), of "length xs" 0 key]
  by (auto simp: binary_search_def Let_def split: if_splits)

lemma binary_search_Err:
  assumes "sorted xs" "binary_search xs key = Err i"
  shows "i \<le> length xs \<and> (\<forall>j < i. xs ! j < key) \<and> (\<forall>j. i \<le> j \<and> j < length xs \<longrightarrow> key < xs ! j)"
proof (cases "xs = []")
  case False
  define b where "b = bisect xs key 0 (length xs)"
  have b: "b < length xs" "b = 0 \<or> xs ! b \<le> key" "\<And>j. b < j \<Longrightarrow> j < length xs \<Longrightarrow> key < xs ! j"
    using bisect_spec [OF assms(1), of "length xs" 0 key] False unfolding b_def by auto
  have i: "xs ! b \<noteq> key" "i = (if xs ! b < key then b + 1 else b)"
    using assms(2) False by (auto simp: binary_search_def Let_def b_def split: if_splits)
  have "xs ! j < key" if "j < i" for j
  proof -
    have "j \<le> b \<and> xs ! b < key"
      using that i b(2) by (cases "xs ! b < key") (auto simp: order_le_less)
    then show ?thesis
      using sorted_nth_mono [OF assms(1), of j b] b(1) by auto
  qed
  moreover have "key < xs ! j" if "i \<le> j" "j < length xs" for j
  proof (cases "j = b")
    case True
    then show ?thesis using that(1) i by (simp split: if_splits)
  next
    case False
    then have "b < j" using that(1) i(2) by (simp split: if_splits)
    then show ?thesis using that(2) by (rule b(3))
  qed
  moreover have "i \<le> length xs" using b(1) i(2) by simp
  ultimately show ?thesis by blast
qed (use assms(2) in \<open>simp add: binary_search_def\<close>)

lemma binary_search_iff: "sorted xs \<Longrightarrow> is_ok (binary_search xs key) \<longleftrightarrow> key \<in> set xs"
proof (cases "binary_search xs key")
  case (Ok i)
  then show "sorted xs \<Longrightarrow> ?thesis" using binary_search_Ok [of xs key i] nth_mem [of i xs] by auto
next
  case (Err i)
  show "sorted xs \<Longrightarrow> ?thesis"
  proof -
    assume "sorted xs"
    from binary_search_Err [OF this Err] have "xs ! j \<noteq> key" if "j < length xs" for j
      using that by (metis less_irrefl not_le)
    then show ?thesis using Err by (auto simp: in_set_conv_nth)
  qed
qed

end
