(* ===== verification/Grant.thy ===== *)
theory Grant
  imports Attenuation Rust_Search
begin

text \<open>
  Grants, the delegable form of authority over resources: \<open>xolotl-types/src/grant.rs\<close>. Method bitmaps
  and stable method names, propagation flags, resource selectors, residual constraints and expiry.
\<close>

section \<open>Bit sets\<close>

type_synonym method_bitmap = "64 word"
type_synonym right_flags = "32 word"

text \<open>\<open>contains\<close> of the bit-set types.\<close>

definition flags_contain :: "'a::len word \<Rightarrow> 'a word \<Rightarrow> bool" where
  "flags_contain a b \<longleftrightarrow> a AND b = b"

definition bitmap_none :: method_bitmap where "bitmap_none = 0"
definition bitmap_all :: method_bitmap where "bitmap_all = - 1"

definition bitmap_method :: "nat \<Rightarrow> method_bitmap" where
  "bitmap_method i = push_bit i 1"

definition bitmap_allows :: "method_bitmap \<Rightarrow> nat \<Rightarrow> bool" where
  "bitmap_allows b i \<longleftrightarrow> i < 64 \<and> flags_contain b (bitmap_method i)"

definition bitmap_subset :: "method_bitmap \<Rightarrow> method_bitmap \<Rightarrow> bool" where
  "bitmap_subset a b \<longleftrightarrow> flags_contain b a"

section \<open>Method names\<close>

datatype grant_methods = Methods_None | Methods_All | Methods_Names "string list"

definition methods_none :: grant_methods where "methods_none = Methods_None"
definition methods_all :: grant_methods where "methods_all = Methods_All"

definition methods_names :: "string list \<Rightarrow> grant_methods" where
  "methods_names names =
     (let names = remdups_adj (sort names) in
      if names = [] then methods_none else Methods_Names names)"

definition methods_name :: "string \<Rightarrow> grant_methods" where
  "methods_name name = Methods_Names [name]"

definition methods_is_empty :: "grant_methods \<Rightarrow> bool" where
  "methods_is_empty g \<longleftrightarrow> g = Methods_None"

definition methods_allow :: "grant_methods \<Rightarrow> string \<Rightarrow> bool" where
  "methods_allow g name =
     (case g of
        Methods_None \<Rightarrow> False
      | Methods_All \<Rightarrow> True
      | Methods_Names names \<Rightarrow> is_ok (binary_search names name))"

definition selected_names :: "grant_methods \<Rightarrow> string list option" where
  "selected_names g =
     (case g of
        Methods_None \<Rightarrow> Some []
      | Methods_All \<Rightarrow> None
      | Methods_Names names \<Rightarrow> Some names)"

definition trailing_zeros :: "64 word \<Rightarrow> nat" where
  "trailing_zeros b = length (takeWhile (\<lambda>i. \<not> bit b i) [0..<64])"

text \<open>The names of the resource's methods are all the check reads of them.\<close>

function covers_bits :: "grant_methods \<Rightarrow> 64 word \<Rightarrow> string list \<Rightarrow> bool" where
  "covers_bits g bits methods =
     (if bits = 0 then True
      else
        (case get methods (trailing_zeros bits) of
           None \<Rightarrow> False
         | Some name \<Rightarrow>
             if methods_allow g name then covers_bits g (bits AND (bits - 1)) methods else False))"
  by pat_completeness auto

lemma clear_lowest_less: "bits \<noteq> 0 \<Longrightarrow> unat (bits AND (bits - 1)) < unat (bits :: 64 word)"
proof -
  assume "bits \<noteq> 0"
  then have "unat (bits - 1) < unat bits" by (simp add: unat_minus_one unat_gt_0)
  moreover have "unat (bits AND (bits - 1)) \<le> unat (bits - 1)"
    unfolding word_le_nat_alt [symmetric] by (metis and.commute word_and_le1 word_and_le2)
  ultimately show ?thesis by simp
qed

termination covers_bits
  by (relation "measure (\<lambda>(g, bits, methods). unat bits)") (auto simp: clear_lowest_less)

declare covers_bits.simps [simp del]

definition covers_bitmap :: "grant_methods \<Rightarrow> method_bitmap \<Rightarrow> string list \<Rightarrow> bool" where
  "covers_bitmap g requested methods = covers_bits g requested methods"

definition methods_subset :: "grant_methods \<Rightarrow> grant_methods \<Rightarrow> bool" where
  "methods_subset g parent =
     (case (g, parent) of
        (Methods_None, _) \<Rightarrow> True
      | (_, Methods_All) \<Rightarrow> True
      | (Methods_All, _) \<Rightarrow> False
      | (_, Methods_None) \<Rightarrow> False
      | (Methods_Names child, Methods_Names parent) \<Rightarrow> list_all (\<lambda>name. is_ok (binary_search parent name)) child)"

definition methods_union :: "grant_methods \<Rightarrow> grant_methods \<Rightarrow> grant_methods" where
  "methods_union g other =
     (case (g, other) of
        (Methods_All, _) \<Rightarrow> methods_all
      | (_, Methods_All) \<Rightarrow> methods_all
      | (Methods_None, _) \<Rightarrow> other
      | (_, Methods_None) \<Rightarrow> g
      | (Methods_Names left, Methods_Names right) \<Rightarrow> methods_names (left @ right))"

section \<open>Rights\<close>

definition flag_clone :: right_flags where "flag_clone = 1"
definition flag_transfer :: right_flags where "flag_transfer = 2"
definition flag_spawn_with :: right_flags where "flag_spawn_with = 4"
definition flag_delegate :: right_flags where "flag_delegate = 8"

datatype derive_kind = Derive_Clone | Derive_Transfer | Derive_SpawnWith | Derive_Delegate

definition required_flag :: "derive_kind \<Rightarrow> right_flags" where
  "required_flag k =
     (case k of
        Derive_Clone \<Rightarrow> flag_clone
      | Derive_Transfer \<Rightarrow> flag_transfer
      | Derive_SpawnWith \<Rightarrow> flag_spawn_with
      | Derive_Delegate \<Rightarrow> flag_delegate)"

record rights =
  rt_methods :: method_bitmap
  rt_flags :: right_flags

definition rights_new :: "method_bitmap \<Rightarrow> right_flags \<Rightarrow> rights" where
  "rights_new methods flags = \<lparr>rt_methods = methods, rt_flags = flags\<rparr>"

definition rights_subset :: "rights \<Rightarrow> rights \<Rightarrow> bool" where
  "rights_subset r parent \<longleftrightarrow>
     bitmap_subset (rt_methods r) (rt_methods parent) \<and> flags_contain (rt_flags parent) (rt_flags r)"

definition allows_derive :: "rights \<Rightarrow> derive_kind \<Rightarrow> bool" where
  "allows_derive r k \<longleftrightarrow> flags_contain (rt_flags r) (required_flag k)"

record grant_rights =
  gr_methods :: grant_methods
  gr_flags :: right_flags

definition grant_rights_new :: "grant_methods \<Rightarrow> right_flags \<Rightarrow> grant_rights" where
  "grant_rights_new methods flags = \<lparr>gr_methods = methods, gr_flags = flags\<rparr>"

definition grant_rights_is_empty :: "grant_rights \<Rightarrow> bool" where
  "grant_rights_is_empty r \<longleftrightarrow> methods_is_empty (gr_methods r) \<and> gr_flags r = 0"

definition grant_rights_subset :: "grant_rights \<Rightarrow> grant_rights \<Rightarrow> bool" where
  "grant_rights_subset r parent \<longleftrightarrow>
     methods_subset (gr_methods r) (gr_methods parent) \<and> flags_contain (gr_flags parent) (gr_flags r)"

section \<open>Selectors, constraints and grants\<close>

record resource_selector =
  rs_pattern :: capability

definition selector_all :: resource_selector where
  "selector_all = \<lparr>rs_pattern = \<lparr>c_verb = ''*'', c_cluster = None, c_scheme = ''**'', c_segments = [''**''],
     c_method = None, c_predicate = None\<rparr>\<rparr>"

definition selector_parse :: "string \<Rightarrow> (resource_selector, cap_error) result" where
  "selector_parse literal = bind_result (cap_parse literal) (\<lambda>c. Ok \<lparr>rs_pattern = c\<rparr>)"

definition selector_exact :: "string \<Rightarrow> path \<Rightarrow> (resource_selector, cap_error) result" where
  "selector_exact verb target =
     (if \<not> is_concrete target then Err Malformed
      else bind_result (cap_try_new verb (p_scheme target) (p_segments target) None) (\<lambda>pattern.
        bind_result (case p_cluster target of Some cl \<Rightarrow> cap_try_with_cluster pattern cl | None \<Rightarrow> Ok pattern)
          (\<lambda>pattern. Ok \<lparr>rs_pattern = pattern\<rparr>)))"

definition selector_verb :: "resource_selector \<Rightarrow> string" where
  "selector_verb s = c_verb (rs_pattern s)"

definition selector_matches :: "resource_selector \<Rightarrow> string \<Rightarrow> path \<Rightarrow> bool" where
  "selector_matches s verb target = matches_structure (rs_pattern s) verb target"

type_synonym constraint_set = "cap_pred list"

definition constraints_empty :: constraint_set where "constraints_empty = []"

definition constraints_is_empty :: "constraint_set \<Rightarrow> bool" where
  "constraints_is_empty cs \<longleftrightarrow> cs = []"

definition constraints_eval :: "constraint_set \<Rightarrow> xvalue \<Rightarrow> int \<Rightarrow> bool" where
  "constraints_eval cs input now \<longleftrightarrow> list_all (\<lambda>p. predicate_eval p input now) cs"

datatype expiry = Never | At int

definition is_expired :: "expiry \<Rightarrow> int \<Rightarrow> bool" where
  "is_expired e now = (case e of At t \<Rightarrow> t < now | Never \<Rightarrow> False)"

record grant =
  g_id :: u64
  g_holder :: u64
  g_selector :: resource_selector
  g_rights :: grant_rights
  g_constraints :: constraint_set
  g_expires :: expiry

definition grant_covers :: "grant \<Rightarrow> string \<Rightarrow> path \<Rightarrow> xvalue \<Rightarrow> int \<Rightarrow> bool" where
  "grant_covers g verb target input now =
     (if is_expired (g_expires g) now then False
      else selector_matches (g_selector g) verb target \<and>
           (case c_predicate (rs_pattern (g_selector g)) of
              None \<Rightarrow> True
            | Some p \<Rightarrow> predicate_eval p input now) \<and>
           constraints_eval (g_constraints g) input now)"

end
