(* ===== verification/Grant_Laws.thy ===== *)
theory Grant_Laws
  imports Grant
begin

text \<open>
  Properties of grants: the method selections form an attenuation order that is exact for the methods
  they allow, requested bitmaps are checked bit by bit, and an exact selector matches its target only.
\<close>

section \<open>Method selections\<close>

fun methods_wf :: "grant_methods \<Rightarrow> bool" where
  "methods_wf (Methods_Names names) \<longleftrightarrow> names \<noteq> [] \<and> sorted names \<and> distinct names"
| "methods_wf _ \<longleftrightarrow> True"

lemma distinct_dedup: "sorted xs \<Longrightarrow> distinct (remdups_adj xs)" for xs :: "string list"
  by (induction xs rule: remdups_adj.induct) auto

lemma names_wf: "methods_wf (methods_names names)"
  by (simp add: methods_names_def methods_none_def Let_def distinct_dedup)

lemma names_allow: "methods_allow (methods_names names) n \<longleftrightarrow> n \<in> set names"
proof (cases "names = []")
  case False
  then have "sort names \<noteq> []" by (metis set_empty set_sort)
  then show ?thesis
    by (simp add: methods_names_def methods_allow_def Let_def binary_search_iff)
qed (simp add: methods_names_def methods_none_def methods_allow_def)

lemma allow_simps:
  "methods_allow Methods_None n \<longleftrightarrow> False" "methods_allow Methods_All n \<longleftrightarrow> True"
  "sorted names \<Longrightarrow> methods_allow (Methods_Names names) n \<longleftrightarrow> n \<in> set names"
  by (simp_all add: methods_allow_def binary_search_iff)

lemma name_wf: "methods_wf (methods_name n)"
  by (simp add: methods_name_def)

lemma union_wf: "methods_wf a \<Longrightarrow> methods_wf b \<Longrightarrow> methods_wf (methods_union a b)"
  using names_wf by (auto simp: methods_union_def methods_all_def split: grant_methods.splits)

lemma union_allow:
  "methods_wf a \<Longrightarrow> methods_wf b \<Longrightarrow> methods_allow (methods_union a b) n \<longleftrightarrow> methods_allow a n \<or> methods_allow b n"
  by (cases a; cases b) (auto simp: methods_union_def methods_all_def names_allow allow_simps)

lemma names_not_all: "\<exists>n :: string. n \<notin> set names"
  using ex_new_if_finite [of "set names"] infinite_UNIV_listI by blast

lemma subset_allow:
  assumes "methods_wf a" "methods_wf b"
  shows "methods_subset a b \<longleftrightarrow> (\<forall>n. methods_allow a n \<longrightarrow> methods_allow b n)"
proof -
  have "\<exists>n. n \<in> set names" if "methods_wf (Methods_Names names)" for names
    using that by (cases names) auto
  then show ?thesis
    using assms names_not_all
    by (cases a; cases b)
      (auto simp: methods_subset_def allow_simps binary_search_iff list_all_iff)
qed

interpretation selections: attenuation
  "\<lambda>a b. methods_wf a \<and> methods_wf b \<and> methods_subset a b" methods_allow
  by standard (auto simp: subset_allow)

section \<open>Bitmaps\<close>

lemma word_bits_iff: "a = b \<longleftrightarrow> (\<forall>n < LENGTH('a). bit a n \<longleftrightarrow> bit b n)" for a b :: "'a::len word"
  by (auto intro: bit_word_eqI)

lemma bitmap_allows_iff: "bitmap_allows b i \<longleftrightarrow> i < 64 \<and> bit b i"
proof -
  have "flags_contain b (bitmap_method i) \<longleftrightarrow> bit b i" if "i < 64"
    using that
    by (auto simp: flags_contain_def bitmap_method_def word_bits_iff bit_and_iff bit_exp_iff)
  then show ?thesis by (auto simp: bitmap_allows_def)
qed

lemma bitmap_subset_iff: "bitmap_subset a b \<longleftrightarrow> (\<forall>i. bitmap_allows a i \<longrightarrow> bitmap_allows b i)"
  unfolding bitmap_allows_iff
  by (auto simp: bitmap_subset_def flags_contain_def word_bits_iff bit_and_iff dest: bit_imp_le_length)

lemma flags_contain_trans: "flags_contain c b \<Longrightarrow> flags_contain b a \<Longrightarrow> flags_contain c a"
  unfolding flags_contain_def by (metis and.assoc)

interpretation rights: attenuation rights_subset
  "\<lambda>r x. case x of Inl i \<Rightarrow> bitmap_allows (rt_methods r) i | Inr k \<Rightarrow> allows_derive r k"
  by standard
    (auto simp: rights_subset_def bitmap_subset_iff allows_derive_def dest: flags_contain_trans split: sum.splits)

lemma int_bits_pred:
  fixes k :: int
  assumes "\<And>i. i < n \<Longrightarrow> \<not> bit k i" "bit k n"
  shows "bit (k - 1) i \<longleftrightarrow> i < n \<or> (i \<noteq> n \<and> bit k i)"
  using assms
proof (induction n arbitrary: k i)
  case 0
  then obtain q where "k = 2 * q + 1" by (auto simp: bit_0 elim: oddE)
  then show ?case by (cases i) (simp_all add: bit_0 bit_Suc)
next
  case (Suc n)
  have "even k" using Suc.prems(1) [of 0] by (simp add: bit_0)
  then obtain q where q: "k = 2 * q" by (elim evenE)
  have "\<not> bit q j" if "j < n" for j using Suc.prems(1) [of "Suc j"] that by (simp add: q bit_Suc)
  moreover have "bit q n" using Suc.prems(2) by (simp add: q bit_Suc)
  moreover have "(k - 1) div 2 = q - 1" "odd (k - 1)" using q by auto
  ultimately show ?case using Suc.IH [of q "i - 1"] by (cases i) (auto simp: bit_0 bit_Suc q)
qed

lemma trailing_zeros_spec:
  assumes "b \<noteq> 0"
  shows "trailing_zeros b < 64" "bit b (trailing_zeros b)" "i < trailing_zeros b \<Longrightarrow> \<not> bit b i"
proof -
  let ?t = "takeWhile (\<lambda>i. \<not> bit b i) [0..<64]"
  obtain n where n: "n < 64" "bit b n"
    using assms by (auto simp: word_bits_iff)
  have less: "length ?t < length [0..<64 :: nat]"
  proof (rule ccontr)
    assume "\<not> length ?t < length [0..<64 :: nat]"
    then have "?t = [0..<64]" by (metis length_takeWhile_le not_less takeWhile_eq_all_conv takeWhile_eq_take take_all)
    then show False using n by (auto simp: takeWhile_eq_all_conv)
  qed
  then show "trailing_zeros b < 64" by (simp add: trailing_zeros_def)
  show "bit b (trailing_zeros b)"
    using nth_length_takeWhile [OF less] less by (simp add: trailing_zeros_def)
  show "\<not> bit b i" if "i < trailing_zeros b"
  proof -
    have "i \<in> set ?t"
      using that less by (metis trailing_zeros_def takeWhile_nth nth_mem nth_upt add_0 length_upt
        less_trans diff_zero)
    then show ?thesis by (auto dest: set_takeWhileD)
  qed
qed

lemma clear_lowest_bit:
  fixes b :: "64 word"
  assumes "b \<noteq> 0"
  shows "bit (b AND (b - 1)) i \<longleftrightarrow> bit b i \<and> i \<noteq> trailing_zeros b"
proof -
  have "uint (b - 1) = uint b - 1"
  proof -
    have "int (unat (b - 1)) = int (unat b) - 1" using unat_minus_one [OF assms] assms unat_gt_0 [of b] by linarith
    then show ?thesis by simp
  qed
  then have "bit (b - 1) i \<longleftrightarrow> bit (uint b - 1) i" if "i < 64"
    using that bit_uint_iff [of "b - 1" i] by simp
  then have "bit (b - 1) i \<longleftrightarrow> i < trailing_zeros b \<or> (i \<noteq> trailing_zeros b \<and> bit b i)" if "i < 64"
    using that int_bits_pred [of "trailing_zeros b" "uint b" i] trailing_zeros_spec [OF assms]
    by (simp add: bit_uint_iff)
  then show ?thesis
    using trailing_zeros_spec(3) [OF assms, of i] bit_imp_le_length [of b i] by (auto simp: bit_and_iff)
qed

lemma covers_bits_iff:
  "covers_bits g bits methods \<longleftrightarrow>
     (\<forall>i < 64. bit bits i \<longrightarrow> i < length methods \<and> methods_allow g (methods ! i))"
proof (induction g bits methods rule: covers_bits.induct)
  case (1 g bits methods)
  show ?case
  proof (cases "bits = 0")
    case False
    note low = trailing_zeros_spec(1,2) [OF False]
    show ?thesis
    proof (cases "trailing_zeros bits < length methods \<and> methods_allow g (methods ! trailing_zeros bits)")
      case True
      then have "covers_bits g (bits AND (bits - 1)) methods \<longleftrightarrow>
          (\<forall>i < 64. bit bits i \<and> i \<noteq> trailing_zeros bits \<longrightarrow> i < length methods \<and> methods_allow g (methods ! i))"
        using "1.IH" [OF False] clear_lowest_bit [OF False] by (simp add: get_def)
      then show ?thesis using False True low by (subst covers_bits.simps) (auto simp: get_def)
    next
      case bad: False
      then have "\<not> covers_bits g bits methods"
        using False by (subst covers_bits.simps) (auto simp: get_def)
      then show ?thesis using bad low by auto
    qed
  qed (simp add: covers_bits.simps)
qed

section \<open>Selectors\<close>

lemma glob_concrete:
  assumes "list_all (\<lambda>s. \<not> is_wildcard_segment s) pat"
  shows "glob covers_token pat seg \<longleftrightarrow> pat = seg"
  using assms
proof (induction pat arbitrary: seg)
  case (Cons p pat)
  then show ?case by (cases seg) (auto simp: is_wildcard_segment_def covers_token_def)
qed auto

lemma ident_not_any: "ident_text Ident_Scheme s \<Longrightarrow> \<not> any_scheme s"
  by (auto simp: any_scheme_def ascii_alphabetic_def)

lemma ident_not_star: "ident_text Ident_Cluster s \<Longrightarrow> s \<noteq> ''*''"
  using ident_char_not by auto

lemma exact_matches:
  assumes wf: "path_wf target" and s: "selector_exact verb target = Ok s"
  shows "selector_matches s v t \<longleftrightarrow> (verb = ''*'' \<or> verb = v) \<and> t = target"
proof -
  have concrete: "is_concrete target"
    and pattern: "rs_pattern s = \<lparr>c_verb = verb, c_cluster = p_cluster target, c_scheme = p_scheme target,
      c_segments = p_segments target, c_method = None, c_predicate = None\<rparr>"
    using s by (auto simp: selector_exact_def try_new_Ok_cap try_with_cluster_Ok_cap split: if_splits option.splits)
  have scheme: "\<not> any_scheme (p_scheme target)" using wf ident_not_any by (simp add: path_wf_def)
  have cluster: "cluster_covers (p_cluster target) x \<longleftrightarrow> x = p_cluster target" for x
    using wf ident_not_star by (auto simp: path_wf_def cluster_covers_def split: option.splits)
  have segments: "match_segments (p_segments target) x \<longleftrightarrow> x = p_segments target" for x
    using concrete by (auto simp: match_segments_glob glob_concrete is_concrete_def)
  have root: "\<not> is_global_root (rs_pattern s)" using scheme by (simp add: is_global_root_def pattern any_scheme_def)
  have "selector_matches s v t \<longleftrightarrow> p_cluster t = p_cluster target \<and> (verb = ''*'' \<or> verb = v) \<and>
      p_scheme t = p_scheme target \<and> p_segments t = p_segments target"
    using scheme root cluster segments
    by (auto simp: selector_matches_def matches_structure_def covers_path_def cluster_covers_path_def pattern)
  then show ?thesis by (auto simp: path.expand)
qed

section \<open>Contracts\<close>

text \<open>
  C33: method selections are compared exactly. One selection attenuates another if and only if it allows
  no method the other refuses, now and for methods added later; a union allows what either part allows;
  names are kept in search order whatever order and repetitions they were given in.
\<close>

theorem method_selection_exact:
  assumes "methods_wf a" "methods_wf b"
  shows "(methods_subset a b \<longleftrightarrow> (\<forall>n. methods_allow a n \<longrightarrow> methods_allow b n)) \<and>
    methods_wf (methods_union a b) \<and>
    (\<forall>n. methods_allow (methods_union a b) n \<longleftrightarrow> methods_allow a n \<or> methods_allow b n) \<and>
    (\<forall>names n. methods_wf (methods_names names) \<and> (methods_allow (methods_names names) n \<longleftrightarrow> n \<in> set names))"
  using subset_allow [OF assms] union_wf [OF assms] union_allow [OF assms] names_wf names_allow by blast

theorem method_selection_exact_witness:
  "methods_subset (methods_name ''read'') (methods_names [''write'', ''read'', ''write'']) \<and>
   methods_allow (methods_union (methods_name ''read'') (methods_names [''write'', ''read''])) ''write''"
proof -
  have "methods_subset (methods_name ''read'') (methods_names [''write'', ''read'', ''write''])"
    using method_selection_exact [OF name_wf names_wf] by (auto simp: methods_name_def allow_simps names_allow)
  moreover have "methods_allow (methods_union (methods_name ''read'') (methods_names [''write'', ''read''])) ''write''"
    using method_selection_exact [OF name_wf names_wf] by (auto simp: names_allow)
  ultimately show ?thesis ..
qed

text \<open>
  C32: a requested bitmap is granted exactly when every requested bit names a method of the resource and
  that method is allowed. Bits beyond the resource's methods are refused, and the loop over the bits
  ends after one turn per requested bit.
\<close>

theorem bitmap_request_checked:
  "covers_bitmap g requested methods \<longleftrightarrow>
     (\<forall>i. bitmap_allows requested i \<longrightarrow> i < length methods \<and> methods_allow g (methods ! i))"
  by (auto simp: covers_bitmap_def covers_bits_iff bitmap_allows_iff)

theorem bitmap_request_checked_witness:
  "covers_bitmap (methods_name ''read'') 2 [''write'', ''read''] \<and>
   \<not> covers_bitmap methods_all 4 [''write'', ''read'']"
proof -
  have "bitmap_allows 2 i \<longleftrightarrow> i = 1" "bitmap_allows 4 i \<longleftrightarrow> i = 2" for i
    using bit_exp_iff [where 'a = "64 word", of 1 i] bit_exp_iff [where 'a = "64 word", of 2 i]
    by (auto simp: bitmap_allows_iff)
  then show ?thesis
    by (simp add: bitmap_request_checked methods_name_def allow_simps)
qed

end
