(* ===== verification/Avl_Index.thy ===== *)
theory Avl_Index
  imports Rust_Text Rust_Search
begin

text \<open>
  The balanced index under the persistent collections (\<open>xolotl-types/src/value/collection/node.rs\<close>):
  leaves of up to 32 members, branches that cache length, height and routing summary, and the two
  operations that keep it balanced. The \<open>Leaf\<close> trait enters as the function \<open>summ\<close> that summarizes
  the members of a leaf. Reference counting and the release of dropped nodes are not part of the model: a
  snapshot is a value.
\<close>

section \<open>Nodes\<close>

datatype ('m, 's) index =
    Index (ix_len: nat) (ix_height: nat) (ix_summary: 's) (ix_data: "('m, 's) index_data")
and ('m, 's) index_data =
    Data_Leaf "'m list"
  | Data_Branch "('m, 's) index" "('m, 's) index"

definition leaf_capacity :: nat where "leaf_capacity = 32"

definition index_leaf :: "('m list \<Rightarrow> 's) \<Rightarrow> 'm list \<Rightarrow> ('m, 's) index" where
  "index_leaf summ ms = Index (length ms) 0 (summ ms) (Data_Leaf ms)"

definition index_branch :: "('m, 's) index \<Rightarrow> ('m, 's) index \<Rightarrow> ('m, 's) index" where
  "index_branch l r =
     Index (ix_len l + ix_len r) (max (ix_height l) (ix_height r) + 1) (ix_summary r) (Data_Branch l r)"

text \<open>The children of a branch: the pattern \<open>let Data::Branch { left, right } = node.data()\<close>.\<close>

definition children :: "('m, 's) index \<Rightarrow> (('m, 's) index \<times> ('m, 's) index) option" where
  "children t = (case ix_data t of Data_Leaf _ \<Rightarrow> None | Data_Branch l r \<Rightarrow> Some (l, r))"

section \<open>Balancing\<close>

text \<open>The two halves of \<open>balance\<close>; \<open>None\<close> where the source falls through to the next test.\<close>

definition rotate_right ::
  "('m, 's) index \<Rightarrow> ('m, 's) index \<Rightarrow> ('m, 's) index option" where
  "rotate_right l r =
     (case (if ix_height r + 1 < ix_height l then children l else None) of
        None \<Rightarrow> None
      | Some (outer, inner) \<Rightarrow>
          if ix_height inner \<le> ix_height outer
          then Some (index_branch outer (index_branch inner r))
          else (case children inner of
                  None \<Rightarrow> None
                | Some (middle_left, middle_right) \<Rightarrow>
                    Some (index_branch (index_branch outer middle_left) (index_branch middle_right r))))"

definition rotate_left ::
  "('m, 's) index \<Rightarrow> ('m, 's) index \<Rightarrow> ('m, 's) index option" where
  "rotate_left l r =
     (case (if ix_height l + 1 < ix_height r then children r else None) of
        None \<Rightarrow> None
      | Some (inner, outer) \<Rightarrow>
          if ix_height inner \<le> ix_height outer
          then Some (index_branch (index_branch l inner) outer)
          else (case children inner of
                  None \<Rightarrow> None
                | Some (middle_left, middle_right) \<Rightarrow>
                    Some (index_branch (index_branch l middle_left) (index_branch middle_right outer))))"

definition balance :: "('m, 's) index \<Rightarrow> ('m, 's) index \<Rightarrow> ('m, 's) index" where
  "balance l r =
     (case rotate_right l r of
        Some t \<Rightarrow> t
      | None \<Rightarrow> (case rotate_left l r of Some t \<Rightarrow> t | None \<Rightarrow> index_branch l r))"

lemma children_size: "children t = Some (l, r) \<Longrightarrow> size l < size t \<and> size r < size t"
  by (cases t; cases "ix_data t") (auto simp: children_def)

function index_join :: "('m, 's) index \<Rightarrow> ('m, 's) index \<Rightarrow> ('m, 's) index" where
  "index_join l r =
     (case (if ix_height r + 1 < ix_height l then children l else None) of
        Some (outer, inner) \<Rightarrow> balance outer (index_join inner r)
      | None \<Rightarrow>
          (case (if ix_height l + 1 < ix_height r then children r else None) of
             Some (inner, outer) \<Rightarrow> balance (index_join l inner) outer
           | None \<Rightarrow> index_branch l r))"
  by pat_completeness auto

termination index_join
  by (relation "measure (\<lambda>(l, r). size l + size r)") (auto dest: children_size split: if_splits)

declare index_join.simps [simp del]

section \<open>Members and well-formed indexes\<close>

fun members :: "('m, 's) index \<Rightarrow> 'm list" where
  "members (Index _ _ _ (Data_Leaf ms)) = ms"
| "members (Index _ _ _ (Data_Branch l r)) = members l @ members r"

text \<open>
  Leaves are neither empty nor overfull, the cached fields are right, and the heights of siblings
  differ by at most one.
\<close>

fun index_ok :: "('m list \<Rightarrow> 's) \<Rightarrow> ('m, 's) index \<Rightarrow> bool" where
  "index_ok summ (Index n h s (Data_Leaf ms)) \<longleftrightarrow>
     ms \<noteq> [] \<and> length ms \<le> leaf_capacity \<and> n = length ms \<and> h = 0 \<and> s = summ ms"
| "index_ok summ (Index n h s (Data_Branch l r)) \<longleftrightarrow>
     index_ok summ l \<and> index_ok summ r \<and>
     n = ix_len l + ix_len r \<and> h = max (ix_height l) (ix_height r) + 1 \<and> s = ix_summary r \<and>
     ix_height l \<le> ix_height r + 1 \<and> ix_height r \<le> ix_height l + 1"

lemma index_branch_simps [simp]:
  "ix_len (index_branch l r) = ix_len l + ix_len r"
  "ix_height (index_branch l r) = max (ix_height l) (ix_height r) + 1"
  "ix_summary (index_branch l r) = ix_summary r"
  "ix_data (index_branch l r) = Data_Branch l r"
  "children (index_branch l r) = Some (l, r)"
  "members (index_branch l r) = members l @ members r"
  "index_ok summ (index_branch l r) \<longleftrightarrow> index_ok summ l \<and> index_ok summ r \<and>
     ix_height l \<le> ix_height r + 1 \<and> ix_height r \<le> ix_height l + 1"
  by (auto simp: index_branch_def children_def)

lemma index_leaf_simps [simp]:
  "ix_len (index_leaf summ ms) = length ms" "ix_height (index_leaf summ ms) = 0"
  "ix_summary (index_leaf summ ms) = summ ms" "ix_data (index_leaf summ ms) = Data_Leaf ms"
  "children (index_leaf summ ms) = None" "members (index_leaf summ ms) = ms"
  "index_ok summ (index_leaf summ ms) \<longleftrightarrow> ms \<noteq> [] \<and> length ms \<le> leaf_capacity"
  by (auto simp: index_leaf_def children_def)

text \<open>A well-formed index was built by one of the two constructors.\<close>

lemma index_ok_cases [consumes 1, case_names leaf branch]:
  assumes "index_ok summ t"
  obtains ms where "t = index_leaf summ ms" "ms \<noteq> []" "length ms \<le> leaf_capacity"
  | l r where "t = index_branch l r" "index_ok summ l" "index_ok summ r"
      "ix_height l \<le> ix_height r + 1" "ix_height r \<le> ix_height l + 1"
  using assms by (cases "(summ, t)" rule: index_ok.cases) (auto simp: index_leaf_def index_branch_def)

lemma index_ok_induct [consumes 1, case_names leaf branch]:
  assumes "index_ok summ t"
    and "\<And>ms. ms \<noteq> [] \<Longrightarrow> length ms \<le> leaf_capacity \<Longrightarrow> P (index_leaf summ ms)"
    and "\<And>l r. index_ok summ l \<Longrightarrow> index_ok summ r \<Longrightarrow> ix_height l \<le> ix_height r + 1 \<Longrightarrow>
      ix_height r \<le> ix_height l + 1 \<Longrightarrow> P l \<Longrightarrow> P r \<Longrightarrow> P (index_branch l r)"
  shows "P t"
  using assms(1)
proof (induction t rule: measure_induct_rule [of size])
  case (less t)
  from less.prems show ?case
  proof (cases rule: index_ok_cases)
    case (branch l r)
    then have "size l < size t" "size r < size t" by (simp_all add: index_branch_def)
    with branch less.IH assms(3) show ?thesis by blast
  qed (use assms(2) in simp)
qed

lemma index_ok_branch:
  assumes "index_ok summ t" "0 < ix_height t"
  obtains l r where "t = index_branch l r" "index_ok summ l" "index_ok summ r"
    "ix_height l \<le> ix_height r + 1" "ix_height r \<le> ix_height l + 1"
  using assms by (cases rule: index_ok_cases) auto

lemma index_len: "index_ok summ t \<Longrightarrow> ix_len t = length (members t)"
  by (induction rule: index_ok_induct) simp_all

lemma index_members: "index_ok summ t \<Longrightarrow> members t \<noteq> []"
  by (induction rule: index_ok_induct) simp_all

section \<open>Balancing keeps members and balance\<close>

lemma rotate_right_ok:
  assumes "index_ok summ l" "index_ok summ r" "ix_height l = ix_height r + 2"
  shows "\<exists>t. rotate_right l r = Some t \<and> index_ok summ t \<and> members t = members l @ members r \<and>
    ix_height l \<le> ix_height t \<and> ix_height t \<le> ix_height l + 1"
proof -
  have "0 < ix_height l" using assms(3) by simp
  with assms(1) obtain a b where l: "l = index_branch a b" and ab: "index_ok summ a" "index_ok summ b"
    "ix_height a \<le> ix_height b + 1" "ix_height b \<le> ix_height a + 1"
    by (rule index_ok_branch)
  show ?thesis
  proof (cases "ix_height b \<le> ix_height a")
    case True
    then show ?thesis using assms ab l by (auto simp: rotate_right_def)
  next
    case False
    then have "0 < ix_height b" by simp
    with ab(2) obtain c d where "b = index_branch c d" "index_ok summ c" "index_ok summ d"
      "ix_height c \<le> ix_height d + 1" "ix_height d \<le> ix_height c + 1"
      by (rule index_ok_branch)
    then show ?thesis using False assms ab l by (auto simp: rotate_right_def max_def)
  qed
qed

lemma rotate_left_ok:
  assumes "index_ok summ l" "index_ok summ r" "ix_height r = ix_height l + 2"
  shows "\<exists>t. rotate_left l r = Some t \<and> index_ok summ t \<and> members t = members l @ members r \<and>
    ix_height r \<le> ix_height t \<and> ix_height t \<le> ix_height r + 1"
proof -
  have "0 < ix_height r" using assms(3) by simp
  with assms(2) obtain a b where r: "r = index_branch a b" and ab: "index_ok summ a" "index_ok summ b"
    "ix_height a \<le> ix_height b + 1" "ix_height b \<le> ix_height a + 1"
    by (rule index_ok_branch)
  show ?thesis
  proof (cases "ix_height a \<le> ix_height b")
    case True
    then show ?thesis using assms ab r by (auto simp: rotate_left_def)
  next
    case False
    then have "0 < ix_height a" by simp
    with ab(1) obtain c d where "a = index_branch c d" "index_ok summ c" "index_ok summ d"
      "ix_height c \<le> ix_height d + 1" "ix_height d \<le> ix_height c + 1"
      by (rule index_ok_branch)
    then show ?thesis using False assms ab r by (auto simp: rotate_left_def max_def)
  qed
qed

lemma balance_level:
  assumes "ix_height l \<le> ix_height r + 1" "ix_height r \<le> ix_height l + 1"
  shows "balance l r = index_branch l r"
  using assms by (simp add: balance_def rotate_right_def rotate_left_def)

lemma balance_ok:
  assumes "index_ok summ l" "index_ok summ r"
    and "ix_height l \<le> ix_height r + 2" "ix_height r \<le> ix_height l + 2"
  shows "index_ok summ (balance l r) \<and> members (balance l r) = members l @ members r \<and>
    max (ix_height l) (ix_height r) \<le> ix_height (balance l r) \<and>
    ix_height (balance l r) \<le> max (ix_height l) (ix_height r) + 1"
proof -
  consider "ix_height l = ix_height r + 2" | "ix_height r = ix_height l + 2"
    | "ix_height l \<le> ix_height r + 1" "ix_height r \<le> ix_height l + 1"
    using assms(3,4) by linarith
  then show ?thesis
  proof cases
    case 1
    then show ?thesis using rotate_right_ok [OF assms(1,2) 1] by (auto simp: balance_def)
  next
    case 2
    then have "rotate_right l r = None" by (simp add: rotate_right_def)
    then show ?thesis using rotate_left_ok [OF assms(1,2) 2] 2 by (auto simp: balance_def)
  next
    case 3
    then show ?thesis using assms(1,2) by (auto simp: balance_level)
  qed
qed

lemma join_ok:
  "index_ok summ l \<Longrightarrow> index_ok summ r \<Longrightarrow>
   index_ok summ (index_join l r) \<and> members (index_join l r) = members l @ members r \<and>
   max (ix_height l) (ix_height r) \<le> ix_height (index_join l r) \<and>
   ix_height (index_join l r) \<le> max (ix_height l) (ix_height r) + 1"
proof (induction l r rule: index_join.induct)
  case (1 l r)
  consider (left) "ix_height r + 1 < ix_height l" | (right) "ix_height l + 1 < ix_height r"
    | (level) "ix_height l \<le> ix_height r + 1" "ix_height r \<le> ix_height l + 1"
    by linarith
  then show ?case
  proof cases
    case left
    then have "0 < ix_height l" by simp
    with "1.prems"(1) obtain a b where l: "l = index_branch a b" and ab: "index_ok summ a" "index_ok summ b"
      "ix_height a \<le> ix_height b + 1" "ix_height b \<le> ix_height a + 1"
      by (rule index_ok_branch)
    have c: "(if ix_height r + 1 < ix_height l then children l else None) = Some (a, b)"
      using left l by simp
    have IH: "index_ok summ (index_join b r)" "members (index_join b r) = members b @ members r"
      "max (ix_height b) (ix_height r) \<le> ix_height (index_join b r)"
      "ix_height (index_join b r) \<le> max (ix_height b) (ix_height r) + 1"
      using "1.IH"(2) [OF c refl ab(2) "1.prems"(2)] by simp_all
    have eq: "index_join l r = balance a (index_join b r)" using left l by (subst index_join.simps) simp
    have h: "ix_height r \<le> ix_height b" using left l ab(3) by simp
    then have near: "ix_height a \<le> ix_height (index_join b r) + 1" "ix_height (index_join b r) \<le> ix_height a + 2"
      using IH(3,4) ab(3,4) by simp_all
    show ?thesis
      using balance_ok [OF ab(1) IH(1)] near IH h l ab(3,4) balance_level [of a "index_join b r"]
      unfolding eq by (cases "ix_height (index_join b r) \<le> ix_height a + 1") auto
  next
    case right
    then have "0 < ix_height r" by simp
    with "1.prems"(2) obtain a b where r: "r = index_branch a b" and ab: "index_ok summ a" "index_ok summ b"
      "ix_height a \<le> ix_height b + 1" "ix_height b \<le> ix_height a + 1"
      by (rule index_ok_branch)
    have c: "(if ix_height r + 1 < ix_height l then children l else None) = None"
      "(if ix_height l + 1 < ix_height r then children r else None) = Some (a, b)"
      using right r by simp_all
    have IH: "index_ok summ (index_join l a)" "members (index_join l a) = members l @ members a"
      "max (ix_height l) (ix_height a) \<le> ix_height (index_join l a)"
      "ix_height (index_join l a) \<le> max (ix_height l) (ix_height a) + 1"
      using "1.IH"(1) [OF c refl "1.prems"(1) ab(1)] by simp_all
    have eq: "index_join l r = balance (index_join l a) b" using right r by (subst index_join.simps) simp
    have h: "ix_height l \<le> ix_height a" using right r ab(4) by simp
    then have near: "ix_height b \<le> ix_height (index_join l a) + 1" "ix_height (index_join l a) \<le> ix_height b + 2"
      using IH(3,4) ab(3,4) by simp_all
    show ?thesis
      using balance_ok [OF IH(1) ab(2)] near IH h r ab(3,4) balance_level [of "index_join l a" b]
      unfolding eq by (cases "ix_height (index_join l a) \<le> ix_height b + 1") auto
  next
    case level
    then have "index_join l r = index_branch l r" by (subst index_join.simps) simp
    then show ?thesis using level "1.prems" by auto
  qed
qed

lemmas join_members = join_ok [THEN conjunct2, THEN conjunct1]

section \<open>Heights\<close>

text \<open>The least number of members at a height, as a pair of consecutive values.\<close>

primrec least_members :: "nat \<Rightarrow> nat \<times> nat" where
  "least_members 0 = (1, 2)"
| "least_members (Suc h) = (let (a, b) = least_members h in (b, a + b))"

lemma least_members_step: "snd (least_members h) = fst (least_members (Suc h))"
  "fst (least_members (Suc (Suc h))) = fst (least_members (Suc h)) + fst (least_members h)"
  by (simp_all add: case_prod_beta)

lemma least_members_double:
  "fst (least_members h) \<le> snd (least_members h) \<and> snd (least_members h) \<le> 2 * fst (least_members h)"
  by (induction h) (auto simp: case_prod_beta)

lemma least_members_mono: "h \<le> k \<Longrightarrow> fst (least_members h) \<le> fst (least_members k)"
proof (induction rule: inc_induct)
  case (step n)
  then show ?case using least_members_double [of n] by (simp add: case_prod_beta)
qed simp

lemma index_least: "index_ok summ t \<Longrightarrow> fst (least_members (ix_height t)) \<le> length (members t)"
proof (induction rule: index_ok_induct)
  case (leaf ms)
  then show ?case by (cases ms) simp_all
next
  case (branch l r)
  have small: "fst (least_members (Suc (max a b))) \<le> fst (least_members a) + fst (least_members b)"
    if near: "a \<le> b + 1" "b \<le> a + 1" for a b
  proof -
    consider "a = b" | "a = Suc b" | "b = Suc a" using near by linarith
    then show ?thesis
      using least_members_double [of b] by cases (auto simp: case_prod_beta max_def)
  qed
  show ?case using branch small [OF branch(3,4)] by (simp del: least_members.simps)
qed

lemma least_members_numeral:
  "least_members (numeral k) = (let (a, b) = least_members (pred_numeral k) in (b, a + b))"
  by (simp add: numeral_eq_Suc)

text \<open>No index that \<open>usize\<close> can count is higher than 91, far below the range of \<open>u8\<close>.\<close>

lemma index_height:
  assumes "index_ok summ t" "length (members t) \<le> usize_max"
  shows "ix_height t \<le> 91"
proof (rule ccontr)
  assume "\<not> ix_height t \<le> 91"
  then have "fst (least_members 92) \<le> length (members t)"
    using index_least [OF assms(1)] least_members_mono [of 92 "ix_height t"] by simp
  moreover have "usize_max < fst (least_members 92)"
    by (simp add: usize_max_def least_members_numeral)
  ultimately show False using assms(2) by simp
qed

section \<open>Iteration over leaves\<close>

record ('m, 's) leaves =
  lv_next :: "('m, 's) index option"
  lv_pending :: "('m, 's) index list"

definition leaves_new :: "('m, 's) index option \<Rightarrow> ('m, 's) leaves" where
  "leaves_new root = \<lparr>lv_next = root, lv_pending = []\<rparr>"

text \<open>
  The loop down the left spine; \<open>pending\<close> is the stack of the source with its top first.
\<close>

fun leaves_descend ::
  "('m, 's) index \<Rightarrow> ('m, 's) index list \<Rightarrow> 'm list \<times> ('m, 's) index list" where
  "leaves_descend (Index _ _ _ (Data_Leaf ms)) pending = (ms, pending)"
| "leaves_descend (Index _ _ _ (Data_Branch l r)) pending = leaves_descend l (r # pending)"

definition leaves_next :: "('m, 's) leaves \<Rightarrow> 'm list option \<times> ('m, 's) leaves" where
  "leaves_next lv =
     (case lv_next lv of
        Some node \<Rightarrow>
          let (ms, pending) = leaves_descend node (lv_pending lv)
          in (Some ms, \<lparr>lv_next = None, lv_pending = pending\<rparr>)
      | None \<Rightarrow>
          (case lv_pending lv of
             [] \<Rightarrow> (None, lv)
           | node # rest \<Rightarrow>
               let (ms, pending) = leaves_descend node rest
               in (Some ms, \<lparr>lv_next = None, lv_pending = pending\<rparr>)))"

text \<open>The roots still to be visited, in order, and their members.\<close>

definition leaves_roots :: "('m, 's) leaves \<Rightarrow> ('m, 's) index list" where
  "leaves_roots lv = (case lv_next lv of None \<Rightarrow> lv_pending lv | Some t \<Rightarrow> t # lv_pending lv)"

definition leaves_rest :: "('m, 's) leaves \<Rightarrow> 'm list" where
  "leaves_rest lv = concat (map members (leaves_roots lv))"

lemma leaves_descend_rest:
  "leaves_descend t pending = (ms, pending') \<Longrightarrow>
   members t @ concat (map members pending) = ms @ concat (map members pending') \<and>
   sum_list (map size pending') < size t + sum_list (map size pending)"
  by (induction t pending rule: leaves_descend.induct) auto

lemma leaves_next_cases:
  assumes "leaves_next lv = (x, lv')"
  shows "x = None \<and> leaves_rest lv = [] \<and> lv' = lv \<or>
    (\<exists>ms. x = Some ms \<and> leaves_rest lv = ms @ leaves_rest lv' \<and>
       sum_list (map size (leaves_roots lv')) < sum_list (map size (leaves_roots lv)))"
  using assms leaves_descend_rest
  by (fastforce simp: leaves_next_def leaves_rest_def leaves_roots_def split: option.splits list.splits prod.splits)

text \<open>
  \<open>ListIter\<close> and \<open>MapIter\<close>: the members of the current leaf, then those of the next. The count of
  remaining members is decremented without a check in the source, so counting below zero is a panic.
\<close>

record ('m, 's) member_iter =
  mi_leaves :: "('m, 's) leaves"
  mi_current :: "'m list"
  mi_remaining :: usize

definition iter_new :: "('m, 's) index option \<Rightarrow> ('m, 's) member_iter" where
  "iter_new root =
     \<lparr>mi_leaves = leaves_new root, mi_current = [],
      mi_remaining = (case root of None \<Rightarrow> 0 | Some t \<Rightarrow> ix_len t)\<rparr>"

function iter_next ::
  "('m, 's) member_iter \<Rightarrow> ('m option, unit) comp \<times> ('m, 's) member_iter" where
  "iter_next it =
     (case mi_current it of
        m # ms \<Rightarrow>
          if mi_remaining it = 0 then (Panic, it)
          else (Return (Some m), it\<lparr>mi_current := ms, mi_remaining := mi_remaining it - 1\<rparr>)
      | [] \<Rightarrow>
          (case leaves_next (mi_leaves it) of
             (None, lv) \<Rightarrow> (Return None, it\<lparr>mi_leaves := lv\<rparr>)
           | (Some ms, lv) \<Rightarrow> iter_next (it\<lparr>mi_leaves := lv, mi_current := ms\<rparr>)))"
  by pat_completeness auto

termination iter_next
  by (relation "measure (\<lambda>it. sum_list (map size (leaves_roots (mi_leaves it))))")
    (auto dest!: leaves_next_cases [OF sym])

declare iter_next.simps [simp del]

definition iter_rest :: "('m, 's) member_iter \<Rightarrow> 'm list" where
  "iter_rest it = mi_current it @ leaves_rest (mi_leaves it)"

text \<open>\<open>size_hint\<close> reports the remaining count; it is exact, so the decrement cannot fail.\<close>

lemma iter_next_spec:
  assumes "mi_remaining it = length (iter_rest it)"
  shows "\<exists>it'. iter_next it =
      (Return (case iter_rest it of [] \<Rightarrow> None | m # _ \<Rightarrow> Some m), it') \<and>
    iter_rest it' = tl (iter_rest it) \<and> mi_remaining it' = length (iter_rest it')"
  using assms
proof (induction it rule: iter_next.induct)
  case (1 it)
  show ?case
  proof (cases "mi_current it")
    case (Cons m ms)
    then show ?thesis using "1.prems" by (subst iter_next.simps) (simp add: iter_rest_def)
  next
    case Nil
    obtain x lv where x: "leaves_next (mi_leaves it) = (x, lv)" by fastforce
    note cases = leaves_next_cases [OF x]
    show ?thesis
    proof (cases x)
      case None
      then have "iter_next it = (Return None, it)"
        using x Nil cases by (subst iter_next.simps) simp
      then show ?thesis using None Nil cases "1.prems" by (simp add: iter_rest_def)
    next
      case (Some ms)
      let ?it = "it\<lparr>mi_leaves := lv, mi_current := ms\<rparr>"
      have eq: "iter_next it = iter_next ?it" using x Nil Some by (subst iter_next.simps) simp
      have rest: "iter_rest ?it = iter_rest it" using cases Some Nil by (simp add: iter_rest_def)
      show ?thesis
        using "1.IH" [OF Nil x [symmetric] Some] "1.prems" eq rest by simp
    qed
  qed
qed

end
