(* ===== verification/Refinement.thy ===== *)
theory Refinement
  imports Xolotl_Prelude
begin

text \<open>
  Objects that refine a simpler object: if every single call does, every sequence of calls does.
\<close>

fun run_calls :: "('op \<Rightarrow> 's \<Rightarrow> 'out \<times> 's) \<Rightarrow> 'op list \<Rightarrow> 's \<Rightarrow> 'out list \<times> 's" where
  "run_calls call [] s = ([], s)"
| "run_calls call (op # ops) s =
     (let (out, s) = call op s; (outs, s) = run_calls call ops s in (out # outs, s))"

locale refined_object =
  fixes ok :: "'c \<Rightarrow> bool"
    and abs :: "'c \<Rightarrow> 'a"
    and call :: "'op \<Rightarrow> 'c \<Rightarrow> 'out \<times> 'c"
    and spec :: "'op \<Rightarrow> 'a \<Rightarrow> 'out \<times> 'a"
    and allowed :: "'op \<Rightarrow> bool"
  assumes call_ok: "ok c \<Longrightarrow> allowed op \<Longrightarrow> ok (snd (call op c))"
    and call_spec: "ok c \<Longrightarrow> allowed op \<Longrightarrow>
      spec op (abs c) = (fst (call op c), abs (snd (call op c)))"
begin

lemma run_refines:
  assumes "ok c" "list_all allowed ops"
  shows "ok (snd (run_calls call ops c)) \<and>
    run_calls spec ops (abs c) = (fst (run_calls call ops c), abs (snd (run_calls call ops c)))"
  using assms
proof (induction ops arbitrary: c)
  case (Cons op ops)
  then show ?case
    using Cons.IH [of "snd (call op c)"] call_ok [of c op] call_spec [of c op]
    by (simp add: case_prod_beta)
qed simp

end

end
