(* ===== verification/Value_List.thy ===== *)
theory Value_List
  imports Avl_Index Refinement
begin

text \<open>
  Persistent sequences (\<open>xolotl-types/src/value/collection/list.rs\<close>). A sequence is an optional index
  whose leaves carry no summary. Indexing beyond a leaf, which panics in the source, is \<open>None\<close> in
  \<open>prune_prefix\<close> and \<open>replace\<close>.
\<close>

section \<open>Operations\<close>

datatype collection_error = LengthOverflow | PrefixOutOfBounds | KeyOrder

type_synonym 'v list_index = "('v, unit) index"
type_synonym 'v value_list = "'v list_index option"

abbreviation list_leaf :: "'v list \<Rightarrow> 'v list_index" where
  "list_leaf \<equiv> index_leaf (\<lambda>_. ())"

definition list_len :: "'v value_list \<Rightarrow> usize" where
  "list_len root = (case root of None \<Rightarrow> 0 | Some t \<Rightarrow> ix_len t)"

definition list_is_empty :: "'v value_list \<Rightarrow> bool" where
  "list_is_empty root \<longleftrightarrow> root = None"

fun index_get :: "('m, 's) index \<Rightarrow> usize \<Rightarrow> 'm option" where
  "index_get (Index _ _ _ (Data_Leaf ms)) i = get ms i"
| "index_get (Index _ _ _ (Data_Branch l r)) i =
     (if i < ix_len l then index_get l i else index_get r (i - ix_len l))"

definition list_get :: "'v value_list \<Rightarrow> usize \<Rightarrow> 'v option" where
  "list_get root i =
     (case root of
        None \<Rightarrow> None
      | Some t \<Rightarrow> if ix_len t \<le> i then None else index_get t i)"

definition list_first :: "'v value_list \<Rightarrow> 'v option" where
  "list_first root = list_get root 0"

definition list_last :: "'v value_list \<Rightarrow> 'v option" where
  "list_last root =
     (case checked_sub (list_len root) 1 of None \<Rightarrow> None | Some i \<Rightarrow> list_get root i)"

fun append_member :: "'v list_index \<Rightarrow> 'v \<Rightarrow> 'v list_index" where
  "append_member (Index n h s (Data_Leaf ms)) v =
     (if length ms < leaf_capacity then list_leaf (ms @ [v])
      else index_join (Index n h s (Data_Leaf ms)) (list_leaf [v]))"
| "append_member (Index n h s (Data_Branch l r)) v = balance l (append_member r v)"

fun copy_members :: "'v list_index \<Rightarrow> 'v list_index" where
  "copy_members (Index _ _ _ (Data_Leaf ms)) = list_leaf ms"
| "copy_members (Index _ _ _ (Data_Branch l r)) = index_join (copy_members l) (copy_members r)"

fun prune_prefix :: "'v list_index \<Rightarrow> usize \<Rightarrow> 'v list_index option" where
  "prune_prefix (Index n h s (Data_Leaf ms)) count =
     (if count = 0 then Some (Index n h s (Data_Leaf ms))
      else if length ms < count then None
      else Some (list_leaf (drop count ms)))"
| "prune_prefix (Index n h s (Data_Branch l r)) count =
     (if count = 0 then Some (Index n h s (Data_Branch l r))
      else if count < ix_len l then map_option (\<lambda>l. index_join l r) (prune_prefix l count)
      else prune_prefix r (count - ix_len l))"

fun replace_member :: "'v list_index \<Rightarrow> usize \<Rightarrow> 'v \<Rightarrow> ('v list_index \<times> 'v) option" where
  "replace_member (Index _ _ _ (Data_Leaf ms)) i v =
     (if length ms \<le> i then None else Some (list_leaf (ms[i := v]), ms ! i))"
| "replace_member (Index _ _ _ (Data_Branch l r)) i v =
     (if i < ix_len l
      then map_option (\<lambda>(l, previous). (balance l r, previous)) (replace_member l i v)
      else map_option (\<lambda>(r, previous). (balance l r, previous)) (replace_member r (i - ix_len l) v))"

definition list_push ::
  "'v \<Rightarrow> 'v value_list \<Rightarrow> (unit, collection_error) comp \<times> 'v value_list" where
  "list_push v root =
     (case checked_add usize_max (list_len root) 1 of
        None \<Rightarrow> (Raise LengthOverflow, root)
      | Some _ \<Rightarrow>
          (Return (), Some (case root of Some t \<Rightarrow> append_member t v | None \<Rightarrow> list_leaf [v])))"

definition remove_prefix ::
  "usize \<Rightarrow> 'v value_list \<Rightarrow> (unit, collection_error) comp \<times> 'v value_list" where
  "remove_prefix count root =
     (if list_len root < count then (Raise PrefixOutOfBounds, root)
      else if count = 0 then (Return (), root)
      else if count = list_len root then (Return (), None)
      else (case root of
              None \<Rightarrow> (Return (), None)
            | Some t \<Rightarrow>
                (case prune_prefix t count of
                   None \<Rightarrow> (Panic, root)
                 | Some t \<Rightarrow> (Return (), Some t))))"

definition list_set ::
  "usize \<Rightarrow> 'v \<Rightarrow> 'v value_list \<Rightarrow> ('v option, collection_error) comp \<times> 'v value_list" where
  "list_set i v root =
     (case root of
        None \<Rightarrow> (Return None, root)
      | Some t \<Rightarrow>
          if ix_len t \<le> i then (Return None, root)
          else (case replace_member t i v of
                  None \<Rightarrow> (Panic, root)
                | Some (t, previous) \<Rightarrow> (Return (Some previous), Some t)))"

definition list_concat ::
  "'v value_list \<Rightarrow> 'v value_list \<Rightarrow> ('v value_list, collection_error) result" where
  "list_concat root other =
     (case checked_add usize_max (list_len root) (list_len other) of
        None \<Rightarrow> Err LengthOverflow
      | Some _ \<Rightarrow>
          Ok (case (root, other) of
                (Some l, Some r) \<Rightarrow> Some (index_join l (copy_members r))
              | (Some t, None) \<Rightarrow> Some t
              | (None, r) \<Rightarrow> r))"

section \<open>What they do to the members\<close>

definition root_members :: "('m, 's) index option \<Rightarrow> 'm list" where
  "root_members root = (case root of None \<Rightarrow> [] | Some t \<Rightarrow> members t)"

definition root_ok :: "('m list \<Rightarrow> 's) \<Rightarrow> ('m, 's) index option \<Rightarrow> bool" where
  "root_ok summ root \<longleftrightarrow>
     (case root of None \<Rightarrow> True | Some t \<Rightarrow> index_ok summ t \<and> length (members t) \<le> usize_max)"

abbreviation list_ok :: "'v value_list \<Rightarrow> bool" where
  "list_ok \<equiv> root_ok (\<lambda>_. ())"

lemma root_simps [simp]:
  "root_members None = []" "root_members (Some t) = members t"
  "root_ok summ None"
  "root_ok summ (Some t) \<longleftrightarrow> index_ok summ t \<and> length (members t) \<le> usize_max"
  by (simp_all add: root_members_def root_ok_def)

lemma list_len_members: "root_ok summ root \<Longrightarrow> (case root of None \<Rightarrow> 0 | Some t \<Rightarrow> ix_len t) = length (root_members root)"
  by (cases root) (auto simp: index_len)

lemma root_ok_length: "root_ok summ root \<Longrightarrow> length (root_members root) \<le> usize_max"
  by (cases root) auto

lemma index_get_members: "index_ok summ t \<Longrightarrow> index_get t i = get (members t) i"
proof (induction arbitrary: i rule: index_ok_induct)
  case (branch l r)
  then show ?case by (auto simp: index_branch_def index_len get_def nth_append)
qed (simp add: index_leaf_def)

lemma append_member_ok:
  assumes "index_ok (\<lambda>_. ()) t"
  shows "index_ok (\<lambda>_. ()) (append_member t v) \<and> members (append_member t v) = members t @ [v] \<and>
    ix_height t \<le> ix_height (append_member t v) \<and> ix_height (append_member t v) \<le> ix_height t + 1"
  using assms
proof (induction rule: index_ok_induct)
  case (leaf ms)
  have "index_ok (\<lambda>_. ()) (list_leaf ms)" "index_ok (\<lambda>_. ()) (list_leaf [v])"
    using leaf by (simp_all add: leaf_capacity_def)
  from join_ok [OF this] show ?case
    using leaf by (auto simp: index_leaf_def)
next
  case (branch l r)
  have "append_member (index_branch l r) v = balance l (append_member r v)" by (simp add: index_branch_def)
  moreover note balance_ok [OF branch(1), of "append_member r v"]
    balance_level [of l "append_member r v"]
  ultimately show ?case
    using branch by (cases "ix_height (append_member r v) \<le> ix_height l + 1") auto
qed

lemma copy_members_ok:
  assumes "index_ok (\<lambda>_. ()) t"
  shows "index_ok (\<lambda>_. ()) (copy_members t) \<and> members (copy_members t) = members t"
  using assms
proof (induction rule: index_ok_induct)
  case (branch l r)
  then show ?case using join_ok [of "\<lambda>_. ()" "copy_members l" "copy_members r"] by (simp add: index_branch_def)
qed (simp add: index_leaf_def)

lemma prune_prefix_ok:
  assumes "index_ok (\<lambda>_. ()) t" "count < length (members t)"
  shows "\<exists>t'. prune_prefix t count = Some t' \<and> index_ok (\<lambda>_. ()) t' \<and> members t' = drop count (members t)"
  using assms
proof (induction arbitrary: count rule: index_ok_induct)
  case (leaf ms)
  then show ?case by (auto simp: index_leaf_def)
next
  case (branch l r)
  have eq: "prune_prefix (index_branch l r) count =
     (if count = 0 then Some (index_branch l r)
      else if count < ix_len l then map_option (\<lambda>l. index_join l r) (prune_prefix l count)
      else prune_prefix r (count - ix_len l))"
    by (simp add: index_branch_def)
  show ?case
  proof (cases "count < ix_len l")
    case True
    then obtain l' where "prune_prefix l count = Some l'" "index_ok (\<lambda>_. ()) l'"
      "members l' = drop count (members l)"
      using branch.IH(1) [of count] branch.hyps(1) by (auto simp: index_len)
    then show ?thesis
      using True branch.hyps join_ok [of "\<lambda>_. ()" l' r] by (auto simp: eq index_len)
  next
    case False
    then show ?thesis
      using branch.IH(2) [of "count - ix_len l"] branch.prems branch.hyps by (auto simp: eq index_len)
  qed
qed

lemma replace_member_ok:
  assumes "index_ok (\<lambda>_. ()) t" "i < length (members t)"
  shows "\<exists>t'. replace_member t i v = Some (t', members t ! i) \<and> index_ok (\<lambda>_. ()) t' \<and>
    members t' = (members t)[i := v] \<and> ix_height t' = ix_height t"
  using assms
proof (induction arbitrary: i rule: index_ok_induct)
  case (leaf ms)
  then show ?case by (auto simp: index_leaf_def)
next
  case (branch l r)
  have eq: "replace_member (index_branch l r) i v =
     (if i < ix_len l
      then map_option (\<lambda>(l, previous). (balance l r, previous)) (replace_member l i v)
      else map_option (\<lambda>(r, previous). (balance l r, previous)) (replace_member r (i - ix_len l) v))"
    by (simp add: index_branch_def)
  show ?case
  proof (cases "i < ix_len l")
    case True
    then obtain l' where "replace_member l i v = Some (l', members l ! i)" "index_ok (\<lambda>_. ()) l'"
      "members l' = (members l)[i := v]" "ix_height l' = ix_height l"
      using branch.IH(1) [of i] branch.hyps(1) by (auto simp: index_len)
    then show ?thesis
      using True branch.hyps balance_level [of l' r] by (simp add: eq index_len nth_append list_update_append)
  next
    case False
    then have "i - ix_len l < length (members r)" using branch.prems branch.hyps by (auto simp: index_len)
    then obtain r' where "replace_member r (i - ix_len l) v = Some (r', members r ! (i - ix_len l))"
      "index_ok (\<lambda>_. ()) r'" "members r' = (members r)[i - ix_len l := v]" "ix_height r' = ix_height r"
      using branch.IH(2) [of "i - ix_len l"] by auto
    then show ?thesis
      using False branch.hyps balance_level [of l r'] by (simp add: eq index_len nth_append list_update_append)
  qed
qed

section \<open>Sequences refine lists\<close>

lemma list_len_eq: "list_ok root \<Longrightarrow> list_len root = length (root_members root)"
  using list_len_members [of "\<lambda>_. ()" root] by (simp add: list_len_def)

lemma list_get_eq: "list_ok root \<Longrightarrow> list_get root i = get (root_members root) i"
  by (cases root) (auto simp: list_get_def index_len index_get_members get_def)

lemma list_push_eq:
  assumes "list_ok root"
  shows "(case list_push v root of (r, root') \<Rightarrow> list_ok root' \<and> (r, root_members root') =
    (if length (root_members root) < usize_max then (Return (), root_members root @ [v])
     else (Raise LengthOverflow, root_members root)))"
proof (cases root)
  case (Some t)
  then show ?thesis
    using assms append_member_ok [of t v] list_len_eq [OF assms]
    by (auto simp: list_push_def checked_add_def)
qed (auto simp: list_push_def checked_add_def list_len_def usize_max_def leaf_capacity_def)

lemma remove_prefix_eq:
  assumes "list_ok root"
  shows "(case remove_prefix n root of (r, root') \<Rightarrow> list_ok root' \<and> (r, root_members root') =
    (if n \<le> length (root_members root) then (Return (), drop n (root_members root))
     else (Raise PrefixOutOfBounds, root_members root)))"
proof (cases root)
  case (Some t)
  then show ?thesis
    using assms prune_prefix_ok [of t n] list_len_eq [OF assms]
    by (cases "n = 0 \<or> length (members t) \<le> n") (auto simp: remove_prefix_def)
qed (auto simp: remove_prefix_def list_len_def)

lemma list_set_eq:
  assumes "list_ok root"
  shows "(case list_set i v root of (r, root') \<Rightarrow> list_ok root' \<and>
    (r, root_members root') = (Return (get (root_members root) i), (root_members root)[i := v]))"
proof (cases root)
  case (Some t)
  then show ?thesis
    using assms replace_member_ok [of t i v]
    by (cases "length (members t) \<le> i") (auto simp: list_set_def index_len get_def list_update_beyond)
qed (auto simp: list_set_def get_def)

lemma list_concat_eq:
  assumes "list_ok root" "list_ok other"
  shows "case list_concat root other of
      Ok root' \<Rightarrow> list_ok root' \<and> root_members root' = root_members root @ root_members other
    | Err x \<Rightarrow> x = LengthOverflow \<and> usize_max < length (root_members root) + length (root_members other)"
proof (cases "usize_max < length (root_members root) + length (root_members other)")
  case True
  then show ?thesis using assms by (simp add: list_concat_def list_len_eq checked_add_def)
next
  case False
  then show ?thesis
    using assms join_ok [of "\<lambda>_. ()" "the root" "copy_members (the other)"] copy_members_ok [of "the other"]
    by (cases root; cases other) (auto simp: list_concat_def list_len_eq checked_add_def)
qed

datatype 'v list_op =
    L_Push 'v
  | L_Remove_Prefix usize
  | L_Set usize 'v
  | L_Concat "'v value_list"
  | L_Get usize
  | L_First
  | L_Last
  | L_Len

datatype 'v list_answer =
    LA_Done "(unit, collection_error) comp"
  | LA_Previous "('v option, collection_error) comp"
  | LA_Member "'v option"
  | LA_Len usize

text \<open>One call on a sequence; a concatenation that succeeds replaces the sequence.\<close>

fun list_call :: "'v list_op \<Rightarrow> 'v value_list \<Rightarrow> 'v list_answer \<times> 'v value_list" where
  "list_call (L_Push v) s = map_prod LA_Done id (list_push v s)"
| "list_call (L_Remove_Prefix n) s = map_prod LA_Done id (remove_prefix n s)"
| "list_call (L_Set i v) s = map_prod LA_Previous id (list_set i v s)"
| "list_call (L_Concat other) s =
     (case list_concat s other of
        Ok s' \<Rightarrow> (LA_Done (Return ()), s')
      | Err x \<Rightarrow> (LA_Done (Raise x), s))"
| "list_call (L_Get i) s = (LA_Member (list_get s i), s)"
| "list_call L_First s = (LA_Member (list_first s), s)"
| "list_call L_Last s = (LA_Member (list_last s), s)"
| "list_call L_Len s = (LA_Len (list_len s), s)"

text \<open>The same calls on a plain list of at most \<open>usize_max\<close> members.\<close>

fun plain_call :: "'v list_op \<Rightarrow> 'v list \<Rightarrow> 'v list_answer \<times> 'v list" where
  "plain_call (L_Push v) xs =
     (if length xs < usize_max then (LA_Done (Return ()), xs @ [v]) else (LA_Done (Raise LengthOverflow), xs))"
| "plain_call (L_Remove_Prefix n) xs =
     (if n \<le> length xs then (LA_Done (Return ()), drop n xs) else (LA_Done (Raise PrefixOutOfBounds), xs))"
| "plain_call (L_Set i v) xs = (LA_Previous (Return (get xs i)), xs[i := v])"
| "plain_call (L_Concat other) xs =
     (if length xs + length (root_members other) \<le> usize_max
      then (LA_Done (Return ()), xs @ root_members other) else (LA_Done (Raise LengthOverflow), xs))"
| "plain_call (L_Get i) xs = (LA_Member (get xs i), xs)"
| "plain_call L_First xs = (LA_Member (if xs = [] then None else Some (hd xs)), xs)"
| "plain_call L_Last xs = (LA_Member (if xs = [] then None else Some (last xs)), xs)"
| "plain_call L_Len xs = (LA_Len (length xs), xs)"

fun list_call_ok :: "'v list_op \<Rightarrow> bool" where
  "list_call_ok (L_Concat other) = list_ok other"
| "list_call_ok _ = True"

lemma list_call_refines:
  assumes "list_ok s" "list_call_ok op"
  shows "list_ok (snd (list_call op s)) \<and>
    plain_call op (root_members s) = (fst (list_call op s), root_members (snd (list_call op s)))"
proof (cases op)
  case (L_Push v)
  then show ?thesis using list_push_eq [OF assms(1), of v] by (auto simp: map_prod_def split: prod.splits)
next
  case (L_Remove_Prefix n)
  then show ?thesis using remove_prefix_eq [OF assms(1), of n] by (auto simp: map_prod_def split: prod.splits)
next
  case (L_Set i v)
  then show ?thesis using list_set_eq [OF assms(1), of i v] by (auto simp: map_prod_def split: prod.splits)
next
  case (L_Concat other)
  then show ?thesis using list_concat_eq [of s other] assms by (auto split: result.splits dest: root_ok_length)
next
  case L_First
  then show ?thesis using assms(1) by (auto simp: list_first_def list_get_eq get_def hd_conv_nth)
next
  case L_Last
  then show ?thesis
    using assms(1)
    by (auto simp: list_last_def list_get_eq list_len_eq checked_sub_def get_def last_conv_nth Suc_le_eq)
qed (use assms(1) in \<open>simp_all add: list_get_eq list_len_eq\<close>)

interpretation lists: refined_object "root_ok (\<lambda>_. ())" root_members list_call plain_call list_call_ok
  by unfold_locales (simp_all add: list_call_refines)

section \<open>Iteration\<close>

definition iter_ok :: "('m, 's) member_iter \<Rightarrow> bool" where
  "iter_ok it \<longleftrightarrow> mi_remaining it = length (iter_rest it)"

definition plain_next :: "'m list \<Rightarrow> ('m option, unit) comp \<times> 'm list" where
  "plain_next ms = (Return (case ms of [] \<Rightarrow> None | m # _ \<Rightarrow> Some m), tl ms)"

interpretation iters: refined_object iter_ok iter_rest "\<lambda>_ :: unit. iter_next" "\<lambda>_. plain_next" "\<lambda>_. True"
proof (unfold_locales, goal_cases)
  case (1 it op)
  then show ?case using iter_next_spec [of it] by (auto simp: iter_ok_def)
next
  case (2 it op)
  then show ?case using iter_next_spec [of it] by (auto simp: iter_ok_def plain_next_def)
qed

lemma iter_new_ok: "root_ok summ root \<Longrightarrow> iter_ok (iter_new root) \<and> iter_rest (iter_new root) = root_members root"
  by (cases root) (auto simp: iter_ok_def iter_new_def iter_rest_def leaves_rest_def leaves_roots_def
      leaves_new_def index_len)

end
