(* ===== verification/Value_Map.thy ===== *)
theory Value_Map
  imports Value_List
begin

text \<open>
  Persistent maps with strictly ordered UTF-8 keys (\<open>xolotl-types/src/value/collection/map.rs\<close>). The
  summary of a node is its greatest key; descents compare with the summary of the left child and
  search the leaf by bisection.
\<close>

section \<open>Operations\<close>

type_synonym 'v entry = "string \<times> 'v"
type_synonym 'v map_index = "('v entry, string) index"
type_synonym 'v value_map = "'v map_index option"

text \<open>\<open>MapLeaf::summary\<close>; the default is the empty key.\<close>

definition map_summary :: "'v entry list \<Rightarrow> string" where
  "map_summary ms = (case ms of [] \<Rightarrow> [] | _ \<Rightarrow> fst (last ms))"

abbreviation map_leaf :: "'v entry list \<Rightarrow> 'v map_index" where
  "map_leaf \<equiv> index_leaf map_summary"

definition map_len :: "'v value_map \<Rightarrow> usize" where
  "map_len root = (case root of None \<Rightarrow> 0 | Some t \<Rightarrow> ix_len t)"

definition map_is_empty :: "'v value_map \<Rightarrow> bool" where
  "map_is_empty root \<longleftrightarrow> root = None"

fun find_entry :: "'v map_index \<Rightarrow> string \<Rightarrow> 'v option" where
  "find_entry (Index _ _ _ (Data_Leaf ms)) key =
     (case binary_search (map fst ms) key of Ok i \<Rightarrow> Some (snd (ms ! i)) | Err _ \<Rightarrow> None)"
| "find_entry (Index _ _ _ (Data_Branch l r)) key =
     (if key \<le> ix_summary l then find_entry l key else find_entry r key)"

definition map_get :: "'v value_map \<Rightarrow> string \<Rightarrow> 'v option" where
  "map_get root key = (case root of None \<Rightarrow> None | Some t \<Rightarrow> find_entry t key)"

definition map_get_index :: "'v value_map \<Rightarrow> usize \<Rightarrow> 'v entry option" where
  "map_get_index root i =
     (case root of
        None \<Rightarrow> None
      | Some t \<Rightarrow> if ix_len t \<le> i then None else index_get t i)"

definition contains_key :: "'v value_map \<Rightarrow> string \<Rightarrow> bool" where
  "contains_key root key \<longleftrightarrow> map_get root key \<noteq> None"

fun insert_entry :: "'v map_index \<Rightarrow> string \<Rightarrow> 'v \<Rightarrow> 'v map_index \<times> 'v option" where
  "insert_entry (Index _ _ _ (Data_Leaf ms)) key v =
     (case binary_search (map fst ms) key of
        Ok i \<Rightarrow> (map_leaf (ms[i := (fst (ms ! i), v)]), Some (snd (ms ! i)))
      | Err i \<Rightarrow>
          let ms = take i ms @ (key, v) # drop i ms in
          if length ms \<le> leaf_capacity then (map_leaf ms, None)
          else
            let half = length ms div 2
            in (index_join (map_leaf (take half ms)) (map_leaf (drop half ms)), None))"
| "insert_entry (Index _ _ _ (Data_Branch l r)) key v =
     (if key \<le> ix_summary l
      then let (l, previous) = insert_entry l key v in (balance l r, previous)
      else let (r, previous) = insert_entry r key v in (balance l r, previous))"

fun remove_entry :: "'v map_index \<Rightarrow> string \<Rightarrow> 'v map_index option \<times> 'v option" where
  "remove_entry (Index n h s (Data_Leaf ms)) key =
     (case binary_search (map fst ms) key of
        Err _ \<Rightarrow> (Some (Index n h s (Data_Leaf ms)), None)
      | Ok i \<Rightarrow>
          let rest = take i ms @ drop (Suc i) ms
          in (if rest = [] then None else Some (map_leaf rest), Some (snd (ms ! i))))"
| "remove_entry (Index n h s (Data_Branch l r)) key =
     (if key \<le> ix_summary l
      then let (replacement, previous) = remove_entry l key in
        if previous = None then (Some (Index n h s (Data_Branch l r)), None)
        else (Some (case replacement of Some l \<Rightarrow> balance l r | None \<Rightarrow> r), previous)
      else let (replacement, previous) = remove_entry r key in
        if previous = None then (Some (Index n h s (Data_Branch l r)), None)
        else (Some (case replacement of Some r \<Rightarrow> balance l r | None \<Rightarrow> l), previous))"

definition map_insert ::
  "string \<Rightarrow> 'v \<Rightarrow> 'v value_map \<Rightarrow> ('v option, collection_error) result \<times> 'v value_map" where
  "map_insert key v root =
     (if map_get root key = None \<and> checked_add usize_max (map_len root) 1 = None
      then (Err LengthOverflow, root)
      else
        let (root', previous) =
          (case root of
             Some t \<Rightarrow> insert_entry t key v
           | None \<Rightarrow> (map_leaf [(key, v)], None))
        in (Ok previous, Some root'))"

definition map_remove :: "string \<Rightarrow> 'v value_map \<Rightarrow> 'v option \<times> 'v value_map" where
  "map_remove key root =
     (case root of
        None \<Rightarrow> (None, None)
      | Some t \<Rightarrow> let (root', previous) = remove_entry t key in (previous, root'))"

section \<open>Ordered entries\<close>

abbreviation ordered :: "'v entry list \<Rightarrow> bool" where
  "ordered ms \<equiv> sorted_wrt (<) (map fst ms)"

definition map_ok :: "'v value_map \<Rightarrow> bool" where
  "map_ok root \<longleftrightarrow> root_ok map_summary root \<and> ordered (root_members root)"

lemma ordered_sorted: "ordered ms \<Longrightarrow> sorted (map fst ms) \<and> distinct (map fst ms)"
  by (simp add: strict_sorted_iff)

lemma index_summary: "index_ok map_summary t \<Longrightarrow> ix_summary t = fst (last (members t))"
  by (induction rule: index_ok_induct) (auto simp: map_summary_def index_members split: list.splits)

lemma ordered_last:
  assumes "ordered xs" "x \<in> set xs"
  shows "fst x \<le> fst (last xs)"
proof -
  have xs: "xs \<noteq> []" using assms(2) by auto
  then have "sorted_wrt (<) (map fst (butlast xs @ [last xs]))" using assms(1) by simp
  then have "fst y \<le> fst (last xs)" if "y \<in> set (butlast xs @ [last xs])" for y
    using that unfolding map_append sorted_wrt_append by (fastforce intro: less_imp_le)
  then show ?thesis using assms(2) xs by simp
qed

text \<open>The greatest key of the left part separates the keys of the two parts.\<close>

lemma ordered_split:
  assumes "ordered (xs @ ys)" "xs \<noteq> []"
  shows "k \<le> fst (last xs) \<Longrightarrow> k \<notin> fst ` set ys" "fst (last xs) < k \<Longrightarrow> k \<notin> fst ` set xs"
proof -
  have "fst (last xs) < fst y" if "y \<in> set ys" for y
    using assms(1) last_in_set [OF assms(2)] that by (simp add: sorted_wrt_append)
  then show "k \<notin> fst ` set ys" if "k \<le> fst (last xs)" using that by fastforce
  have "fst x \<le> fst (last xs)" if "x \<in> set xs" for x
    using ordered_last [OF _ that] assms(1) by (simp add: sorted_wrt_append)
  then show "k \<notin> fst ` set xs" if "fst (last xs) < k" using that by fastforce
qed

lemma map_of_absent: "k \<notin> fst ` set xs \<Longrightarrow> map_of xs k = None"
  by (simp add: map_of_eq_None_iff)

lemma find_entry_map:
  assumes "index_ok map_summary t" "ordered (members t)"
  shows "find_entry t key = map_of (members t) key"
  using assms
proof (induction rule: index_ok_induct)
  case (leaf ms)
  then have s: "sorted (map fst ms)" "distinct (map fst ms)" using ordered_sorted [of ms] by simp_all
  show ?case
  proof (cases "binary_search (map fst ms) key")
    case (Ok i)
    then have "i < length ms" "fst (ms ! i) = key" using binary_search_Ok [OF s(1) Ok] by auto
    then have "map_of ms key = Some (snd (ms ! i))"
      using s(2) by (metis map_of_is_SomeI nth_mem prod.collapse)
    then show ?thesis using Ok by (simp add: index_leaf_def)
  next
    case (Err i)
    then have "key \<notin> set (map fst ms)" using binary_search_iff [OF s(1), of key] by simp
    then have "map_of ms key = None" by (simp add: map_of_absent)
    then show ?thesis using Err by (simp add: index_leaf_def)
  qed
next
  case (branch l r)
  have o: "ordered (members l)" "ordered (members r)" "ordered (members l @ members r)"
    using branch.prems by (simp_all add: sorted_wrt_append)
  note split = ordered_split [OF o(3) index_members [OF branch(1)], of key]
  show ?case
  proof (cases "key \<le> ix_summary l")
    case True
    then have "map_of (members r) key = None"
      using split(1) by (simp add: index_summary [OF branch(1)] map_of_absent)
    then show ?thesis
      using True branch.IH(1) [OF o(1)] by (simp add: index_branch_def map_add_def split: option.splits)
  next
    case False
    then have "map_of (members l) key = None"
      using split(2) by (simp add: index_summary [OF branch(1)] map_of_absent)
    then show ?thesis
      using False branch.IH(2) [OF o(2)] by (simp add: index_branch_def map_add_def)
  qed
qed

section \<open>Insertion\<close>

lemma map_of_replace:
  "distinct (map fst ms) \<Longrightarrow> i < length ms \<Longrightarrow>
   map_of (ms[i := (fst (ms ! i), v)]) = (map_of ms)(fst (ms ! i) \<mapsto> v)"
proof (induction ms arbitrary: i)
  case (Cons m ms)
  show ?case
  proof (cases i)
    case (Suc j)
    then have "fst (ms ! j) \<in> fst ` set ms" "fst m \<notin> fst ` set ms" using Cons.prems by auto
    then have "fst (ms ! j) \<noteq> fst m" by metis
    then show ?thesis using Cons Suc by (auto simp: fun_upd_twist)
  qed (use Cons.prems in auto)
qed simp

lemma ordered_insert:
  assumes "ordered ms" "binary_search (map fst ms) key = Err i"
  shows "ordered (take i ms @ (key, v) # drop i ms)"
    "map_of (take i ms @ (key, v) # drop i ms) = (map_of ms)(key \<mapsto> v)" "map_of ms key = None"
    "i \<le> length ms"
proof -
  have s: "sorted (map fst ms)" using ordered_sorted [OF assms(1)] by simp
  note pos = binary_search_Err [OF s assms(2)]
  have before: "fst e < key" if "e \<in> set (take i ms)" for e
    using pos that by (auto simp: in_set_conv_nth)
  have after: "key < fst e" if "e \<in> set (drop i ms)" for e
    using pos that by (auto simp: in_set_conv_nth)
  have parts: "ordered (take i ms @ drop i ms)" using assms(1) by simp
  have none: "key \<notin> fst ` set (take i ms)" "key \<notin> fst ` set (drop i ms)"
    using before after by fastforce+
  show "ordered (take i ms @ (key, v) # drop i ms)"
    using parts before after unfolding map_append list.map sorted_wrt_append by auto
  have "map_of (take i ms @ (key, v) # drop i ms) = (map_of (drop i ms))(key \<mapsto> v) ++ map_of (take i ms)"
    by simp
  also have "\<dots> = (map_of (drop i ms) ++ map_of (take i ms))(key \<mapsto> v)"
    using none(1) by (intro map_add_upd_left) (simp add: dom_map_of_conv_image_fst)
  also have "map_of (drop i ms) ++ map_of (take i ms) = map_of ms"
    by (metis append_take_drop_id map_of_append)
  finally show "map_of (take i ms @ (key, v) # drop i ms) = (map_of ms)(key \<mapsto> v)" .
  have "key \<notin> fst ` set (take i ms @ drop i ms)" using none by (simp only: set_append image_Un) blast
  then show "map_of ms key = None" by (simp add: map_of_eq_None_iff)
  show "i \<le> length ms" using pos by simp
qed

abbreviation inserted :: "'v map_index \<Rightarrow> string \<Rightarrow> 'v \<Rightarrow> 'v map_index \<Rightarrow> bool" where
  "inserted t key v t' \<equiv> index_ok map_summary t' \<and> ordered (members t') \<and>
     map_of (members t') = (map_of (members t))(key \<mapsto> v) \<and>
     ix_height t \<le> ix_height t' \<and> ix_height t' \<le> ix_height t + 1"

lemma halves_ok:
  assumes "1 < length xs" "length xs \<le> Suc leaf_capacity"
  shows "index_ok summ (index_leaf summ (take (length xs div 2) xs)) \<and>
    index_ok summ (index_leaf summ (drop (length xs div 2) xs))"
  using assms by (auto simp: leaf_capacity_def)

lemma insert_leaf_ok:
  assumes "ms \<noteq> []" "length ms \<le> leaf_capacity" "ordered ms"
  shows "\<exists>t'. insert_entry (map_leaf ms) key v = (t', map_of ms key) \<and> inserted (map_leaf ms) key v t'"
proof (cases "binary_search (map fst ms) key")
  case (Ok i)
  have s: "sorted (map fst ms)" "distinct (map fst ms)" using ordered_sorted [OF assms(3)] by simp_all
  have i: "i < length ms" "fst (ms ! i) = key" using binary_search_Ok [OF s(1) Ok] by auto
  have "map_of ms key = Some (snd (ms ! i))"
    using s(2) i by (metis map_of_is_SomeI nth_mem prod.collapse)
  moreover have "map fst (ms[i := (key, v)]) = map fst ms"
    using i by (simp add: map_update flip: i(2)) (metis length_map list_update_id nth_map)
  ultimately show ?thesis
    using Ok assms map_of_replace [OF s(2) i(1), of v] i(2) by (simp add: index_leaf_def)
next
  case (Err i)
  define xs where "xs = take i ms @ (key, v) # drop i ms"
  note new = ordered_insert(1,2) [OF assms(3) Err, of v, folded xs_def] ordered_insert(3) [OF assms(3) Err]
  have many: "1 < length xs" "length xs \<le> Suc leaf_capacity"
    using ordered_insert(4) [OF assms(3) Err] assms(1,2) by (auto simp: xs_def)
  have eq: "insert_entry (map_leaf ms) key v =
      (if length xs \<le> leaf_capacity then map_leaf xs
       else index_join (map_leaf (take (length xs div 2) xs)) (map_leaf (drop (length xs div 2) xs)), None)"
    using Err unfolding xs_def index_leaf_def by (simp add: Let_def index_leaf_def)
  show ?thesis
  proof (cases "length xs \<le> leaf_capacity")
    case True
    then show ?thesis using eq new many(1) by auto
  next
    case False
    have ok: "index_ok map_summary (map_leaf (take (length xs div 2) xs))"
      "index_ok map_summary (map_leaf (drop (length xs div 2) xs))"
      using halves_ok [OF many, of map_summary] by blast+
    show ?thesis using eq new False join_ok [OF ok] by simp
  qed
qed

text \<open>Rebalancing after one child has grown by at most one level.\<close>

lemma grown_left:
  assumes "index_ok summ l" "index_ok summ r" "ix_height l \<le> ix_height r + 1" "ix_height r \<le> ix_height l + 1"
    and "index_ok summ l'" "ix_height l \<le> ix_height l'" "ix_height l' \<le> ix_height l + 1"
  shows "index_ok summ (balance l' r) \<and> members (balance l' r) = members l' @ members r \<and>
    ix_height (index_branch l r) \<le> ix_height (balance l' r) \<and>
    ix_height (balance l' r) \<le> ix_height (index_branch l r) + 1"
  using balance_ok [OF assms(5,2)] balance_level [of l' r] assms
  by (cases "ix_height l' \<le> ix_height r + 1") auto

lemma grown_right:
  assumes "index_ok summ l" "index_ok summ r" "ix_height l \<le> ix_height r + 1" "ix_height r \<le> ix_height l + 1"
    and "index_ok summ r'" "ix_height r \<le> ix_height r'" "ix_height r' \<le> ix_height r + 1"
  shows "index_ok summ (balance l r') \<and> members (balance l r') = members l @ members r' \<and>
    ix_height (index_branch l r) \<le> ix_height (balance l r') \<and>
    ix_height (balance l r') \<le> ix_height (index_branch l r) + 1"
  using balance_ok [OF assms(1,5)] balance_level [of l r'] assms
  by (cases "ix_height r' \<le> ix_height l + 1") auto

lemma insert_entry_ok:
  assumes "index_ok map_summary t" "ordered (members t)"
  shows "\<exists>t'. insert_entry t key v = (t', map_of (members t) key) \<and> inserted t key v t'"
  using assms
proof (induction rule: index_ok_induct)
  case (leaf ms)
  then show ?case using insert_leaf_ok [of ms key v] unfolding index_leaf_simps by blast
next
  case (branch l r)
  have o: "ordered (members l)" "ordered (members r)" "ordered (members l @ members r)"
    using branch.prems by (simp_all add: sorted_wrt_append)
  note split = ordered_split [OF o(3) index_members [OF branch(1)], of key]
  have eq: "insert_entry (index_branch l r) key v =
     (if key \<le> ix_summary l
      then let (l, previous) = insert_entry l key v in (balance l r, previous)
      else let (r, previous) = insert_entry r key v in (balance l r, previous))"
    by (simp add: index_branch_def)
  show ?case
  proof (cases "key \<le> ix_summary l")
    case True
    then have none: "key \<notin> fst ` set (members r)"
      using split(1) by (simp add: index_summary [OF branch(1)])
    obtain l' where l': "insert_entry l key v = (l', map_of (members l) key)" "inserted l key v l'"
      using branch.IH(1) [OF o(1)] by blast
    have keys: "fst ` set (members l') = insert key (fst ` set (members l))"
      using l'(2) by (simp flip: dom_map_of_conv_image_fst)
    have "fst a < fst b" if "a \<in> set (members l')" "b \<in> set (members r)" for a b
    proof -
      have "fst (last (members l)) < fst b"
        using o(3) that(2) last_in_set [OF index_members [OF branch(1)]] by (simp add: sorted_wrt_append)
      moreover have "fst a \<in> insert key (fst ` set (members l))" using keys that(1) by blast
      then have "fst a \<le> fst (last (members l))"
        using True index_summary [OF branch(1)] ordered_split(2) [OF o(3) index_members [OF branch(1)], of "fst a"]
        by (metis insertE not_le)
      ultimately show ?thesis by simp
    qed
    then have ord: "ordered (members l' @ members r)"
      using l'(2) o(2) by (auto simp: sorted_wrt_append)
    have upd: "map_of (members l' @ members r) = (map_of (members l @ members r))(key \<mapsto> v)"
      using l'(2) by (simp add: map_add_upd)
    have "map_of (members l @ members r) key = map_of (members l) key"
      using map_of_absent [OF none] by (simp add: map_add_def split: option.splits)
    then have res: "insert_entry (index_branch l r) key v =
        (balance l' r, map_of (members (index_branch l r)) key)"
      using True l'(1) by (simp add: eq)
    have "index_ok map_summary l'" "ix_height l \<le> ix_height l'" "ix_height l' \<le> ix_height l + 1"
      using l'(2) by simp_all
    from grown_left [OF branch(1-4) this] show ?thesis
      using res ord upd by (metis index_branch_simps(6))
  next
    case False
    then have none: "key \<notin> fst ` set (members l)"
      using split(2) by (simp add: index_summary [OF branch(1)])
    obtain r' where r': "insert_entry r key v = (r', map_of (members r) key)" "inserted r key v r'"
      using branch.IH(2) [OF o(2)] by blast
    have keys: "fst ` set (members r') = insert key (fst ` set (members r))"
      using r'(2) by (simp flip: dom_map_of_conv_image_fst)
    have "fst a < fst b" if "a \<in> set (members l)" "b \<in> set (members r')" for a b
    proof -
      have "fst b \<in> insert key (fst ` set (members r))" using keys that(2) by blast
      moreover have "fst a < key"
        using False index_summary [OF branch(1)] that(1)
          ordered_split(2) [OF o(3) index_members [OF branch(1)], of "fst a"]
        by (auto simp: not_le) (meson imageI le_less_trans not_le)
      moreover have "fst a < fst c" if "c \<in> set (members r)" for c
        using o(3) that \<open>a \<in> set (members l)\<close> by (simp add: sorted_wrt_append)
      ultimately show ?thesis by (metis (no_types, lifting) image_iff insertE)
    qed
    then have ord: "ordered (members l @ members r')"
      using r'(2) o(1) by (auto simp: sorted_wrt_append)
    have upd: "map_of (members l @ members r') = (map_of (members l @ members r))(key \<mapsto> v)"
      using r'(2) none by (simp add: map_add_upd_left dom_map_of_conv_image_fst)
    have "map_of (members l @ members r) key = map_of (members r) key"
      using map_of_absent [OF none] by (simp add: map_add_def)
    then have res: "insert_entry (index_branch l r) key v =
        (balance l r', map_of (members (index_branch l r)) key)"
      using False r'(1) by (simp add: eq)
    have "index_ok map_summary r'" "ix_height r \<le> ix_height r'" "ix_height r' \<le> ix_height r + 1"
      using r'(2) by simp_all
    from grown_right [OF branch(1-4) this] show ?thesis
      using res ord upd by (metis index_branch_simps(6))
  qed
qed

section \<open>Removal\<close>

lemma filter_absent: "key \<notin> fst ` set ms \<Longrightarrow> filter (\<lambda>e. fst e \<noteq> key) ms = ms"
  by (auto simp: filter_id_conv)

lemma filter_position:
  assumes "distinct (map fst ms)" "i < length ms"
  shows "take i ms @ drop (Suc i) ms = filter (\<lambda>e. fst e \<noteq> fst (ms ! i)) ms"
proof -
  have ms: "ms = take i ms @ ms ! i # drop (Suc i) ms" using id_take_nth_drop [OF assms(2)] .
  have d: "distinct (map fst (take i ms @ ms ! i # drop (Suc i) ms))" using assms(1) ms by simp
  have "fst (ms ! i) \<notin> fst ` set (take i ms)" "fst (ms ! i) \<notin> fst ` set (drop (Suc i) ms)"
    using d by (auto simp del: set_take_subset)
  then have "filter (\<lambda>e. fst e \<noteq> fst (ms ! i)) (take i ms @ ms ! i # drop (Suc i) ms) =
      take i ms @ drop (Suc i) ms"
    by (simp add: filter_absent)
  then show ?thesis using ms by simp
qed

lemma map_of_removed: "map_of (filter (\<lambda>e. fst e \<noteq> key) ms) = (map_of ms)(key := None)"
  by (induction ms) auto

text \<open>Rebalancing after one child has shrunk by at most one level.\<close>

lemma shrunk_left:
  assumes "index_ok summ l" "index_ok summ r" "ix_height l \<le> ix_height r + 1" "ix_height r \<le> ix_height l + 1"
    and "index_ok summ l'" "ix_height l' \<le> ix_height l" "ix_height l \<le> ix_height l' + 1"
  shows "index_ok summ (balance l' r) \<and> members (balance l' r) = members l' @ members r \<and>
    ix_height (balance l' r) \<le> ix_height (index_branch l r) \<and>
    ix_height (index_branch l r) \<le> ix_height (balance l' r) + 1"
  using balance_ok [OF assms(5,2)] balance_level [of l' r] assms
  by (cases "ix_height r \<le> ix_height l' + 1") auto

lemma shrunk_right:
  assumes "index_ok summ l" "index_ok summ r" "ix_height l \<le> ix_height r + 1" "ix_height r \<le> ix_height l + 1"
    and "index_ok summ r'" "ix_height r' \<le> ix_height r" "ix_height r \<le> ix_height r' + 1"
  shows "index_ok summ (balance l r') \<and> members (balance l r') = members l @ members r' \<and>
    ix_height (balance l r') \<le> ix_height (index_branch l r) \<and>
    ix_height (index_branch l r) \<le> ix_height (balance l r') + 1"
  using balance_ok [OF assms(1,5)] balance_level [of l r'] assms
  by (cases "ix_height l \<le> ix_height r' + 1") auto

definition removed :: "'v map_index \<Rightarrow> string \<Rightarrow> 'v map_index option \<Rightarrow> bool" where
  "removed t key root \<longleftrightarrow>
     root_members root = filter (\<lambda>e. fst e \<noteq> key) (members t) \<and>
     (case root of
        None \<Rightarrow> ix_height t = 0
      | Some t' \<Rightarrow> index_ok map_summary t' \<and> ix_height t' \<le> ix_height t \<and> ix_height t \<le> ix_height t' + 1)"

lemma remove_leaf_ok:
  assumes "ms \<noteq> []" "length ms \<le> leaf_capacity" "ordered ms"
  shows "\<exists>root. remove_entry (map_leaf ms) key = (root, map_of ms key) \<and> removed (map_leaf ms) key root"
proof -
  have s: "sorted (map fst ms)" "distinct (map fst ms)" using ordered_sorted [OF assms(3)] by simp_all
  show ?thesis
  proof (cases "binary_search (map fst ms) key")
    case (Ok i)
    have i: "i < length ms" "fst (ms ! i) = key" using binary_search_Ok [OF s(1) Ok] by auto
    define rest where "rest = filter (\<lambda>e. fst e \<noteq> key) ms"
    have rest: "take i ms @ drop (Suc i) ms = rest"
      using filter_position [OF s(2) i(1)] i(2) by (simp add: rest_def)
    have "map_of ms key = Some (snd (ms ! i))"
      using s(2) i by (metis map_of_is_SomeI nth_mem prod.collapse)
    then have "remove_entry (map_leaf ms) key =
        (if rest = [] then None else Some (map_leaf rest), map_of ms key)"
      using Ok rest by (simp add: index_leaf_def Let_def)
    moreover have "length rest \<le> leaf_capacity"
      unfolding rest_def by (rule order_trans [OF length_filter_le assms(2)])
    ultimately show ?thesis by (simp add: removed_def rest_def)
  next
    case (Err i)
    then have none: "key \<notin> fst ` set ms" using binary_search_iff [OF s(1), of key] by simp
    have "remove_entry (map_leaf ms) key = (Some (map_leaf ms), map_of ms key)"
      using Err map_of_absent [OF none] by (simp add: index_leaf_def)
    then show ?thesis using assms filter_absent [OF none] by (simp add: removed_def)
  qed
qed

lemma remove_entry_ok:
  assumes "index_ok map_summary t" "ordered (members t)"
  shows "\<exists>root. remove_entry t key = (root, map_of (members t) key) \<and> removed t key root"
  using assms
proof (induction rule: index_ok_induct)
  case (leaf ms)
  then show ?case using remove_leaf_ok [of ms key] unfolding index_leaf_simps by blast
next
  case (branch l r)
  let ?keep = "filter (\<lambda>e. fst e \<noteq> key)"
  have o: "ordered (members l)" "ordered (members r)" "ordered (members l @ members r)"
    using branch.prems by (simp_all add: sorted_wrt_append)
  note split = ordered_split [OF o(3) index_members [OF branch(1)], of key]
  have eq: "remove_entry (index_branch l r) key =
     (if key \<le> ix_summary l
      then let (replacement, previous) = remove_entry l key in
        if previous = None then (Some (index_branch l r), None)
        else (Some (case replacement of Some l \<Rightarrow> balance l r | None \<Rightarrow> r), previous)
      else let (replacement, previous) = remove_entry r key in
        if previous = None then (Some (index_branch l r), None)
        else (Some (case replacement of Some r \<Rightarrow> balance l r | None \<Rightarrow> l), previous))"
    unfolding index_branch_def remove_entry.simps ..
  have same: ?case if "map_of (members l @ members r) key = None"
    "remove_entry (index_branch l r) key = (Some (index_branch l r), None)"
  proof -
    have "key \<notin> fst ` set (members l @ members r)" using that(1) unfolding map_of_eq_None_iff .
    then have "?keep (members l @ members r) = members l @ members r" by (rule filter_absent)
    then have "removed (index_branch l r) key (Some (index_branch l r))"
      using branch(1-4) by (auto simp: removed_def)
    then show ?thesis using that by (metis index_branch_simps(6))
  qed
  show ?case
  proof (cases "key \<le> ix_summary l")
    case True
    then have none: "key \<notin> fst ` set (members r)"
      using split(1) by (simp add: index_summary [OF branch(1)])
    then have m: "map_of (members l @ members r) key = map_of (members l) key"
      using map_of_absent [OF none] by (simp add: map_add_def split: option.splits)
    obtain root where root: "remove_entry l key = (root, map_of (members l) key)" "removed l key root"
      using branch.IH(1) [OF o(1)] by blast
    show ?thesis
    proof (cases "map_of (members l) key")
      case None
      then show ?thesis using same m root(1) True by (simp add: eq)
    next
      case (Some v)
      have res: "remove_entry (index_branch l r) key =
          (Some (case root of Some l \<Rightarrow> balance l r | None \<Rightarrow> r), map_of (members (index_branch l r)) key)"
        using root(1) True Some m by (simp add: eq)
      show ?thesis
        using res root(2) filter_absent [OF none] branch(1-4) shrunk_left [OF branch(1-4)]
        by (cases root) (auto simp: removed_def)
    qed
  next
    case False
    then have none: "key \<notin> fst ` set (members l)"
      using split(2) by (simp add: index_summary [OF branch(1)])
    then have m: "map_of (members l @ members r) key = map_of (members r) key"
      using map_of_absent [OF none] by (simp add: map_add_def)
    obtain root where root: "remove_entry r key = (root, map_of (members r) key)" "removed r key root"
      using branch.IH(2) [OF o(2)] by blast
    show ?thesis
    proof (cases "map_of (members r) key")
      case None
      then show ?thesis using same m root(1) False by (simp add: eq)
    next
      case (Some v)
      have res: "remove_entry (index_branch l r) key =
          (Some (case root of Some r \<Rightarrow> balance l r | None \<Rightarrow> l), map_of (members (index_branch l r)) key)"
        using root(1) False Some m by (simp add: eq)
      show ?thesis
        using res root(2) filter_absent [OF none] branch(1-4) shrunk_right [OF branch(1-4)]
        by (cases root) (auto simp: removed_def)
    qed
  qed
qed

section \<open>Maps refine finite maps\<close>

lemma map_len_eq: "map_ok root \<Longrightarrow> map_len root = length (root_members root)"
  using list_len_members [of map_summary root] by (simp add: map_len_def map_ok_def)

lemma map_get_eq: "map_ok root \<Longrightarrow> map_get root key = map_of (root_members root) key"
  by (cases root) (auto simp: map_get_def map_ok_def find_entry_map)

lemma map_get_index_eq: "map_ok root \<Longrightarrow> map_get_index root i = get (root_members root) i"
  by (cases root) (auto simp: map_get_index_def map_ok_def index_len index_get_members get_def)

text \<open>The entries of a finite map in the order of its keys, and their number.\<close>

definition entries_of :: "(string \<Rightarrow> 'v option) \<Rightarrow> 'v entry list" where
  "entries_of m = map (\<lambda>k. (k, the (m k))) (sorted_list_of_set (dom m))"

lemma entries_of_ordered:
  assumes "ordered ms"
  shows "entries_of (map_of ms) = ms"
proof -
  have s: "sorted (map fst ms)" "distinct (map fst ms)" using ordered_sorted [OF assms] by simp_all
  then have "sorted_list_of_set (dom (map_of ms)) = map fst ms"
    by (simp add: dom_map_of_conv_image_fst sorted_list_of_set.idem_if_sorted_distinct flip: set_map)
  moreover have "(k, the (map_of ms k)) = (k, v)" if "(k, v) \<in> set ms" for k v
    using that s(2) by simp
  ultimately show ?thesis by (auto simp: entries_of_def intro!: map_idI)
qed

lemma entries_length: "finite (dom m) \<Longrightarrow> length (entries_of m) = card (dom m)"
  by (simp add: entries_of_def)

lemma map_insert_eq:
  assumes "map_ok root"
  shows "(case map_insert key v root of (r, root') \<Rightarrow> map_ok root' \<and> (r, map_of (root_members root')) =
    (if map_of (root_members root) key = None \<and> usize_max \<le> length (root_members root)
     then (Err LengthOverflow, map_of (root_members root))
     else (Ok (map_of (root_members root) key), (map_of (root_members root))(key \<mapsto> v))))"
proof (cases root)
  case None
  then show ?thesis
    by (simp add: map_insert_def map_get_def map_len_def map_ok_def checked_add_def usize_max_def leaf_capacity_def)
next
  case (Some t)
  have t: "index_ok map_summary t" "ordered (members t)" "length (members t) \<le> usize_max"
    using assms Some by (simp_all add: map_ok_def)
  obtain t' where t': "insert_entry t key v = (t', map_of (members t) key)" "inserted t key v t'"
    using insert_entry_ok [OF t(1,2)] by blast
  have size: "length (members u) = card (dom (map_of (members u)))" if "ordered (members u)" for u :: "'a map_index"
    using entries_of_ordered [OF that] entries_length [OF finite_dom_map_of, of "members u"] by simp
  have "length (members t') =
      (if map_of (members t) key = None then length (members t) + 1 else length (members t))"
    using size [OF t(2)] size [of t'] t'(2)
    by (auto simp: finite_dom_map_of card_insert_if domIff insert_absorb)
  then show ?thesis
    using Some t t' map_len_eq [OF assms] map_get_eq [OF assms]
    by (auto simp: map_insert_def map_ok_def checked_add_def)
qed

lemma map_remove_eq:
  assumes "map_ok root"
  shows "(case map_remove key root of (r, root') \<Rightarrow> map_ok root' \<and>
    (r, map_of (root_members root')) = (map_of (root_members root) key, (map_of (root_members root))(key := None)))"
proof (cases root)
  case (Some t)
  have t: "index_ok map_summary t" "ordered (members t)" "length (members t) \<le> usize_max"
    using assms Some by (simp_all add: map_ok_def)
  obtain root' where r: "remove_entry t key = (root', map_of (members t) key)" "removed t key root'"
    using remove_entry_ok [OF t(1,2)] by blast
  let ?rest = "filter (\<lambda>e. fst e \<noteq> key) (members t)"
  have rest: "root_members root' = ?rest" using r(2) by (simp add: removed_def)
  have "map_of ?rest = (map_of (members t))(key := None)"
    by (rule map_of_removed)
  moreover have "ordered ?rest"
    using t(2) by (simp add: sorted_wrt_map sorted_wrt_filter)
  moreover have "length ?rest \<le> usize_max" by (rule order_trans [OF length_filter_le t(3)])
  ultimately show ?thesis
    using Some r rest by (cases root') (auto simp: map_remove_def map_ok_def removed_def)
qed (auto simp: map_remove_def map_ok_def)

datatype 'v map_op =
    M_Insert string 'v
  | M_Remove string
  | M_Get string
  | M_Contains string
  | M_Get_Index usize
  | M_Len

datatype 'v map_answer =
    MA_Inserted "('v option, collection_error) result"
  | MA_Value "'v option"
  | MA_Contains bool
  | MA_Entry "'v entry option"
  | MA_Len usize

fun map_call :: "'v map_op \<Rightarrow> 'v value_map \<Rightarrow> 'v map_answer \<times> 'v value_map" where
  "map_call (M_Insert k v) s = map_prod MA_Inserted id (map_insert k v s)"
| "map_call (M_Remove k) s = map_prod MA_Value id (map_remove k s)"
| "map_call (M_Get k) s = (MA_Value (map_get s k), s)"
| "map_call (M_Contains k) s = (MA_Contains (contains_key s k), s)"
| "map_call (M_Get_Index i) s = (MA_Entry (map_get_index s i), s)"
| "map_call M_Len s = (MA_Len (map_len s), s)"

text \<open>The same calls on a finite map with at most \<open>usize_max\<close> keys.\<close>

fun finite_call :: "'v map_op \<Rightarrow> (string \<Rightarrow> 'v option) \<Rightarrow> 'v map_answer \<times> (string \<Rightarrow> 'v option)" where
  "finite_call (M_Insert k v) m =
     (if m k = None \<and> usize_max \<le> card (dom m) then (MA_Inserted (Err LengthOverflow), m)
      else (MA_Inserted (Ok (m k)), m(k \<mapsto> v)))"
| "finite_call (M_Remove k) m = (MA_Value (m k), m(k := None))"
| "finite_call (M_Get k) m = (MA_Value (m k), m)"
| "finite_call (M_Contains k) m = (MA_Contains (k \<in> dom m), m)"
| "finite_call (M_Get_Index i) m = (MA_Entry (get (entries_of m) i), m)"
| "finite_call M_Len m = (MA_Len (card (dom m)), m)"

lemma map_call_refines:
  assumes "map_ok s"
  shows "map_ok (snd (map_call op s)) \<and>
    finite_call op (map_of (root_members s)) = (fst (map_call op s), map_of (root_members (snd (map_call op s))))"
proof -
  have entries: "entries_of (map_of (root_members s)) = root_members s"
    using assms by (intro entries_of_ordered) (simp add: map_ok_def)
  then have card: "card (dom (map_of (root_members s))) = length (root_members s)"
    using entries_length [OF finite_dom_map_of, of "root_members s"] by simp
  show ?thesis
  proof (cases op)
    case (M_Insert k v)
    then show ?thesis
      using map_insert_eq [OF assms, of k v] card
      by (auto simp: map_prod_def split: prod.splits if_splits)
  next
    case (M_Remove k)
    then show ?thesis using map_remove_eq [OF assms, of k] by (auto simp: map_prod_def split: prod.splits)
  qed (use assms entries card in \<open>auto simp: map_get_eq contains_key_def map_get_index_eq map_len_eq\<close>)
qed

interpretation maps: refined_object map_ok "\<lambda>s. map_of (root_members s)" map_call finite_call "\<lambda>_. True"
  by unfold_locales (simp_all add: map_call_refines)

end
