(* ===== verification/Value_Assembly.thy ===== *)
theory Value_Assembly
  imports Value_Map
begin

text \<open>
  Sequential construction of collections (\<open>xolotl-types/src/value/collection/assembly.rs\<close>): full leaves
  enter a forest in which only trees of equal height merge, as in binary counting, and finishing
  joins what is left. The stack of trees is kept with its top first.
\<close>

section \<open>Forests and assemblies\<close>

fun forest_push :: "('m, 's) index list \<Rightarrow> ('m, 's) index \<Rightarrow> ('m, 's) index list" where
  "forest_push [] tree = [tree]"
| "forest_push (left # trees) tree =
     (if ix_height left \<noteq> ix_height tree then tree # left # trees
      else forest_push trees (index_join left tree))"

fun forest_finish :: "('m, 's) index list \<Rightarrow> ('m, 's) index option" where
  "forest_finish [] = None"
| "forest_finish (root # trees) = Some (foldl (\<lambda>root left. index_join left root) root trees)"

record ('m, 's) assembly =
  as_pending :: "'m list"
  as_forest :: "('m, 's) index list"
  as_len :: usize

definition assembly_new :: "('m, 's) assembly" where
  "assembly_new = \<lparr>as_pending = [], as_forest = [], as_len = 0\<rparr>"

definition assembly_flush :: "('m list \<Rightarrow> 's) \<Rightarrow> ('m, 's) assembly \<Rightarrow> ('m, 's) assembly" where
  "assembly_flush summ a =
     (if as_pending a = [] then a
      else a\<lparr>as_pending := [], as_forest := forest_push (as_forest a) (index_leaf summ (as_pending a))\<rparr>)"

definition assembly_push ::
  "('m list \<Rightarrow> 's) \<Rightarrow> 'm \<Rightarrow> ('m, 's) assembly \<Rightarrow> (unit, collection_error) result \<times> ('m, 's) assembly" where
  "assembly_push summ m a =
     (case checked_add usize_max (as_len a) 1 of
        None \<Rightarrow> (Err LengthOverflow, a)
      | Some n \<Rightarrow>
          let a = a\<lparr>as_pending := as_pending a @ [m], as_len := n\<rparr>
          in (Ok (), if length (as_pending a) = leaf_capacity then assembly_flush summ a else a))"

definition assembly_finish :: "('m list \<Rightarrow> 's) \<Rightarrow> ('m, 's) assembly \<Rightarrow> ('m, 's) index option" where
  "assembly_finish summ a = forest_finish (as_forest (assembly_flush summ a))"

function collect_leaves ::
  "('m list \<Rightarrow> 's) \<Rightarrow> ('m, 's) index list \<Rightarrow> 'm list \<Rightarrow> ('m, 's) index option" where
  "collect_leaves summ forest ms =
     (let group = take leaf_capacity ms in
      if group = [] then forest_finish forest
      else collect_leaves summ (forest_push forest (index_leaf summ group)) (drop leaf_capacity ms))"
  by pat_completeness auto

termination collect_leaves
  by (relation "measure (\<lambda>(summ, forest, ms). length ms)") (auto simp: leaf_capacity_def)

declare collect_leaves.simps [simp del]

definition collect_members :: "('m list \<Rightarrow> 's) \<Rightarrow> 'm list \<Rightarrow> ('m, 's) index option" where
  "collect_members summ ms = collect_leaves summ [] ms"

text \<open>\<open>From<Vec<Value>>\<close>; \<open>From<BTreeMap>\<close>, which iterates in key order.\<close>

definition list_from_vec :: "'v list \<Rightarrow> 'v value_list" where
  "list_from_vec vs = collect_members (\<lambda>_. ()) vs"

definition map_from_tree :: "'v entry list \<Rightarrow> 'v value_map" where
  "map_from_tree es = collect_members map_summary es"

section \<open>Builders\<close>

definition list_builder_push ::
  "'v \<Rightarrow> ('v, unit) assembly \<Rightarrow> (unit, collection_error) result \<times> ('v, unit) assembly" where
  "list_builder_push v b = assembly_push (\<lambda>_. ()) v b"

definition list_builder_finish :: "('v, unit) assembly \<Rightarrow> 'v value_list" where
  "list_builder_finish b = assembly_finish (\<lambda>_. ()) b"

definition last_key :: "('v entry, string) assembly \<Rightarrow> string option" where
  "last_key b =
     (case rev (as_pending b) of
        (k, _) # _ \<Rightarrow> Some k
      | [] \<Rightarrow> (case as_forest b of [] \<Rightarrow> None | tree # _ \<Rightarrow> Some (ix_summary tree)))"

definition map_builder_append ::
  "string \<Rightarrow> 'v \<Rightarrow> ('v entry, string) assembly \<Rightarrow>
   (unit, collection_error) result \<times> ('v entry, string) assembly" where
  "map_builder_append key v b =
     (case last_key b of
        Some greatest \<Rightarrow> if key \<le> greatest then (Err KeyOrder, b) else assembly_push map_summary (key, v) b
      | None \<Rightarrow> assembly_push map_summary (key, v) b)"

definition map_builder_finish :: "('v entry, string) assembly \<Rightarrow> 'v value_map" where
  "map_builder_finish b = assembly_finish map_summary b"

section \<open>Forests hold their members in order\<close>

definition forest_members :: "('m, 's) index list \<Rightarrow> 'm list" where
  "forest_members trees = concat (map members (rev trees))"

text \<open>Every tree is well formed and, from the top down, higher than the one before.\<close>

definition forest_ok :: "('m list \<Rightarrow> 's) \<Rightarrow> ('m, 's) index list \<Rightarrow> bool" where
  "forest_ok summ trees \<longleftrightarrow>
     (\<forall>t \<in> set trees. index_ok summ t) \<and> sorted_wrt (<) (map ix_height trees)"

lemma forest_members_simps [simp]:
  "forest_members [] = []" "forest_members (t # trees) = forest_members trees @ members t"
  by (simp_all add: forest_members_def)

lemma forest_push_ok:
  assumes "forest_ok summ trees" "index_ok summ tree" "\<And>t. t \<in> set trees \<Longrightarrow> ix_height tree \<le> ix_height t"
  shows "forest_ok summ (forest_push trees tree) \<and>
    forest_members (forest_push trees tree) = forest_members trees @ members tree"
  using assms
proof (induction trees tree rule: forest_push.induct)
  case (2 left trees tree)
  show ?case
  proof (cases "ix_height left = ix_height tree")
    case False
    then have "ix_height tree < ix_height left" using "2.prems"(3) [of left] by auto
    then show ?thesis using False "2.prems"(1,2) by (auto simp: forest_ok_def)
  next
    case True
    have ok: "index_ok summ left" "forest_ok summ trees" "\<And>t. t \<in> set trees \<Longrightarrow> ix_height left < ix_height t"
      using "2.prems"(1) by (auto simp: forest_ok_def)
    have "index_join left tree = index_branch left tree" using True by (subst index_join.simps) simp
    moreover have "index_ok summ (index_branch left tree)" using ok(1) "2.prems"(2) True by simp
    moreover have "ix_height (index_branch left tree) \<le> ix_height t" if "t \<in> set trees" for t
      using ok(3) [OF that] True by simp
    ultimately show ?thesis using "2.IH" ok(2) True by simp
  qed
qed (simp add: forest_ok_def)

lemma forest_fold_ok:
  "index_ok summ root \<Longrightarrow> (\<forall>t \<in> set trees. index_ok summ t) \<Longrightarrow>
   index_ok summ (foldl (\<lambda>root left. index_join left root) root trees) \<and>
   members (foldl (\<lambda>root left. index_join left root) root trees) = forest_members trees @ members root"
proof (induction trees arbitrary: root)
  case (Cons t trees)
  then show ?case using Cons.IH [of "index_join t root"] join_ok [of summ t root] by simp
qed simp

lemma forest_finish_ok:
  assumes "forest_ok summ trees" "length (forest_members trees) \<le> usize_max"
  shows "root_ok summ (forest_finish trees) \<and> root_members (forest_finish trees) = forest_members trees"
  using assms forest_fold_ok [of summ "hd trees" "tl trees"]
  by (cases trees) (auto simp: forest_ok_def)

text \<open>The forest has few trees: their heights are different and bounded.\<close>

lemma distinct_heights: "sorted_wrt (<) hs \<Longrightarrow> (\<forall>h \<in> set hs. h \<le> n) \<Longrightarrow> length hs \<le> n + 1" for hs :: "nat list"
  using card_mono [of "{..n}" "set hs"] by (auto simp: strict_sorted_iff distinct_card)

lemma forest_small:
  assumes "forest_ok summ trees" "length (forest_members trees) \<le> usize_max"
  shows "length trees \<le> 92"
proof -
  have "ix_height t \<le> 91" if "t \<in> set trees" for t
  proof -
    have "length (members t) \<le> length (forest_members trees)"
      using that by (auto simp: forest_members_def length_concat intro: member_le_sum_list)
    then show ?thesis using index_height [of summ t] assms that by (auto simp: forest_ok_def)
  qed
  then show ?thesis
    using distinct_heights [of "map ix_height trees" 91] assms(1) by (auto simp: forest_ok_def)
qed

section \<open>Assemblies refine appending to a list\<close>

definition assembly_members :: "('m, 's) assembly \<Rightarrow> 'm list" where
  "assembly_members a = forest_members (as_forest a) @ as_pending a"

definition assembly_ok :: "('m list \<Rightarrow> 's) \<Rightarrow> ('m, 's) assembly \<Rightarrow> bool" where
  "assembly_ok summ a \<longleftrightarrow> forest_ok summ (as_forest a) \<and> length (as_pending a) < leaf_capacity \<and>
     as_len a = length (assembly_members a) \<and> as_len a \<le> usize_max"

lemma assembly_flush_ok:
  assumes "forest_ok summ (as_forest a)" "length (as_pending a) \<le> leaf_capacity"
  shows "forest_ok summ (as_forest (assembly_flush summ a)) \<and>
    forest_members (as_forest (assembly_flush summ a)) = assembly_members a \<and>
    assembly_members (assembly_flush summ a) = assembly_members a \<and>
    as_pending (assembly_flush summ a) = [] \<and> as_len (assembly_flush summ a) = as_len a"
  using forest_push_ok [OF assms(1), of "index_leaf summ (as_pending a)"] assms
  by (auto simp: assembly_flush_def assembly_members_def)

lemma assembly_push_ok:
  assumes "assembly_ok summ a"
  shows "case assembly_push summ m a of (r, a') \<Rightarrow> assembly_ok summ a' \<and>
    (r, assembly_members a') =
      (if length (assembly_members a) < usize_max then (Ok (), assembly_members a @ [m])
       else (Err LengthOverflow, assembly_members a))"
proof (cases "length (assembly_members a) < usize_max")
  case True
  define b where "b = a\<lparr>as_pending := as_pending a @ [m], as_len := as_len a + 1\<rparr>"
  have b: "forest_ok summ (as_forest b)" "length (as_pending b) \<le> leaf_capacity"
    "assembly_members b = assembly_members a @ [m]" "as_len b = length (assembly_members b)"
    "as_len b \<le> usize_max"
    using assms True by (auto simp: assembly_ok_def assembly_members_def b_def)
  have "assembly_push summ m a =
      (Ok (), if length (as_pending b) = leaf_capacity then assembly_flush summ b else b)"
    using True assms by (simp add: assembly_push_def checked_add_def assembly_ok_def b_def)
  then show ?thesis
    using True b assembly_flush_ok [OF b(1,2)] by (auto simp: assembly_ok_def leaf_capacity_def)
next
  case False
  then show ?thesis using assms by (auto simp: assembly_push_def checked_add_def assembly_ok_def)
qed

lemma assembly_finish_ok:
  assumes "assembly_ok summ a"
  shows "root_ok summ (assembly_finish summ a) \<and> root_members (assembly_finish summ a) = assembly_members a"
  using forest_finish_ok [of summ "as_forest (assembly_flush summ a)"] assembly_flush_ok [of summ a] assms
  by (auto simp: assembly_finish_def assembly_ok_def)

lemma collect_leaves_ok:
  assumes "forest_ok summ forest" "length (forest_members forest) + length ms \<le> usize_max"
  shows "root_ok summ (collect_leaves summ forest ms) \<and>
    root_members (collect_leaves summ forest ms) = forest_members forest @ ms"
  using assms
proof (induction summ forest ms rule: collect_leaves.induct)
  case (1 summ forest ms)
  show ?case
  proof (cases "ms = []")
    case True
    then show ?thesis using forest_finish_ok "1.prems" by (subst (1 2) collect_leaves.simps) simp
  next
    case False
    let ?group = "take leaf_capacity ms"
    have ne: "?group \<noteq> []" using False by (simp add: leaf_capacity_def)
    have push: "forest_ok summ (forest_push forest (index_leaf summ ?group))"
      "forest_members (forest_push forest (index_leaf summ ?group)) = forest_members forest @ ?group"
      using forest_push_ok [OF "1.prems"(1), of "index_leaf summ ?group"] ne by simp_all
    have "collect_leaves summ forest ms =
        collect_leaves summ (forest_push forest (index_leaf summ ?group)) (drop leaf_capacity ms)"
      using ne by (subst collect_leaves.simps) (simp add: Let_def)
    then show ?thesis using "1.IH" [OF refl ne push(1)] push(2) "1.prems"(2) by simp
  qed
qed

lemma collect_members_ok:
  "length ms \<le> usize_max \<Longrightarrow> root_ok summ (collect_members summ ms) \<and> root_members (collect_members summ ms) = ms"
  using collect_leaves_ok [of summ "[]" ms] by (simp add: collect_members_def forest_ok_def)

end
