(* ===== verification/Collection_Contract.thy ===== *)
theory Collection_Contract
  imports Value_Assembly
begin

text \<open>
  What the persistent collections promise: under every sequence of calls a sequence answers as a list
  and a map as a finite map, iteration and positions follow the order, heights stay within a byte,
  and builders publish exactly what they accepted.
\<close>

section \<open>Builders\<close>

definition plain_append :: "'v \<Rightarrow> 'v list \<Rightarrow> (unit, collection_error) result \<times> 'v list" where
  "plain_append v xs =
     (if length xs < usize_max then (Ok (), xs @ [v]) else (Err LengthOverflow, xs))"

definition ordered_append ::
  "'v entry \<Rightarrow> 'v entry list \<Rightarrow> (unit, collection_error) result \<times> 'v entry list" where
  "ordered_append e es =
     (if es \<noteq> [] \<and> fst e \<le> fst (last es) then (Err KeyOrder, es) else plain_append e es)"

definition map_builder_ok :: "('v entry, string) assembly \<Rightarrow> bool" where
  "map_builder_ok b \<longleftrightarrow> assembly_ok map_summary b \<and> ordered (assembly_members b)"

interpretation list_builders: refined_object "assembly_ok (\<lambda>_. ())" assembly_members
    list_builder_push plain_append "\<lambda>_. True"
proof (unfold_locales, goal_cases)
  case (1 b v)
  then show ?case
    using assembly_push_ok [of "\<lambda>_. ()" b v] by (auto simp: list_builder_push_def split: prod.splits)
next
  case (2 b v)
  then show ?case
    using assembly_push_ok [of "\<lambda>_. ()" b v]
    by (auto simp: list_builder_push_def plain_append_def split: prod.splits if_splits)
qed

lemma last_key_eq:
  assumes "assembly_ok map_summary b"
  shows "last_key b = (if assembly_members b = [] then None else Some (fst (last (assembly_members b))))"
proof (cases "as_pending b" rule: rev_cases)
  case Nil
  show ?thesis
  proof (cases "as_forest b")
    case (Cons t trees)
    then have "index_ok map_summary t" using assms by (simp add: assembly_ok_def forest_ok_def)
    then show ?thesis
      using Nil Cons index_summary [of t] index_members [of map_summary t]
      by (simp add: last_key_def assembly_members_def)
  qed (simp add: Nil last_key_def assembly_members_def)
qed (auto simp: last_key_def assembly_members_def)

lemma ordered_snoc:
  assumes "ordered es" "es = [] \<or> fst (last es) < k"
  shows "ordered (es @ [(k, v)])"
proof -
  have "fst e < k" if "e \<in> set es" for e
    using ordered_last [OF assms(1) that] assms(2) that by (cases "es = []") auto
  then show ?thesis using assms(1) by (simp add: sorted_wrt_append)
qed

lemma map_builder_append_ok:
  assumes "map_builder_ok b"
  shows "case map_builder_append k v b of (r, b') \<Rightarrow>
    map_builder_ok b' \<and> (r, assembly_members b') = ordered_append (k, v) (assembly_members b)"
proof (cases "assembly_members b \<noteq> [] \<and> k \<le> fst (last (assembly_members b))")
  case True
  then show ?thesis
    using assms by (simp add: map_builder_append_def last_key_eq map_builder_ok_def ordered_append_def)
next
  case False
  have "map_builder_append k v b = assembly_push map_summary (k, v) b"
    using False assms by (auto simp: map_builder_append_def last_key_eq map_builder_ok_def)
  moreover have "ordered (assembly_members b @ [(k, v)])"
    using False assms by (intro ordered_snoc) (auto simp: map_builder_ok_def)
  ultimately show ?thesis
    using False assms assembly_push_ok [of map_summary b "(k, v)"]
    by (auto simp: map_builder_ok_def ordered_append_def plain_append_def split: prod.splits if_splits)
qed

interpretation map_builders: refined_object map_builder_ok assembly_members
    "\<lambda>(k, v). map_builder_append k v" ordered_append "\<lambda>_. True"
proof (unfold_locales, goal_cases)
  case (1 b e)
  then show ?case using map_builder_append_ok [of b "fst e" "snd e"] by (auto split: prod.splits)
next
  case (2 b e)
  then show ?case using map_builder_append_ok [of b "fst e" "snd e"] by (auto split: prod.splits)
qed

lemma map_ok_None [simp]: "map_ok None"
  by (simp add: map_ok_def)

lemma assembly_new_ok [simp]:
  "assembly_ok summ assembly_new" "map_builder_ok assembly_new" "assembly_members assembly_new = []"
  by (simp_all add: assembly_ok_def map_builder_ok_def assembly_new_def assembly_members_def forest_ok_def
      leaf_capacity_def)

section \<open>Iteration\<close>

lemma plain_next_run:
  "run_calls (\<lambda>_. plain_next) (replicate n ()) xs = (map (\<lambda>i. Return (get xs i)) [0..<n], drop n xs)"
proof (induction n arbitrary: xs)
  case (Suc n)
  have upt: "[0..<Suc n] = 0 # map Suc [0..<n]" by (simp add: map_Suc_upt upt_conv_Cons del: upt_Suc)
  have head: "plain_next xs = (Return (get xs 0), tl xs)"
    by (cases xs) (simp_all add: plain_next_def get_def)
  have tail: "get xs (Suc i) = get (tl xs) i" for i by (cases xs) (simp_all add: get_def)
  show ?case
    unfolding replicate_Suc run_calls.simps head upt list.map map_map
    by (simp add: Suc tail drop_Suc comp_def)
qed simp

lemma iteration:
  assumes "root_ok summ root"
  shows "fst (run_calls (\<lambda>_. iter_next) (replicate n ()) (iter_new root)) =
    map (\<lambda>i. Return (get (root_members root) i)) [0..<n]"
  using iters.run_refines [of "iter_new root" "replicate n ()"] iter_new_ok [OF assms]
  by (simp add: plain_next_run list_all_iff)

section \<open>Publishing\<close>

lemma list_builder_run:
  assumes "run_calls list_builder_push vs assembly_new = (rs, b)"
  shows "assembly_ok (\<lambda>_. ()) b" "run_calls plain_append vs [] = (rs, assembly_members b)"
  using list_builders.run_refines [of assembly_new vs] assms by (simp_all add: list_all_iff)

lemma map_builder_run:
  assumes "run_calls (\<lambda>(k, v). map_builder_append k v) es assembly_new = (ks, c)"
  shows "map_builder_ok c" "run_calls ordered_append es [] = (ks, assembly_members c)"
  using map_builders.run_refines [of assembly_new es] assms by (simp_all add: list_all_iff)

lemma list_published:
  "assembly_ok (\<lambda>_. ()) b \<Longrightarrow> list_ok (list_builder_finish b) \<and> root_members (list_builder_finish b) = assembly_members b"
  using assembly_finish_ok [of "\<lambda>_. ()" b] by (simp add: list_builder_finish_def)

lemma map_published:
  "map_builder_ok c \<Longrightarrow> map_ok (map_builder_finish c) \<and> root_members (map_builder_finish c) = assembly_members c"
  using assembly_finish_ok [of map_summary c] by (simp add: map_builder_finish_def map_builder_ok_def map_ok_def)

lemma map_converted:
  "ordered ts \<Longrightarrow> length ts \<le> usize_max \<Longrightarrow> map_ok (map_from_tree ts) \<and> root_members (map_from_tree ts) = ts"
  using collect_members_ok [of ts map_summary] by (simp add: map_from_tree_def map_ok_def)

lemma builder_small: "assembly_ok summ b \<Longrightarrow> length (as_forest b) \<le> 92"
  using forest_small [of summ "as_forest b"] by (simp add: assembly_ok_def assembly_members_def)

section \<open>The contract\<close>

text \<open>
  C26: a persistent sequence is a list. After any calls of \<open>push\<close>, \<open>set\<close>, \<open>remove_prefix\<close>, \<open>concat\<close>,
  \<open>get\<close>, \<open>first\<close>, \<open>last\<close> and \<open>len\<close>, starting from the empty sequence, every answer, errors included,
  is the answer of a plain list; no call panics; iterating yields the members in order and then
  nothing, with an exact count of what remains.
\<close>

theorem value_list_refines_lists:
  assumes "list_all list_call_ok ops" "run_calls list_call ops None = (answers, s)"
  shows "run_calls plain_call ops [] = (answers, root_members s) \<and>
    fst (run_calls (\<lambda>_. iter_next) (replicate n ()) (iter_new s)) =
      map (\<lambda>i. Return (get (root_members s) i)) [0..<n]"
  using lists.run_refines [of None ops] assms iteration [of "\<lambda>_. ()" s n] by simp

theorem value_list_refines_lists_witness:
  "fst (run_calls plain_call [L_Push (1 :: nat), L_Push 2, L_Set 0 5, L_Remove_Prefix 1, L_Len] []) =
   [LA_Done (Return ()), LA_Done (Return ()), LA_Previous (Return (Some 1)), LA_Done (Return ()), LA_Len 1]"
proof -
  let ?ops = "[L_Push (1 :: nat), L_Push 2, L_Set 0 5, L_Remove_Prefix 1, L_Len]"
  have "run_calls list_call ?ops None =
      ([LA_Done (Return ()), LA_Done (Return ()), LA_Previous (Return (Some 1)), LA_Done (Return ()), LA_Len 1],
       Some (list_leaf [2]))"
    by (simp add: list_push_def list_set_def remove_prefix_def list_len_def checked_add_def usize_max_def
        leaf_capacity_def index_leaf_def)
  from value_list_refines_lists [OF _ this, of 0] show ?thesis by simp
qed

text \<open>
  C27: a persistent map is a finite map. After any calls of \<open>insert\<close>, \<open>remove\<close>, \<open>get\<close>, \<open>contains_key\<close>,
  \<open>get_index\<close> and \<open>len\<close>, starting from the empty map, every answer, errors included, is the answer
  of a finite map, with positions counted in key order. The members are stored in strict key order,
  and iterating yields them in that order.
\<close>

theorem value_map_refines_maps:
  assumes "run_calls map_call ops None = (answers, s)"
  shows "run_calls finite_call ops Map.empty = (answers, map_of (root_members s)) \<and>
    root_members s = entries_of (map_of (root_members s)) \<and> ordered (root_members s) \<and>
    fst (run_calls (\<lambda>_. iter_next) (replicate n ()) (iter_new s)) =
      map (\<lambda>i. Return (get (root_members s) i)) [0..<n]"
proof -
  have "map_ok s" "run_calls finite_call ops Map.empty = (answers, map_of (root_members s))"
    using maps.run_refines [of None ops] assms by (simp_all add: list_all_iff)
  then show ?thesis
    using iteration [of map_summary s n] entries_of_ordered [of "root_members s"] by (simp add: map_ok_def)
qed

theorem value_map_refines_maps_witness:
  "fst (run_calls finite_call [M_Insert ''b'' (1 :: nat), M_Insert ''a'' 2, M_Get_Index 0, M_Remove ''b'', M_Len]
     Map.empty) =
   [MA_Inserted (Ok None), MA_Inserted (Ok None), MA_Entry (Some (''a'', 2)), MA_Value (Some 1), MA_Len 1]"
proof -
  let ?ops = "[M_Insert ''b'' (1 :: nat), M_Insert ''a'' 2, M_Get_Index 0, M_Remove ''b'', M_Len]"
  have "run_calls map_call ?ops None =
      ([MA_Inserted (Ok None), MA_Inserted (Ok None), MA_Entry (Some (''a'', 2)), MA_Value (Some 1), MA_Len 1],
       Some (map_leaf [(''a'', 2)]))"
    by (simp add: map_insert_def map_remove_def map_get_index_def map_get_def map_len_def checked_add_def
        usize_max_def leaf_capacity_def index_leaf_def binary_search_def bisect.simps get_def less_char_def Let_def)
  from value_map_refines_maps [OF this, of 0] show ?thesis by simp
qed

text \<open>
  C34: the balanced index never outgrows its cached fields. Take the empty collection, what a builder
  publishes after any calls, or what a vector or an ordered tree converts to, and then any calls of
  the collection: the cached length of the root is the number of its members, and the height, a byte
  in the source, is at most 91. Neither kind of builder ever holds more than 92 trees.
\<close>

theorem collection_heights_bounded:
  assumes "run_calls list_builder_push vs assembly_new = (rs, b)"
    and "run_calls (\<lambda>(k, v). map_builder_append k v) es assembly_new = (ks, c)"
    and "length us \<le> usize_max" "ordered ts" "length ts \<le> usize_max"
    and "ls0 = None \<or> ls0 = list_builder_finish b \<or> ls0 = list_from_vec us"
    and "ms0 = None \<or> ms0 = map_builder_finish c \<or> ms0 = map_from_tree ts"
    and "list_all list_call_ok lops" "run_calls list_call lops ls0 = (las, ls)"
    and "run_calls map_call mops ms0 = (mas, ms)"
  shows "(\<forall>t. ls = Some t \<longrightarrow> ix_len t = length (members t) \<and> ix_height t \<le> 91) \<and>
    (\<forall>t. ms = Some t \<longrightarrow> ix_len t = length (members t) \<and> ix_height t \<le> 91) \<and>
    length (as_forest b) \<le> 92 \<and> length (as_forest c) \<le> 92"
proof -
  note b = list_builder_run [OF assms(1)] and c = map_builder_run [OF assms(2)]
  have "list_ok ls0" using assms(6) list_published [OF b(1)] collect_members_ok [OF assms(3), of "\<lambda>_. ()"]
    by (auto simp: list_from_vec_def)
  then have "list_ok ls" using lists.run_refines [of ls0 lops] assms(8,9) by simp
  moreover have "map_ok ms0" using assms(7) map_published [OF c(1)] map_converted [OF assms(4,5)] by auto
  then have "map_ok ms" using maps.run_refines [of ms0 mops] assms(10) by (simp add: list_all_iff)
  ultimately show ?thesis
    using builder_small [of "\<lambda>_. ()" b] builder_small [of map_summary c] b(1) c(1)
    by (auto simp: map_builder_ok_def map_ok_def index_len intro: index_height)
qed

theorem collection_heights_bounded_witness:
  "\<exists>t. snd (run_calls list_call [L_Push (1 :: nat)] (list_from_vec [7])) = Some t \<and> ix_height t \<le> 91"
proof -
  have vec: "list_from_vec [7] = Some (list_leaf [7 :: nat])"
    by (simp add: list_from_vec_def collect_members_def collect_leaves.simps leaf_capacity_def index_leaf_def)
  have run: "run_calls list_call [L_Push (1 :: nat)] (list_from_vec [7]) = ([LA_Done (Return ())], Some (list_leaf [7, 1]))"
    by (simp add: vec list_push_def list_len_def checked_add_def usize_max_def leaf_capacity_def index_leaf_def)
  have "length [7 :: nat] \<le> usize_max" "ordered ([] :: nat entry list)" "length ([] :: nat entry list) \<le> usize_max"
    "list_all list_call_ok [L_Push (1 :: nat)]"
    by (simp_all add: usize_max_def)
  then have "\<forall>t. Some (list_leaf [7, 1 :: nat]) = Some t \<longrightarrow> ix_height t \<le> 91"
    using collection_heights_bounded [OF run_calls.simps(1) run_calls.simps(1) _ _ _ _ _ _ run run_calls.simps(1),
        of "[7]" "[]" None] by blast
  then show ?thesis unfolding run by simp
qed

text \<open>
  C35: builders and conversions publish exactly the accepted members. A list built from a vector has
  the members of the vector, a map built from an ordered tree its entries; a list builder accepts
  every member up to the length limit; a map builder accepts an entry exactly when its key is above
  all accepted keys and leaves the accepted entries alone otherwise; the published list or map holds
  the accepted members in order.
\<close>

theorem builders_publish_accepted:
  assumes "run_calls list_builder_push vs assembly_new = (rs, b)"
    and "run_calls (\<lambda>(k, v). map_builder_append k v) es assembly_new = (ks, c)"
    and "length us \<le> usize_max" "ordered ts" "length ts \<le> usize_max"
  shows "run_calls plain_append vs [] = (rs, root_members (list_builder_finish b)) \<and>
    run_calls ordered_append es [] = (ks, root_members (map_builder_finish c)) \<and>
    map_ok (map_builder_finish c) \<and> root_members (list_from_vec us) = us \<and>
    map_ok (map_from_tree ts) \<and> root_members (map_from_tree ts) = ts"
  using list_builder_run [OF assms(1)] map_builder_run [OF assms(2)] list_published [of b] map_published [of c]
    collect_members_ok [OF assms(3), of "\<lambda>_. ()"] map_converted [OF assms(4,5)]
  by (simp add: list_from_vec_def)

theorem builders_publish_accepted_witness:
  "fst (run_calls ordered_append [(''a'', 1 :: nat), (''a'', 2), (''b'', 3)] []) =
   [Ok (), Err KeyOrder, Ok ()]"
proof -
  have "fst (run_calls (\<lambda>(k, v). map_builder_append k v) [(''a'', 1 :: nat), (''a'', 2), (''b'', 3)]
      assembly_new) = [Ok (), Err KeyOrder, Ok ()]"
    by (simp add: map_builder_append_def last_key_def assembly_push_def assembly_new_def checked_add_def
        usize_max_def leaf_capacity_def less_char_def)
  then show ?thesis
    using builders_publish_accepted [OF surjective_pairing surjective_pairing, of "[]" "[]"
        "[]" "[(''a'', 1 :: nat), (''a'', 2), (''b'', 3)]"] by (auto simp del: run_calls.simps)
qed

end
