(* ===== verification/Provenance.thy ===== *)
theory Provenance
  imports Value_Data Path_Syntax
begin

text \<open>
  Failures (\<open>xolotl-types/src/failure.rs\<close>) and provenance labels (\<open>taint.rs\<close>, \<open>taint/value.rs\<close>,
  \<open>taint/failure.rs\<close>): the sources a value's lineage has touched, and values and failures that carry
  them. Two sets that share storage are equal, so the shortcuts on pointer equality in \<open>union\<close> and
  \<open>contains_all\<close> only skip work; they are not part of the model.
\<close>

section \<open>Failures\<close>

datatype failure =
    F_PermissionDenied "string list" "string list"
  | F_NoHandler path
  | F_BudgetExhausted string
  | F_RateLimited
  | F_ApprovalPending string string
  | F_Timeout
  | F_Cancelled
  | F_OutcomeUnknown "string list" string
  | F_InvalidInput string
  | F_HandlerError string string
  | F_KernelNamespaceProtected
  | F_PolicyViolation string string
  | F_PathInvalid path string
  | F_Custom string string

definition failure_policy :: "string \<Rightarrow> string \<Rightarrow> failure" where
  "failure_policy name detail = F_PolicyViolation name detail"

definition failure_path_invalid :: "path \<Rightarrow> string \<Rightarrow> failure" where
  "failure_path_invalid p reason = F_PathInvalid p reason"

text \<open>\<open>debug\<close> is the derived \<open>Debug\<close> text of a vector of strings.\<close>

fun failure_display :: "(string list \<Rightarrow> string) \<Rightarrow> failure \<Rightarrow> string" where
  "failure_display debug (F_PermissionDenied required _) = ''permission denied (required: '' @ debug required @ '')''"
| "failure_display debug (F_NoHandler p) = ''no handler for '' @ path_display p"
| "failure_display debug (F_BudgetExhausted dim) = ''budget exhausted: '' @ dim"
| "failure_display debug F_RateLimited = ''rate limited''"
| "failure_display debug (F_ApprovalPending key reason) = ''approval pending ('' @ key @ ''): '' @ reason"
| "failure_display debug F_Timeout = ''timeout''"
| "failure_display debug F_Cancelled = ''cancelled''"
| "failure_display debug (F_OutcomeUnknown ids reason) = ''outcome unknown for '' @ debug ids @ '': '' @ reason"
| "failure_display debug (F_InvalidInput reason) = ''invalid input: '' @ reason"
| "failure_display debug (F_HandlerError _ message) = ''handler: '' @ message"
| "failure_display debug F_KernelNamespaceProtected = ''kernel namespace protected''"
| "failure_display debug (F_PolicyViolation name detail) = ''policy violation ('' @ name @ ''): '' @ detail"
| "failure_display debug (F_PathInvalid p reason) = ''invalid path ('' @ path_display p @ ''): '' @ reason"
| "failure_display debug (F_Custom _ message) = message"

section \<open>Sources\<close>

datatype taint_source =
    AuthorConstant
  | ModelOutput
  | Inbound string string
  | Fetched string
  | Protected path

definition is_protected :: "taint_source \<Rightarrow> bool" where
  "is_protected s = (case s of Protected _ \<Rightarrow> True | _ \<Rightarrow> False)"

definition is_untrusted_content :: "taint_source \<Rightarrow> bool" where
  "is_untrusted_content s = (case s of ModelOutput \<Rightarrow> True | Inbound _ _ \<Rightarrow> True | Fetched _ \<Rightarrow> True | _ \<Rightarrow> False)"

text \<open>The storage is absent for a pristine set.\<close>

datatype taint_set = Taint_Set (ts_sources: "taint_source list option")

definition taint_pristine :: taint_set where
  "taint_pristine = Taint_Set None"

definition from_recorded_sources :: "taint_source list \<Rightarrow> taint_set" where
  "from_recorded_sources xs = Taint_Set (if xs \<noteq> [] then Some xs else None)"

definition taint_of :: "taint_source \<Rightarrow> taint_set" where
  "taint_of s = Taint_Set (Some [s])"

definition taint_author :: taint_set where
  "taint_author = taint_of AuthorConstant"

definition taint_sources :: "taint_set \<Rightarrow> taint_source list" where
  "taint_sources t = (case ts_sources t of None \<Rightarrow> [] | Some xs \<Rightarrow> xs)"

definition push_recorded_source :: "taint_set \<Rightarrow> taint_source \<Rightarrow> taint_set" where
  "push_recorded_source t s =
     (case ts_sources t of
        Some xs \<Rightarrow> Taint_Set (Some (xs @ [s]))
      | None \<Rightarrow> Taint_Set (Some [s]))"

definition taint_add :: "taint_set \<Rightarrow> taint_source \<Rightarrow> taint_set" where
  "taint_add t s =
     (if s \<notin> set (taint_sources t)
      then Taint_Set (Some ((case ts_sources t of None \<Rightarrow> [] | Some xs \<Rightarrow> xs) @ [s])) else t)"

definition taint_union :: "taint_set \<Rightarrow> taint_set \<Rightarrow> taint_set" where
  "taint_union t other = foldl taint_add t (taint_sources other)"

definition taint_merged :: "taint_set \<Rightarrow> taint_set \<Rightarrow> taint_set" where
  "taint_merged t other = taint_union t other"

definition taint_contains_all :: "taint_set \<Rightarrow> taint_set \<Rightarrow> bool" where
  "taint_contains_all t required = list_all (\<lambda>s. s \<in> set (taint_sources t)) (taint_sources required)"

definition has_protected :: "taint_set \<Rightarrow> bool" where
  "has_protected t = list_ex is_protected (taint_sources t)"

definition has_untrusted_content :: "taint_set \<Rightarrow> bool" where
  "has_untrusted_content t = list_ex is_untrusted_content (taint_sources t)"

definition is_pristine :: "taint_set \<Rightarrow> bool" where
  "is_pristine t \<longleftrightarrow> ts_sources t = None"

record tainted_value =
  tv_value :: xvalue
  tv_taint :: taint_set

record tainted_failure =
  tf_failure :: failure
  tf_taint :: taint_set

definition value_pristine :: "xvalue \<Rightarrow> tainted_value" where
  "value_pristine v = \<lparr>tv_value = v, tv_taint = taint_pristine\<rparr>"

definition failure_pristine :: "failure \<Rightarrow> tainted_failure" where
  "failure_pristine f = \<lparr>tf_failure = f, tf_taint = taint_pristine\<rparr>"

definition into_value :: "(string list \<Rightarrow> string) \<Rightarrow> tainted_failure \<Rightarrow> tainted_value" where
  "into_value debug f = \<lparr>tv_value = V_Str (failure_display debug (tf_failure f)), tv_taint = tf_taint f\<rparr>"

section \<open>Laws of the labels\<close>

lemma sources_simps [simp]:
  "taint_sources taint_pristine = []" "taint_sources (taint_of s) = [s]"
  "taint_sources taint_author = [AuthorConstant]" "taint_sources (from_recorded_sources xs) = xs"
  by (simp_all add: taint_sources_def taint_pristine_def taint_of_def taint_author_def from_recorded_sources_def)

lemma sources_push [simp]: "taint_sources (push_recorded_source t s) = taint_sources t @ [s]"
  by (simp add: push_recorded_source_def taint_sources_def split: option.split)

lemma sources_add: "taint_sources (taint_add t s) = (if s \<in> set (taint_sources t) then taint_sources t else taint_sources t @ [s])"
  by (simp add: taint_add_def taint_sources_def split: option.split)

lemma set_add [simp]: "set (taint_sources (taint_add t s)) = insert s (set (taint_sources t))"
  by (auto simp: sources_add)

lemma set_union [simp]: "set (taint_sources (taint_union t u)) = set (taint_sources t) \<union> set (taint_sources u)"
proof -
  have "set (taint_sources (foldl taint_add t xs)) = set (taint_sources t) \<union> set xs" for xs
    by (induction xs arbitrary: t) auto
  then show ?thesis by (simp add: taint_union_def)
qed

lemma distinct_union: "distinct (taint_sources t) \<Longrightarrow> distinct (taint_sources (taint_union t u))"
proof -
  have "distinct (taint_sources t) \<Longrightarrow> distinct (taint_sources (foldl taint_add t xs))" for xs
    by (induction xs arbitrary: t) (simp_all add: sources_add)
  then show "distinct (taint_sources t) \<Longrightarrow> distinct (taint_sources (taint_union t u))"
    by (simp add: taint_union_def)
qed

lemma union_absorbs: "set (taint_sources u) \<subseteq> set (taint_sources t) \<Longrightarrow> taint_union t u = t"
proof -
  have "set xs \<subseteq> set (taint_sources t) \<Longrightarrow> foldl taint_add t xs = t" for xs
    by (induction xs) (simp_all add: taint_add_def)
  then show "set (taint_sources u) \<subseteq> set (taint_sources t) \<Longrightarrow> taint_union t u = t"
    by (simp add: taint_union_def)
qed

lemma union_self [simp]: "taint_union t t = t"
  by (simp add: union_absorbs)

lemma contains_all_iff: "taint_contains_all t u \<longleftrightarrow> set (taint_sources u) \<subseteq> set (taint_sources t)"
  by (auto simp: taint_contains_all_def list_all_iff)

lemma has_protected_union [simp]: "has_protected (taint_union t u) \<longleftrightarrow> has_protected t \<or> has_protected u"
  by (auto simp: has_protected_def list_ex_iff)

lemma has_untrusted_union [simp]:
  "has_untrusted_content (taint_union t u) \<longleftrightarrow> has_untrusted_content t \<or> has_untrusted_content u"
  by (auto simp: has_untrusted_content_def list_ex_iff)

end
