(* ===== verification/Do_Program.thy ===== *)
theory Do_Program
  imports Provenance Path_Laws
begin

text \<open>
  The native program front end, \<open>xolotl-graph/src/do_.rs\<close>, with the leaf types of \<open>graph.rs\<close>: the
  computation tree \<open>DoNode\<close>, its combinators, the walks over it and the binding of process-local
  paths. The walks of the source pop nodes from an explicit stack and push children so that the
  first child is popped first: the stack is a list with its top at the head.
\<close>

section \<open>Programs\<close>

datatype output_mode = Out_Unary | Out_Stream | Out_Collect usize | Out_AsyncProcess | Out_SinkOnly

record step_ref =
  sf_name :: string
  sf_arg :: "xvalue option"

record operation_template =
  ot_target :: path
  ot_method :: string
  ot_method_id :: "u64 option"
  ot_output :: output_mode
  ot_literal_input :: "xvalue option"

datatype wait_spec = Wait_Signal path | Wait_Deadline int

datatype do_node =
    D_Pure xvalue
  | D_AndThen do_node step_ref
  | D_OrElse do_node step_ref
  | D_Finally do_node do_node
  | D_Both do_node do_node
  | D_Race do_node do_node
  | D_Let string do_node do_node
  | D_Use string
  | D_Acting path do_node
  | D_Fail failure
  | D_Wait wait_spec
  | D_Op operation_template

definition step_new :: "string \<Rightarrow> step_ref" where
  "step_new name = \<lparr>sf_name = name, sf_arg = None\<rparr>"

definition step_with_arg :: "step_ref \<Rightarrow> xvalue \<Rightarrow> step_ref" where
  "step_with_arg s v = s\<lparr>sf_arg := Some v\<rparr>"

fun has_children :: "do_node \<Rightarrow> bool" where
  "has_children (D_Pure _) = False"
| "has_children (D_Use _) = False"
| "has_children (D_Fail _) = False"
| "has_children (D_Wait _) = False"
| "has_children (D_Op _) = False"
| "has_children _ = True"

text \<open>The children a walk pushes, the next one to be popped first.\<close>

fun do_children :: "do_node \<Rightarrow> do_node list" where
  "do_children (D_AndThen d _) = [d]"
| "do_children (D_OrElse d _) = [d]"
| "do_children (D_Acting _ d) = [d]"
| "do_children (D_Finally body cleanup) = [body, cleanup]"
| "do_children (D_Let _ v body) = [v, body]"
| "do_children (D_Both a b) = [a, b]"
| "do_children (D_Race a b) = [a, b]"
| "do_children _ = []"

section \<open>Combinators\<close>

definition do_map :: "do_node \<Rightarrow> step_ref \<Rightarrow> do_node" where
  "do_map d s = D_AndThen d s"

definition bracket :: "do_node \<Rightarrow> step_ref \<Rightarrow> step_ref \<Rightarrow> do_node" where
  "bracket acquire body_step release_step =
     (let resource = ''__bracket_resource'' in
      D_Let resource acquire
        (D_Finally (D_AndThen (D_Use resource) body_step) (D_AndThen (D_Use resource) release_step)))"

fun retry :: "do_node \<Rightarrow> u32 \<Rightarrow> step_ref \<Rightarrow> do_node" where
  "retry d 0 recover = d"
| "retry d (Suc n) recover = retry (D_OrElse d recover) n recover"

section \<open>Walks\<close>

text \<open>The size of a stack bounds what is left of a walk.\<close>

fun nodes_of :: "do_node \<Rightarrow> nat" where
  "nodes_of (D_AndThen d _) = Suc (nodes_of d)"
| "nodes_of (D_OrElse d _) = Suc (nodes_of d)"
| "nodes_of (D_Acting _ d) = Suc (nodes_of d)"
| "nodes_of (D_Finally a b) = Suc (nodes_of a + nodes_of b)"
| "nodes_of (D_Let _ a b) = Suc (nodes_of a + nodes_of b)"
| "nodes_of (D_Both a b) = Suc (nodes_of a + nodes_of b)"
| "nodes_of (D_Race a b) = Suc (nodes_of a + nodes_of b)"
| "nodes_of _ = 1"

lemma nodes_children: "sum_list (map nodes_of (do_children n)) = nodes_of n - 1" "0 < nodes_of n"
  by (cases n; simp)+

function size_loop :: "usize \<Rightarrow> do_node list \<Rightarrow> usize" where
  "size_loop count [] = count"
| "size_loop count (n # pending) = size_loop (count + 1) (do_children n @ pending)"
  by pat_completeness auto
termination
  by (relation "measure (\<lambda>(_, ns). sum_list (map nodes_of ns))") (auto simp: nodes_children)

definition do_size :: "do_node \<Rightarrow> usize" where
  "do_size n = size_loop 0 [n]"

function depth_loop :: "usize \<Rightarrow> (do_node \<times> usize) list \<Rightarrow> bool" where
  "depth_loop limit [] = False"
| "depth_loop limit ((n, depth) # pending) =
     (if limit < depth then True else depth_loop limit (map (\<lambda>c. (c, depth + 1)) (do_children n) @ pending))"
  by pat_completeness auto
termination
  by (relation "measure (\<lambda>(_, ns). sum_list (map (nodes_of \<circ> fst) ns))") (auto simp: comp_def nodes_children)

definition exceeds_depth :: "do_node \<Rightarrow> usize \<Rightarrow> bool" where
  "exceeds_depth n limit =
     (if limit = 0 then True else if \<not> has_children n then False else depth_loop limit [(n, 1)])"

function ops_loop :: "operation_template list \<Rightarrow> do_node list \<Rightarrow> operation_template list" where
  "ops_loop out [] = out"
| "ops_loop out (n # pending) =
     (case n of
        D_Op t \<Rightarrow> ops_loop (out @ [t]) pending
      | _ \<Rightarrow> ops_loop out (do_children n @ pending))"
  by pat_completeness auto
termination
  by (relation "measure (\<lambda>(_, ns). sum_list (map nodes_of ns))") (auto simp: nodes_children)

definition ops :: "do_node \<Rightarrow> operation_template list" where
  "ops n = ops_loop [] [n]"

section \<open>Process-local paths\<close>

text \<open>The decimal text of an integer.\<close>

function decimal :: "nat \<Rightarrow> string" where
  "decimal n = (if n < 10 then [char_of (48 + n)] else decimal (n div 10) @ [char_of (48 + n mod 10)])"
  by pat_completeness auto
termination by (relation "measure id") auto

declare decimal.simps [simp del]

fun push_segments :: "path \<Rightarrow> string list \<Rightarrow> (path, path_error) result" where
  "push_segments p [] = Ok p"
| "push_segments p (s # ss) = bind_result (path_try_push p s) (\<lambda>p. push_segments p ss)"

definition names_self :: "string list \<Rightarrow> bool" where
  "names_self segments \<longleftrightarrow> get segments 0 = Some ''process'' \<and> get segments 1 = Some ''self''"

definition bind_process_self_path :: "u64 \<Rightarrow> path \<Rightarrow> (path, path_error) result" where
  "bind_process_self_path process p =
     (if p_scheme p \<noteq> ''state'' \<or> p_cluster p \<noteq> None \<or> \<not> names_self (p_segments p) then Ok p
      else
        bind_result (path_try_new ''state'') (\<lambda>bound.
        bind_result (path_try_push bound ''process'') (\<lambda>bound.
        bind_result (path_try_push bound (decimal process)) (\<lambda>bound.
          push_segments bound (drop 2 (p_segments p))))))"

text \<open>
  The source rewrites in place and stops at the first path it cannot bind; the order of the stack is
  the order of this recursion.
\<close>

fun bind_process_paths :: "u64 \<Rightarrow> do_node \<Rightarrow> (do_node, path_error) result" where
  "bind_process_paths p (D_AndThen d s) = bind_result (bind_process_paths p d) (\<lambda>d. Ok (D_AndThen d s))"
| "bind_process_paths p (D_OrElse d s) = bind_result (bind_process_paths p d) (\<lambda>d. Ok (D_OrElse d s))"
| "bind_process_paths p (D_Acting i d) = bind_result (bind_process_paths p d) (\<lambda>d. Ok (D_Acting i d))"
| "bind_process_paths p (D_Finally a b) =
     bind_result (bind_process_paths p a) (\<lambda>a. bind_result (bind_process_paths p b) (\<lambda>b. Ok (D_Finally a b)))"
| "bind_process_paths p (D_Both a b) =
     bind_result (bind_process_paths p a) (\<lambda>a. bind_result (bind_process_paths p b) (\<lambda>b. Ok (D_Both a b)))"
| "bind_process_paths p (D_Race a b) =
     bind_result (bind_process_paths p a) (\<lambda>a. bind_result (bind_process_paths p b) (\<lambda>b. Ok (D_Race a b)))"
| "bind_process_paths p (D_Let x a b) =
     bind_result (bind_process_paths p a) (\<lambda>a. bind_result (bind_process_paths p b) (\<lambda>b. Ok (D_Let x a b)))"
| "bind_process_paths p (D_Wait (Wait_Signal path)) =
     bind_result (bind_process_self_path p path) (\<lambda>path. Ok (D_Wait (Wait_Signal path)))"
| "bind_process_paths p (D_Op t) =
     bind_result (bind_process_self_path p (ot_target t)) (\<lambda>path. Ok (D_Op (t\<lparr>ot_target := path\<rparr>)))"
| "bind_process_paths p n = Ok n"

section \<open>The walks compute what they say\<close>

lemma size_loop_sum: "size_loop count ns = count + sum_list (map nodes_of ns)"
proof (induction count ns rule: size_loop.induct)
  case (2 count n pending)
  then show ?case using nodes_children(2) [of n] by (simp add: nodes_children(1))
qed simp

lemma do_size_eq: "do_size n = nodes_of n"
  by (simp add: do_size_def size_loop_sum)

fun depth_of :: "do_node \<Rightarrow> nat" where
  "depth_of (D_AndThen d _) = Suc (depth_of d)"
| "depth_of (D_OrElse d _) = Suc (depth_of d)"
| "depth_of (D_Acting _ d) = Suc (depth_of d)"
| "depth_of (D_Finally a b) = Suc (max (depth_of a) (depth_of b))"
| "depth_of (D_Let _ a b) = Suc (max (depth_of a) (depth_of b))"
| "depth_of (D_Both a b) = Suc (max (depth_of a) (depth_of b))"
| "depth_of (D_Race a b) = Suc (max (depth_of a) (depth_of b))"
| "depth_of _ = 1"

lemma depth_pos: "0 < depth_of n"
  by (cases n) simp_all

lemma depth_children: "m < d + depth_of n \<longleftrightarrow> m \<le> d \<or> (\<exists>c \<in> set (do_children n). m < Suc d + depth_of c)"
  by (cases n) (auto simp: less_max_iff_disj less_Suc_eq_le not_le)

lemma depth_loop_iff:
  "\<forall>(n, d) \<in> set ns. 0 < d \<Longrightarrow> depth_loop limit ns \<longleftrightarrow> (\<exists>(n, d) \<in> set ns. limit < d - 1 + depth_of n)"
proof (induction limit ns rule: depth_loop.induct)
  case (2 limit n depth pending)
  show ?case
  proof (cases "limit < depth")
    case True
    then have "limit < depth - 1 + depth_of n" using depth_pos [of n] by linarith
    then show ?thesis using True by auto
  next
    case False
    have "limit < depth - 1 + depth_of n \<longleftrightarrow> (\<exists>c \<in> set (do_children n). limit < depth + depth_of c)"
      using depth_children [of limit "depth - 1" n] False 2(2) by auto
    moreover have "\<forall>(n, d) \<in> set (map (\<lambda>c. (c, depth + 1)) (do_children n) @ pending). 0 < d" using 2(2) by auto
    note 2(1) [OF False this]
    ultimately show ?thesis using False by (simp add: bex_Un)
  qed
qed simp

lemma exceeds_depth_iff: "exceeds_depth n limit \<longleftrightarrow> limit < depth_of n"
proof -
  have "depth_loop limit [(n, 1)] \<longleftrightarrow> limit < depth_of n"
    using depth_loop_iff [of "[(n, 1)]" limit] by auto
  moreover have "depth_of n = 1" if "\<not> has_children n" using that by (cases n) auto
  ultimately show ?thesis using depth_pos [of n] by (auto simp: exceeds_depth_def)
qed

fun ops_of :: "do_node \<Rightarrow> operation_template list" where
  "ops_of (D_Op t) = [t]"
| "ops_of (D_AndThen d _) = ops_of d"
| "ops_of (D_OrElse d _) = ops_of d"
| "ops_of (D_Acting _ d) = ops_of d"
| "ops_of (D_Finally a b) = ops_of a @ ops_of b"
| "ops_of (D_Let _ a b) = ops_of a @ ops_of b"
| "ops_of (D_Both a b) = ops_of a @ ops_of b"
| "ops_of (D_Race a b) = ops_of a @ ops_of b"
| "ops_of _ = []"

lemma ops_children: "(\<And>t. n \<noteq> D_Op t) \<Longrightarrow> ops_of n = concat (map ops_of (do_children n))"
  by (cases n) auto

lemma ops_loop_eq: "ops_loop out ns = out @ concat (map ops_of ns)"
proof (induction out ns rule: ops_loop.induct)
  case (2 out n pending)
  then show ?case by (cases n) auto
qed simp

lemma ops_eq: "ops n = ops_of n"
  by (simp add: ops_def ops_loop_eq)

section \<open>Binding\<close>

text \<open>The paths of a program that an execution addresses.\<close>

fun addressed :: "do_node \<Rightarrow> path list" where
  "addressed (D_Op t) = [ot_target t]"
| "addressed (D_Wait (Wait_Signal p)) = [p]"
| "addressed (D_AndThen d _) = addressed d"
| "addressed (D_OrElse d _) = addressed d"
| "addressed (D_Acting _ d) = addressed d"
| "addressed (D_Finally a b) = addressed a @ addressed b"
| "addressed (D_Let _ a b) = addressed a @ addressed b"
| "addressed (D_Both a b) = addressed a @ addressed b"
| "addressed (D_Race a b) = addressed a @ addressed b"
| "addressed _ = []"

fun with_paths :: "(path \<Rightarrow> path) \<Rightarrow> do_node \<Rightarrow> do_node" where
  "with_paths f (D_Op t) = D_Op (t\<lparr>ot_target := f (ot_target t)\<rparr>)"
| "with_paths f (D_Wait (Wait_Signal p)) = D_Wait (Wait_Signal (f p))"
| "with_paths f (D_AndThen d s) = D_AndThen (with_paths f d) s"
| "with_paths f (D_OrElse d s) = D_OrElse (with_paths f d) s"
| "with_paths f (D_Acting i d) = D_Acting i (with_paths f d)"
| "with_paths f (D_Finally a b) = D_Finally (with_paths f a) (with_paths f b)"
| "with_paths f (D_Let x a b) = D_Let x (with_paths f a) (with_paths f b)"
| "with_paths f (D_Both a b) = D_Both (with_paths f a) (with_paths f b)"
| "with_paths f (D_Race a b) = D_Race (with_paths f a) (with_paths f b)"
| "with_paths f n = n"

definition self_bound :: "u64 \<Rightarrow> path \<Rightarrow> path" where
  "self_bound process p =
     (case p of
        Path None scheme (a # b # rest) \<Rightarrow>
          if scheme = ''state'' \<and> a = ''process'' \<and> b = ''self''
          then Path None ''state'' (''process'' # decimal process # rest) else p
      | _ \<Rightarrow> p)"

lemma addressed_with_paths: "addressed (with_paths f n) = map f (addressed n)"
  by (induction n rule: addressed.induct) auto

lemma decimal_digits: "list_all (\<lambda>c. ascii_digit c) (decimal n)" "decimal n \<noteq> []"
proof -
  have digit: "ascii_digit (char_of (48 + k))" if "k < 10" for k :: nat
    using that by (simp add: ascii_digit_def)
  show "list_all (\<lambda>c. ascii_digit c) (decimal n)"
    by (induction n rule: decimal.induct) (subst decimal.simps, auto simp: digit)
  show "decimal n \<noteq> []" by (subst decimal.simps) simp
qed

lemma decimal_segment: "ident_text Ident_Segment (decimal n)"
  using decimal_digits [of n]
  by (cases "decimal n") (auto simp: list_all_iff segment_char_def ascii_alphanumeric_def)

lemma push_segments_Ok:
  "list_all (ident_text Ident_Segment) ss \<Longrightarrow> push_segments (Path c s xs) ss = Ok (Path c s (xs @ ss))"
  by (induction ss arbitrary: xs) (auto simp: path_try_push_def validate_segment_Ok)

lemma bind_path_wf:
  assumes "path_wf p"
  shows "bind_process_self_path process p = Ok (self_bound process p)" "path_wf (self_bound process p)"
proof -
  have state: "path_try_new ''state'' = Ok (Path None ''state'' [])" by code_simp
  have process: "ident_text Ident_Segment ''process''" by code_simp
  have segs: "list_all (ident_text Ident_Segment) (p_segments p)" using assms by (simp add: path_wf_def)
  have "bind_process_self_path process p = Ok (self_bound process p) \<and> path_wf (self_bound process p)"
  proof (cases "\<exists>rest. p = Path None ''state'' (''process'' # ''self'' # rest)")
    case True
    then obtain rest where bound: "p = Path None ''state'' (''process'' # ''self'' # rest)" by blast
    have name: "path_try_push (Path None ''state'' []) ''process'' = Ok (Path None ''state'' [''process''])"
      "path_try_push (Path None ''state'' [''process'']) (decimal process) = Ok (Path None ''state'' [''process'', decimal process])"
      using process decimal_segment by (simp_all add: try_push_Ok)
    have "bind_process_self_path process p = Ok (self_bound process p)"
      using segs by (simp add: bound bind_process_self_path_def names_self_def get_def state name push_segments_Ok self_bound_def)
    moreover have "path_wf (self_bound process p)"
      using assms decimal_segment [of process] by (simp add: bound self_bound_def path_wf_def)
    ultimately show ?thesis ..
  next
    case False
    obtain c s ss where p: "p = Path c s ss" by (cases p)
    have "self_bound process p = p" using False by (auto simp: p self_bound_def split: option.split list.split)
    moreover have "s \<noteq> ''state'' \<or> c \<noteq> None \<or> \<not> names_self ss"
    proof (rule ccontr)
      assume a: "\<not> ?thesis"
      then obtain a b rest where "ss = a # b # rest"
        by (cases ss; cases "tl ss") (auto simp: names_self_def get_def)
      then show False using a False by (simp add: p names_self_def get_def)
    qed
    ultimately show ?thesis using assms by (auto simp: p bind_process_self_path_def)
  qed
  then show "bind_process_self_path process p = Ok (self_bound process p)" "path_wf (self_bound process p)" by simp_all
qed

lemma bind_paths_wf:
  "list_all path_wf (addressed n) \<Longrightarrow> bind_process_paths process n = Ok (with_paths (self_bound process) n)"
  by (induction n rule: addressed.induct) (auto simp: bind_path_wf)

end
