(* ===== verification/Graph_Compile.thy ===== *)
theory Graph_Compile
  imports Do_Program
begin

text \<open>
  The compiler from programs to execution graphs, \<open>xolotl-graph/src/compile.rs\<close>, and the graphs
  themselves, \<open>graph.rs\<close>. The content hash (\<open>fingerprint.rs\<close>, over BLAKE3 and JSON) is a parameter.
  Stacks that the source keeps in a vector have their top at the head here.
\<close>

section \<open>Graphs\<close>

datatype branch_kind = Branch_OrElse step_ref

datatype join_kind = Join_Both | Join_First

datatype graph_kind =
    G_Pure xvalue
  | G_Fail failure
  | G_Operation operation_template
  | G_Step step_ref
  | G_Branch branch_kind
  | G_Finally
  | G_Sequence
  | G_Let u32
  | G_Load u32
  | G_Join join_kind
  | G_Acting path
  | G_Wait wait_spec

record graph_node =
  gn_id :: u32
  gn_kind :: graph_kind

datatype edge_kind = Edge_Value | Edge_Then | Edge_Else | Edge_Arm

record graph_edge =
  ge_from :: u32
  ge_to :: u32
  ge_kind :: edge_kind

record execution_graph =
  xg_nodes :: "graph_node list"
  xg_edges :: "graph_edge list"
  xg_root :: u32
  xg_hash :: "8 word list"

definition graph_lookup :: "execution_graph \<Rightarrow> u32 \<Rightarrow> graph_node option" where
  "graph_lookup g i =
     (if i < length (xg_nodes g) \<and> gn_id (xg_nodes g ! i) = i then Some (xg_nodes g ! i)
      else List.find (\<lambda>n. gn_id n = i) (xg_nodes g))"

definition out_edges :: "execution_graph \<Rightarrow> u32 \<Rightarrow> graph_edge list" where
  "out_edges g from = filter (\<lambda>e. ge_from e = from) (xg_edges g)"

definition out_edges_of :: "execution_graph \<Rightarrow> u32 \<Rightarrow> edge_kind \<Rightarrow> graph_edge list" where
  "out_edges_of g from kind = filter (\<lambda>e. ge_from e = from \<and> ge_kind e = kind) (xg_edges g)"

section \<open>Admission\<close>

datatype compile_error =
    CE_UnboundName string
  | CE_TooLarge usize
  | CE_PositionExhausted
  | CE_GraphHash string

definition max_nodes :: usize where "max_nodes = 2 ^ 20"

function preflight_loop :: "u32 \<Rightarrow> usize \<Rightarrow> do_node list \<Rightarrow> (usize, compile_error) result" where
  "preflight_loop base count [] = Ok count"
| "preflight_loop base count (n # pending) =
     (if count = max_nodes then Err (CE_TooLarge max_nodes)
      else bind_result (ok_or CE_PositionExhausted (checked_add u32_max base count)) (\<lambda>_.
        preflight_loop base (count + 1) (do_children n @ pending)))"
  by pat_completeness auto
termination
  by (relation "measure (\<lambda>(_, _, ns). sum_list (map nodes_of ns))") (auto simp: nodes_children)

definition preflight :: "do_node \<Rightarrow> u32 \<Rightarrow> (usize, compile_error) result" where
  "preflight n base = preflight_loop base 0 [n]"

section \<open>The compiler\<close>

record compiler =
  cm_nodes :: "graph_node list"
  cm_edges :: "graph_edge list"
  cm_bindings :: "string \<rightharpoonup> u32 option"
  cm_next_binding :: u32
  cm_free_bindings :: "u32 list"
  cm_base :: u32

record span =
  sp_entry :: u32
  sp_exit :: u32

definition compiler_with_base :: "u32 \<Rightarrow> compiler" where
  "compiler_with_base base =
     \<lparr>cm_nodes = [], cm_edges = [], cm_bindings = Map.empty, cm_next_binding = 0, cm_free_bindings = [],
      cm_base = base\<rparr>"

fun bind_comp :: "('a, 'e) comp \<Rightarrow> ('a \<Rightarrow> ('b, 'e) comp) \<Rightarrow> ('b, 'e) comp" where
  "bind_comp (Return a) f = f a"
| "bind_comp (Raise e) f = Raise e"
| "bind_comp Panic f = Panic"

definition graph_push :: "compiler \<Rightarrow> graph_kind \<Rightarrow> (u32 \<times> compiler, compile_error) comp" where
  "graph_push c kind =
     (if max_nodes \<le> length (cm_nodes c) then Raise (CE_TooLarge max_nodes)
      else
        case checked_add u32_max (cm_base c) (length (cm_nodes c)) of
          None \<Rightarrow> Raise CE_PositionExhausted
        | Some pos \<Rightarrow> Return (pos, c\<lparr>cm_nodes := cm_nodes c @ [\<lparr>gn_id = pos, gn_kind = kind\<rparr>]\<rparr>))"

definition graph_edge_to :: "compiler \<Rightarrow> u32 \<Rightarrow> u32 \<Rightarrow> edge_kind \<Rightarrow> compiler" where
  "graph_edge_to c from dest kind =
     c\<lparr>cm_edges := cm_edges c @ [\<lparr>ge_from = from, ge_to = dest, ge_kind = kind\<rparr>]\<rparr>"

text \<open>A name gets its slot at its first use; a released slot is taken before a new one.\<close>

definition use_slot :: "compiler \<Rightarrow> string \<Rightarrow> (u32 \<times> compiler, compile_error) comp" where
  "use_slot c name =
     (case cm_bindings c name of
        None \<Rightarrow> Raise (CE_UnboundName name)
      | Some (Some slot) \<Rightarrow> Return (slot, c)
      | Some None \<Rightarrow>
          (case cm_free_bindings c of
             slot # free \<Rightarrow>
               Return (slot, c\<lparr>cm_bindings := (cm_bindings c)(name \<mapsto> Some slot), cm_free_bindings := free\<rparr>)
           | [] \<Rightarrow>
               if cm_next_binding c = u32_max then Panic
               else Return (cm_next_binding c,
                 c\<lparr>cm_bindings := (cm_bindings c)(name \<mapsto> Some (cm_next_binding c)),
                   cm_next_binding := cm_next_binding c + 1\<rparr>)))"

text \<open>The end of a binding: its slot, when it has one, turns the sequence into a binding.\<close>

definition close_binding ::
  "compiler \<Rightarrow> usize \<Rightarrow> string \<Rightarrow> u32 option option \<Rightarrow> span \<Rightarrow> span \<Rightarrow> (span \<times> compiler, compile_error) comp" where
  "close_binding c index name previous val out =
     (if length (cm_nodes c) \<le> index then Panic
      else
        let bound = cm_bindings c name;
            c = c\<lparr>cm_bindings := (cm_bindings c)(name := None)\<rparr>;
            c = (case bound of
                   Some (Some slot) \<Rightarrow>
                     c\<lparr>cm_nodes := (cm_nodes c)[index := (cm_nodes c ! index)\<lparr>gn_kind := G_Let slot\<rparr>],
                       cm_free_bindings := slot # cm_free_bindings c\<rparr>
                 | _ \<Rightarrow> c);
            c = (case previous of
                   Some p \<Rightarrow> c\<lparr>cm_bindings := (cm_bindings c)(name \<mapsto> p)\<rparr>
                 | None \<Rightarrow> c);
            parent = gn_id (cm_nodes c ! index);
            c = graph_edge_to c parent (sp_entry val) Edge_Arm;
            c = graph_edge_to c parent (sp_entry out) Edge_Arm
        in Return (\<lparr>sp_entry = parent, sp_exit = parent\<rparr>, c))"

datatype lower_frame =
    L_Enter do_node
  | L_Then step_ref
  | L_Arm u32
  | L_NextArm u32 do_node
  | L_Arms u32 span
  | L_BindingValue usize string do_node
  | L_BindingBody usize string "u32 option option" span

text \<open>One turn of the loop: the frames to push, the output span and the compiler.\<close>

definition leaf ::
  "graph_kind \<Rightarrow> compiler \<Rightarrow> (lower_frame list \<times> span \<times> compiler, compile_error) comp" where
  "leaf kind c =
     bind_comp (graph_push c kind) (\<lambda>(pos, c). Return ([], \<lparr>sp_entry = pos, sp_exit = pos\<rparr>, c))"

fun lower_enter ::
  "do_node \<Rightarrow> span \<Rightarrow> compiler \<Rightarrow> (lower_frame list \<times> span \<times> compiler, compile_error) comp" where
  "lower_enter (D_Pure v) out c = leaf (G_Pure v) c"
| "lower_enter (D_Fail f) out c = leaf (G_Fail f) c"
| "lower_enter (D_Op t) out c = leaf (G_Operation t) c"
| "lower_enter (D_Wait w) out c = leaf (G_Wait w) c"
| "lower_enter (D_Use name) out c = bind_comp (use_slot c name) (\<lambda>(slot, c). leaf (G_Load slot) c)"
| "lower_enter (D_AndThen d s) out c = Return ([L_Enter d, L_Then s], out, c)"
| "lower_enter (D_OrElse d s) out c =
     bind_comp (graph_push c (G_Branch (Branch_OrElse s))) (\<lambda>(parent, c). Return ([L_Enter d, L_Arm parent], out, c))"
| "lower_enter (D_Acting identity d) out c =
     bind_comp (graph_push c (G_Acting identity)) (\<lambda>(parent, c). Return ([L_Enter d, L_Arm parent], out, c))"
| "lower_enter (D_Finally a b) out c =
     bind_comp (graph_push c G_Finally) (\<lambda>(parent, c). Return ([L_Enter a, L_NextArm parent b], out, c))"
| "lower_enter (D_Both a b) out c =
     bind_comp (graph_push c (G_Join Join_Both)) (\<lambda>(parent, c). Return ([L_Enter a, L_NextArm parent b], out, c))"
| "lower_enter (D_Race a b) out c =
     bind_comp (graph_push c (G_Join Join_First)) (\<lambda>(parent, c). Return ([L_Enter a, L_NextArm parent b], out, c))"
| "lower_enter (D_Let name v body) out c =
     (let index = length (cm_nodes c) in
      bind_comp (graph_push c G_Sequence) (\<lambda>(_, c). Return ([L_Enter v, L_BindingValue index name body], out, c)))"

fun lower_turn ::
  "lower_frame \<Rightarrow> span \<Rightarrow> compiler \<Rightarrow> (lower_frame list \<times> span \<times> compiler, compile_error) comp" where
  "lower_turn (L_Enter n) out c = lower_enter n out c"
| "lower_turn (L_Then s) out c =
     bind_comp (graph_push c (G_Step s)) (\<lambda>(step, c).
       Return ([], out\<lparr>sp_exit := step\<rparr>, graph_edge_to c (sp_exit out) step Edge_Then))"
| "lower_turn (L_Arm parent) out c =
     Return ([], \<lparr>sp_entry = parent, sp_exit = parent\<rparr>, graph_edge_to c parent (sp_entry out) Edge_Arm)"
| "lower_turn (L_NextArm parent right) out c = Return ([L_Enter right, L_Arms parent out], out, c)"
| "lower_turn (L_Arms parent left) out c =
     Return ([], \<lparr>sp_entry = parent, sp_exit = parent\<rparr>,
       graph_edge_to (graph_edge_to c parent (sp_entry left) Edge_Arm) parent (sp_entry out) Edge_Arm)"
| "lower_turn (L_BindingValue index name body) out c =
     Return ([L_Enter body, L_BindingBody index name (cm_bindings c name) out], out,
       c\<lparr>cm_bindings := (cm_bindings c)(name \<mapsto> None)\<rparr>)"
| "lower_turn (L_BindingBody index name previous val) out c =
     bind_comp (close_binding c index name previous val out) (\<lambda>(out, c). Return ([], out, c))"

fun frame_work :: "lower_frame \<Rightarrow> nat" where
  "frame_work (L_Enter n) = 3 * nodes_of n"
| "frame_work (L_NextArm _ n) = 3 * nodes_of n + 2"
| "frame_work (L_BindingValue _ _ n) = 3 * nodes_of n + 2"
| "frame_work _ = 1"

lemma bind_comp_Return [simp]: "bind_comp r f = Return b \<longleftrightarrow> (\<exists>a. r = Return a \<and> f a = Return b)"
  by (cases r) auto

lemma leaf_done: "leaf kind c = Return (fs, out, c') \<Longrightarrow> fs = []"
  by (auto simp: leaf_def)

lemma turn_work:
  "lower_turn f out c = Return (fs, out', c') \<Longrightarrow> sum_list (map frame_work fs) < frame_work f"
proof (induction f out c rule: lower_turn.induct)
  case (1 n out c)
  then show ?case
    by (cases n) (auto simp: Let_def dest!: leaf_done)
qed auto

function lower_loop ::
  "lower_frame list \<Rightarrow> span \<Rightarrow> compiler \<Rightarrow> (span \<times> compiler, compile_error) comp" where
  "lower_loop [] out c = Return (out, c)"
| "lower_loop (f # pending) out c =
     (case lower_turn f out c of
        Return (fs, out, c) \<Rightarrow> lower_loop (fs @ pending) out c
      | Raise e \<Rightarrow> Raise e
      | Panic \<Rightarrow> Panic)"
  by pat_completeness auto
termination
  by (relation "measure (\<lambda>(fs, _, _). sum_list (map frame_work fs))") (auto dest: turn_work)

definition lower :: "do_node \<Rightarrow> compiler \<Rightarrow> (span \<times> compiler, compile_error) comp" where
  "lower n c = lower_loop [L_Enter n] \<lparr>sp_entry = 0, sp_exit = 0\<rparr> c"

definition compile_do ::
  "(execution_graph \<Rightarrow> (8 word list, string) result) \<Rightarrow> do_node \<Rightarrow> (execution_graph, compile_error) comp" where
  "compile_do hash_graph n =
     (case preflight n 0 of
        Err e \<Rightarrow> Raise e
      | Ok _ \<Rightarrow>
          bind_comp (lower n (compiler_with_base 0)) (\<lambda>(sp, c).
            let g = \<lparr>xg_nodes = cm_nodes c, xg_edges = cm_edges c, xg_root = sp_entry sp,
                     xg_hash = replicate 32 0\<rparr>
            in case hash_graph g of
                 Err m \<Rightarrow> Raise (CE_GraphHash m)
               | Ok h \<Rightarrow> Return (g\<lparr>xg_hash := h\<rparr>)))"

definition compile_do_at :: "do_node \<Rightarrow> u32 \<Rightarrow> (execution_graph, compile_error) comp" where
  "compile_do_at n base =
     (case preflight n base of
        Err e \<Rightarrow> Raise e
      | Ok _ \<Rightarrow>
          bind_comp (lower n (compiler_with_base base)) (\<lambda>(sp, c).
            Return \<lparr>xg_nodes = cm_nodes c, xg_edges = cm_edges c, xg_root = sp_entry sp,
                    xg_hash = replicate 32 0\<rparr>))"

section \<open>The frames are a recursion\<close>

text \<open>What the loop computes for one program, as a recursion over it.\<close>

definition solo :: "graph_kind \<Rightarrow> compiler \<Rightarrow> (span \<times> compiler, compile_error) comp" where
  "solo kind c = bind_comp (graph_push c kind) (\<lambda>(pos, c). Return (\<lparr>sp_entry = pos, sp_exit = pos\<rparr>, c))"

definition one_arm :: "u32 \<Rightarrow> span \<times> compiler \<Rightarrow> (span \<times> compiler, compile_error) comp" where
  "one_arm parent r =
     (case r of (out, c) \<Rightarrow>
        Return (\<lparr>sp_entry = parent, sp_exit = parent\<rparr>, graph_edge_to c parent (sp_entry out) Edge_Arm))"

definition two_arms :: "u32 \<Rightarrow> span \<Rightarrow> span \<times> compiler \<Rightarrow> (span \<times> compiler, compile_error) comp" where
  "two_arms parent left r =
     (case r of (out, c) \<Rightarrow>
        Return (\<lparr>sp_entry = parent, sp_exit = parent\<rparr>,
          graph_edge_to (graph_edge_to c parent (sp_entry left) Edge_Arm) parent (sp_entry out) Edge_Arm))"

fun emit :: "do_node \<Rightarrow> compiler \<Rightarrow> (span \<times> compiler, compile_error) comp" where
  "emit (D_Pure v) c = solo (G_Pure v) c"
| "emit (D_Fail f) c = solo (G_Fail f) c"
| "emit (D_Op t) c = solo (G_Operation t) c"
| "emit (D_Wait w) c = solo (G_Wait w) c"
| "emit (D_Use name) c = bind_comp (use_slot c name) (\<lambda>(slot, c). solo (G_Load slot) c)"
| "emit (D_AndThen d s) c =
     bind_comp (emit d c) (\<lambda>(out, c). bind_comp (graph_push c (G_Step s)) (\<lambda>(step, c).
       Return (out\<lparr>sp_exit := step\<rparr>, graph_edge_to c (sp_exit out) step Edge_Then)))"
| "emit (D_OrElse d s) c =
     bind_comp (graph_push c (G_Branch (Branch_OrElse s))) (\<lambda>(parent, c). bind_comp (emit d c) (one_arm parent))"
| "emit (D_Acting identity d) c =
     bind_comp (graph_push c (G_Acting identity)) (\<lambda>(parent, c). bind_comp (emit d c) (one_arm parent))"
| "emit (D_Finally a b) c =
     bind_comp (graph_push c G_Finally) (\<lambda>(parent, c).
       bind_comp (emit a c) (\<lambda>(left, c). bind_comp (emit b c) (two_arms parent left)))"
| "emit (D_Both a b) c =
     bind_comp (graph_push c (G_Join Join_Both)) (\<lambda>(parent, c).
       bind_comp (emit a c) (\<lambda>(left, c). bind_comp (emit b c) (two_arms parent left)))"
| "emit (D_Race a b) c =
     bind_comp (graph_push c (G_Join Join_First)) (\<lambda>(parent, c).
       bind_comp (emit a c) (\<lambda>(left, c). bind_comp (emit b c) (two_arms parent left)))"
| "emit (D_Let name v body) c =
     bind_comp (graph_push c G_Sequence) (\<lambda>(_, c1).
       bind_comp (emit v c1) (\<lambda>(val, c2).
         bind_comp (emit body (c2\<lparr>cm_bindings := (cm_bindings c2)(name \<mapsto> None)\<rparr>)) (\<lambda>(out, c3).
           close_binding c3 (length (cm_nodes c)) name (cm_bindings c2 name) val out)))"

definition resume_loop ::
  "lower_frame list \<Rightarrow> (span \<times> compiler, compile_error) comp \<Rightarrow> (span \<times> compiler, compile_error) comp" where
  "resume_loop pending r = bind_comp r (\<lambda>(out, c). lower_loop pending out c)"

lemma bind_comp_assoc: "bind_comp (bind_comp r f) g = bind_comp r (\<lambda>a. bind_comp (f a) g)"
  by (cases r) auto

lemma loop_Cons: "lower_loop (f # pending) out c =
    bind_comp (lower_turn f out c) (\<lambda>(fs, out, c). lower_loop (fs @ pending) out c)"
  by (simp split: comp.split)

lemma loop_enter: "lower_loop (L_Enter n # pending) out c = resume_loop pending (emit n c)"
proof (induction n arbitrary: pending out c)
qed (simp_all del: lower_loop.simps(2) add: loop_Cons leaf_def solo_def resume_loop_def bind_comp_assoc
    one_arm_def two_arms_def case_prod_unfold Let_def)

lemma lower_emit: "lower n c = emit n c"
  unfolding lower_def loop_enter resume_loop_def by (cases "emit n c") auto

end
