(* ===== verification/Graph_Layout.thy ===== *)
theory Graph_Layout
  imports Graph_Compile
begin

text \<open>
  What the compiler of \<open>xolotl-graph/src/compile.rs\<close> emits: which programs it refuses, where the parts
  of the others end up in the graph, and that the slots of bindings are assigned so that every use
  reads its own binding.
\<close>

section \<open>Where the parts of a program end up\<close>

fun free_names :: "do_node \<Rightarrow> string set" where
  "free_names (D_Use x) = {x}"
| "free_names (D_AndThen d _) = free_names d"
| "free_names (D_OrElse d _) = free_names d"
| "free_names (D_Acting _ d) = free_names d"
| "free_names (D_Finally a b) = free_names a \<union> free_names b"
| "free_names (D_Both a b) = free_names a \<union> free_names b"
| "free_names (D_Race a b) = free_names a \<union> free_names b"
| "free_names (D_Let x a b) = free_names a \<union> (free_names b - {x})"
| "free_names _ = {}"

text \<open>Programs are numbered in the order of the walk; only a step comes after its source.\<close>

fun exit_of :: "do_node \<Rightarrow> u32 \<Rightarrow> u32" where
  "exit_of (D_AndThen d _) lo = lo + nodes_of d"
| "exit_of _ lo = lo"

definition arms :: "graph_edge list \<Rightarrow> u32 \<Rightarrow> u32 list" where
  "arms es i = map ge_to (filter (\<lambda>e. ge_from e = i \<and> ge_kind e = Edge_Arm) es)"

definition thens :: "graph_edge list \<Rightarrow> u32 \<Rightarrow> u32 list" where
  "thens es i = map ge_to (filter (\<lambda>e. ge_from e = i \<and> ge_kind e = Edge_Then) es)"

text \<open>
  \<open>laid K A X n \<sigma> lo\<close>: the nodes from position \<open>lo\<close>, of kinds \<open>K\<close>, arms \<open>A\<close> and continuations \<open>X\<close>, are
  those of the program \<open>n\<close>, with the slots \<open>\<sigma>\<close> for the names it takes from outside. A slot that a
  binding writes is the slot of no other name its body uses.
\<close>

fun laid ::
  "(u32 \<Rightarrow> graph_kind) \<Rightarrow> (u32 \<Rightarrow> u32 list) \<Rightarrow> (u32 \<Rightarrow> u32 list) \<Rightarrow> do_node \<Rightarrow> (string \<rightharpoonup> u32) \<Rightarrow> u32 \<Rightarrow> bool" where
  "laid K A X (D_Pure v) \<sigma> lo \<longleftrightarrow> K lo = G_Pure v \<and> A lo = []"
| "laid K A X (D_Fail f) \<sigma> lo \<longleftrightarrow> K lo = G_Fail f \<and> A lo = []"
| "laid K A X (D_Op t) \<sigma> lo \<longleftrightarrow> K lo = G_Operation t \<and> A lo = []"
| "laid K A X (D_Wait w) \<sigma> lo \<longleftrightarrow> K lo = G_Wait w \<and> A lo = []"
| "laid K A X (D_Use x) \<sigma> lo \<longleftrightarrow> (\<exists>s. \<sigma> x = Some s \<and> K lo = G_Load s) \<and> A lo = []"
| "laid K A X (D_AndThen d s) \<sigma> lo \<longleftrightarrow>
     laid K A X d \<sigma> lo \<and> X (exit_of d lo) = [lo + nodes_of d] \<and>
     K (lo + nodes_of d) = G_Step s \<and> A (lo + nodes_of d) = []"
| "laid K A X (D_OrElse d s) \<sigma> lo \<longleftrightarrow>
     K lo = G_Branch (Branch_OrElse s) \<and> A lo = [lo + 1] \<and> laid K A X d \<sigma> (lo + 1) \<and> X (exit_of d (lo + 1)) = []"
| "laid K A X (D_Acting p d) \<sigma> lo \<longleftrightarrow>
     K lo = G_Acting p \<and> A lo = [lo + 1] \<and> laid K A X d \<sigma> (lo + 1) \<and> X (exit_of d (lo + 1)) = []"
| "laid K A X (D_Finally a b) \<sigma> lo \<longleftrightarrow>
     K lo = G_Finally \<and> A lo = [lo + 1, lo + 1 + nodes_of a] \<and>
     laid K A X a \<sigma> (lo + 1) \<and> X (exit_of a (lo + 1)) = [] \<and>
     laid K A X b \<sigma> (lo + 1 + nodes_of a) \<and> X (exit_of b (lo + 1 + nodes_of a)) = []"
| "laid K A X (D_Both a b) \<sigma> lo \<longleftrightarrow>
     K lo = G_Join Join_Both \<and> A lo = [lo + 1, lo + 1 + nodes_of a] \<and>
     laid K A X a \<sigma> (lo + 1) \<and> X (exit_of a (lo + 1)) = [] \<and>
     laid K A X b \<sigma> (lo + 1 + nodes_of a) \<and> X (exit_of b (lo + 1 + nodes_of a)) = []"
| "laid K A X (D_Race a b) \<sigma> lo \<longleftrightarrow>
     K lo = G_Join Join_First \<and> A lo = [lo + 1, lo + 1 + nodes_of a] \<and>
     laid K A X a \<sigma> (lo + 1) \<and> X (exit_of a (lo + 1)) = [] \<and>
     laid K A X b \<sigma> (lo + 1 + nodes_of a) \<and> X (exit_of b (lo + 1 + nodes_of a)) = []"
| "laid K A X (D_Let x v b) \<sigma> lo \<longleftrightarrow>
     A lo = [lo + 1, lo + 1 + nodes_of v] \<and>
     laid K A X v \<sigma> (lo + 1) \<and> X (exit_of v (lo + 1)) = [] \<and> X (exit_of b (lo + 1 + nodes_of v)) = [] \<and>
     (if x \<in> free_names b
      then \<exists>t. K lo = G_Let t \<and> laid K A X b (\<sigma>(x \<mapsto> t)) (lo + 1 + nodes_of v) \<and>
             (\<forall>y \<in> free_names b - {x}. \<sigma> y \<noteq> Some t)
      else K lo = G_Sequence \<and> laid K A X b \<sigma> (lo + 1 + nodes_of v))"

lemma exit_range: "lo \<le> exit_of n lo" "exit_of n lo < lo + nodes_of n"
  by (cases n; simp add: nodes_children)+

text \<open>What is outside of the range of a program does not matter, nor what follows it.\<close>

definition agree ::
  "(u32 \<Rightarrow> graph_kind) \<Rightarrow> (u32 \<Rightarrow> u32 list) \<Rightarrow> (u32 \<Rightarrow> u32 list) \<Rightarrow>
   (u32 \<Rightarrow> graph_kind) \<Rightarrow> (u32 \<Rightarrow> u32 list) \<Rightarrow> (u32 \<Rightarrow> u32 list) \<Rightarrow> u32 \<Rightarrow> u32 \<Rightarrow> u32 \<Rightarrow> bool" where
  "agree K A X K' A' X' lo hi e \<longleftrightarrow>
     (\<forall>i. lo \<le> i \<and> i < hi \<longrightarrow> K' i = K i \<and> A' i = A i \<and> (i \<noteq> e \<longrightarrow> X' i = X i))"

lemma agree_part:
  assumes "agree K A X K' A' X' lo hi e" "lo \<le> lo'" "hi' \<le> hi" "e < lo' \<or> hi' \<le> e \<or> e' = e"
  shows "agree K A X K' A' X' lo' hi' e'"
  using assms by (auto simp: agree_def)

lemma agree_at:
  assumes "agree K A X K' A' X' lo hi e" "lo \<le> i" "i < hi"
  shows "K' i = K i" "A' i = A i" "i \<noteq> e \<Longrightarrow> X' i = X i"
  using assms by (auto simp: agree_def)

lemma laid_cong:
  assumes "laid K A X n \<sigma> lo" "agree K A X K' A' X' lo (lo + nodes_of n) (exit_of n lo)"
    and "\<And>x. x \<in> free_names n \<Longrightarrow> \<sigma>' x = \<sigma> x"
  shows "laid K' A' X' n \<sigma>' lo"
  using assms
proof (induction n arbitrary: lo \<sigma> \<sigma>')
  case (D_AndThen d s)
  note part = agree_part [OF D_AndThen.prems(2)] and at = agree_at [OF D_AndThen.prems(2)]
  have "laid K' A' X' d \<sigma>' lo"
    by (rule D_AndThen.IH) (use D_AndThen.prems in \<open>auto intro!: part\<close>)
  then show ?case
    using D_AndThen.prems(1) at [of "lo + nodes_of d"] at [of "exit_of d lo"] exit_range [where lo = lo and n = d] by simp
next
  case (D_OrElse d s)
  note part = agree_part [OF D_OrElse.prems(2)] and at = agree_at [OF D_OrElse.prems(2)]
  have "laid K' A' X' d \<sigma>' (lo + 1)"
    by (rule D_OrElse.IH) (use D_OrElse.prems in \<open>auto intro!: part\<close>)
  then show ?case
    using D_OrElse.prems(1) at [of lo] at [of "exit_of d (lo + 1)"] exit_range [where lo = "lo + 1" and n = d] by simp
next
  case (D_Acting p d)
  note part = agree_part [OF D_Acting.prems(2)] and at = agree_at [OF D_Acting.prems(2)]
  have "laid K' A' X' d \<sigma>' (lo + 1)"
    by (rule D_Acting.IH) (use D_Acting.prems in \<open>auto intro!: part\<close>)
  then show ?case
    using D_Acting.prems(1) at [of lo] at [of "exit_of d (lo + 1)"] exit_range [where lo = "lo + 1" and n = d] by simp
next
  case (D_Finally a b)
  note part = agree_part [OF D_Finally.prems(2)] and at = agree_at [OF D_Finally.prems(2)]
  have "laid K' A' X' a \<sigma>' (lo + 1)" "laid K' A' X' b \<sigma>' (lo + 1 + nodes_of a)"
    by (rule D_Finally.IH, use D_Finally.prems in \<open>auto intro!: part\<close>)+
  then show ?case
    using D_Finally.prems(1) at [of lo] at [of "exit_of a (lo + 1)"] at [of "exit_of b (lo + 1 + nodes_of a)"]
      exit_range [where lo = "lo + 1" and n = a] exit_range [where lo = "lo + 1 + nodes_of a" and n = b] by simp
next
  case (D_Both a b)
  note part = agree_part [OF D_Both.prems(2)] and at = agree_at [OF D_Both.prems(2)]
  have "laid K' A' X' a \<sigma>' (lo + 1)" "laid K' A' X' b \<sigma>' (lo + 1 + nodes_of a)"
    by (rule D_Both.IH, use D_Both.prems in \<open>auto intro!: part\<close>)+
  then show ?case
    using D_Both.prems(1) at [of lo] at [of "exit_of a (lo + 1)"] at [of "exit_of b (lo + 1 + nodes_of a)"]
      exit_range [where lo = "lo + 1" and n = a] exit_range [where lo = "lo + 1 + nodes_of a" and n = b] by simp
next
  case (D_Race a b)
  note part = agree_part [OF D_Race.prems(2)] and at = agree_at [OF D_Race.prems(2)]
  have "laid K' A' X' a \<sigma>' (lo + 1)" "laid K' A' X' b \<sigma>' (lo + 1 + nodes_of a)"
    by (rule D_Race.IH, use D_Race.prems in \<open>auto intro!: part\<close>)+
  then show ?case
    using D_Race.prems(1) at [of lo] at [of "exit_of a (lo + 1)"] at [of "exit_of b (lo + 1 + nodes_of a)"]
      exit_range [where lo = "lo + 1" and n = a] exit_range [where lo = "lo + 1 + nodes_of a" and n = b] by simp
next
  case (D_Let x v b)
  note part = agree_part [OF D_Let.prems(2)] and at = agree_at [OF D_Let.prems(2)]
  let ?lo = "lo + 1 + nodes_of v"
  have v: "laid K' A' X' v \<sigma>' (lo + 1)"
    by (rule D_Let.IH(1)) (use D_Let.prems in \<open>auto intro!: part\<close>)
  have rest: "agree K A X K' A' X' ?lo (?lo + nodes_of b) (exit_of b ?lo)" by (rule part) auto
  have at': "K' lo = K lo" "A' lo = A lo" "X' (exit_of v (lo + 1)) = X (exit_of v (lo + 1))"
    "X' (exit_of b ?lo) = X (exit_of b ?lo)"
    using at [of lo] at [of "exit_of v (lo + 1)"] at [of "exit_of b ?lo"]
      exit_range [where lo = "lo + 1" and n = v] exit_range [where lo = ?lo and n = b] by simp_all
  show ?case
  proof (cases "x \<in> free_names b")
    case True
    then obtain t where t: "K lo = G_Let t" "laid K A X b (\<sigma>(x \<mapsto> t)) ?lo" "\<forall>y \<in> free_names b - {x}. \<sigma> y \<noteq> Some t"
      using D_Let.prems(1) by auto
    have "laid K' A' X' b (\<sigma>'(x \<mapsto> t)) ?lo"
      by (rule D_Let.IH(2) [OF t(2) rest]) (use D_Let.prems(3) in auto)
    then show ?thesis using D_Let.prems(1,3) v at' t True by auto
  next
    case False
    then have "laid K A X b \<sigma> ?lo" using D_Let.prems(1) by simp
    then have "laid K' A' X' b \<sigma>' ?lo"
      by (rule D_Let.IH(2) [OF _ rest]) (use D_Let.prems(3) False in auto)
    then show ?thesis using D_Let.prems(1) v at' False by auto
  qed
qed (auto dest: agree_at)

section \<open>The state of the compiler\<close>

definition fresh :: "compiler \<Rightarrow> u32" where
  "fresh c = cm_base c + length (cm_nodes c)"

definition kind_of :: "compiler \<Rightarrow> u32 \<Rightarrow> graph_kind" where
  "kind_of c i = gn_kind (cm_nodes c ! (i - cm_base c))"

definition slot_of :: "compiler \<Rightarrow> string \<rightharpoonup> u32" where
  "slot_of c x = (case cm_bindings c x of Some (Some s) \<Rightarrow> Some s | _ \<Rightarrow> None)"

text \<open>Nodes are numbered in order; edges connect them.\<close>

definition graph_ok :: "compiler \<Rightarrow> bool" where
  "graph_ok c \<longleftrightarrow>
     (\<forall>k < length (cm_nodes c). gn_id (cm_nodes c ! k) = cm_base c + k) \<and>
     (\<forall>e \<in> set (cm_edges c). cm_base c \<le> ge_from e \<and> ge_from e < fresh c \<and>
        cm_base c \<le> ge_to e \<and> ge_to e < fresh c \<and> ge_kind e \<in> {Edge_Then, Edge_Arm})"

text \<open>\<open>H\<close>: the slots of bindings that are shadowed at the moment.\<close>

definition slot_table_ok :: "u32 set \<Rightarrow> compiler \<Rightarrow> bool" where
  "slot_table_ok H c \<longleftrightarrow>
     distinct (cm_free_bindings c) \<and> set (cm_free_bindings c) \<inter> (ran (slot_of c) \<union> H) = {} \<and>
     ran (slot_of c) \<inter> H = {} \<and> set (cm_free_bindings c) \<union> ran (slot_of c) \<union> H \<subseteq> {..<cm_next_binding c} \<and>
     inj_on (slot_of c) (dom (slot_of c))"

text \<open>How the bindings may change while a program is compiled: names get slots and keep them.\<close>

definition binds :: "compiler \<Rightarrow> compiler \<Rightarrow> bool" where
  "binds c c' \<longleftrightarrow> dom (cm_bindings c') = dom (cm_bindings c) \<and> slot_of c \<subseteq>\<^sub>m slot_of c'"

text \<open>The graph after a program is the graph before it and the nodes and edges of the program.\<close>

definition adds :: "nat \<Rightarrow> compiler \<Rightarrow> compiler \<Rightarrow> bool" where
  "adds n c c' \<longleftrightarrow>
     cm_base c' = cm_base c \<and> (\<exists>ns. cm_nodes c' = cm_nodes c @ ns \<and> length ns = n) \<and>
     (\<exists>es. cm_edges c' = cm_edges c @ es \<and> (\<forall>e \<in> set es. fresh c \<le> ge_from e))"

lemma binds_refl [simp]: "binds c c"
  by (simp add: binds_def)

lemma binds_trans: "binds c c' \<Longrightarrow> binds c' c'' \<Longrightarrow> binds c c''"
  unfolding binds_def using map_le_trans by metis

lemma binds_slot: "binds c c' \<Longrightarrow> slot_of c x = Some s \<Longrightarrow> slot_of c' x = Some s"
  by (auto simp: binds_def map_le_def dom_def)

lemma adds_fresh: "adds n c c' \<Longrightarrow> fresh c' = fresh c + n" "adds n c c' \<Longrightarrow> cm_base c' = cm_base c"
  by (auto simp: adds_def fresh_def)

lemma adds_trans:
  assumes "adds m c c'" "adds n c' c''"
  shows "adds (m + n) c c''"
proof -
  from assms obtain ns es ns' es' where "cm_nodes c' = cm_nodes c @ ns" "length ns = m" "cm_nodes c'' = cm_nodes c' @ ns'"
    "length ns' = n" "cm_edges c' = cm_edges c @ es" "\<forall>e \<in> set es. fresh c \<le> ge_from e"
    "cm_edges c'' = cm_edges c' @ es'" "\<forall>e \<in> set es'. fresh c' \<le> ge_from e" "cm_base c'' = cm_base c"
    by (auto simp: adds_def)
  then show ?thesis
    unfolding adds_def using adds_fresh [OF assms(1)]
    by (intro conjI exI [of _ "ns @ ns'"] exI [of _ "es @ es'"]) auto
qed

lemma adds_kind: "adds n c c' \<Longrightarrow> cm_base c \<le> i \<Longrightarrow> i < fresh c \<Longrightarrow> kind_of c' i = kind_of c i"
  by (auto simp: adds_def kind_of_def fresh_def nth_append)

lemma adds_edges:
  assumes "adds n c c'" "i < fresh c"
  shows "arms (cm_edges c') i = arms (cm_edges c) i" "thens (cm_edges c') i = thens (cm_edges c) i"
proof -
  obtain es where "cm_edges c' = cm_edges c @ es" "\<forall>e \<in> set es. fresh c \<le> ge_from e"
    using assms(1) by (auto simp: adds_def)
  then show "arms (cm_edges c') i = arms (cm_edges c) i" "thens (cm_edges c') i = thens (cm_edges c) i"
    using assms(2) by (auto simp: arms_def thens_def filter_empty_conv)
qed

lemma no_edges: "graph_ok c \<Longrightarrow> fresh c \<le> i \<Longrightarrow> arms (cm_edges c) i = [] \<and> thens (cm_edges c) i = []"
  by (auto simp: graph_ok_def arms_def thens_def filter_empty_conv)

text \<open>One more node, and one more edge.\<close>

lemma push_result:
  assumes "graph_push c kind = Return (i, c')"
  shows "i = fresh c" "adds 1 c c'" "kind_of c' i = kind" "cm_bindings c' = cm_bindings c"
    "cm_edges c' = cm_edges c" "cm_next_binding c' = cm_next_binding c" "cm_free_bindings c' = cm_free_bindings c"
    "cm_nodes c' = cm_nodes c @ [\<lparr>gn_id = i, gn_kind = kind\<rparr>]"
  using assms by (auto simp: graph_push_def adds_def kind_of_def fresh_def checked_add_def split: if_splits)

lemma push_ok:
  assumes "graph_push c kind = Return (i, c')"
  shows "slot_of c' = slot_of c" "graph_ok c \<Longrightarrow> graph_ok c'" "slot_table_ok H c \<Longrightarrow> slot_table_ok H c'" "binds c c'"
proof -
  note r = push_result [OF assms]
  show s: "slot_of c' = slot_of c" by (simp add: slot_of_def fun_eq_iff r(4))
  have base: "cm_base c' = cm_base c" "fresh c' = fresh c + 1" using adds_fresh [OF r(2)] by simp_all
  show "graph_ok c'" if "graph_ok c"
    using that r(1,5,8) base by (auto simp: graph_ok_def nth_append less_Suc_eq fresh_def)
  show "slot_table_ok H c'" if "slot_table_ok H c" using that s r by (simp add: slot_table_ok_def)
  show "binds c c'" by (simp add: binds_def s r(4))
qed

lemma edge_simps [simp]:
  "cm_nodes (graph_edge_to c a b k) = cm_nodes c" "cm_bindings (graph_edge_to c a b k) = cm_bindings c"
  "cm_base (graph_edge_to c a b k) = cm_base c" "cm_next_binding (graph_edge_to c a b k) = cm_next_binding c"
  "cm_free_bindings (graph_edge_to c a b k) = cm_free_bindings c" "fresh (graph_edge_to c a b k) = fresh c"
  "slot_of (graph_edge_to c a b k) = slot_of c" "kind_of (graph_edge_to c a b k) = kind_of c"
  "cm_edges (graph_edge_to c a b k) = cm_edges c @ [\<lparr>ge_from = a, ge_to = b, ge_kind = k\<rparr>]"
  by (simp_all add: graph_edge_to_def fresh_def slot_of_def kind_of_def fun_eq_iff)

lemma edge_arms [simp]:
  "arms (es @ fs) i = arms es i @ arms fs i" "arms [] i = []"
  "arms (\<lparr>ge_from = a, ge_to = b, ge_kind = k\<rparr> # es) i = (if a = i \<and> k = Edge_Arm then [b] else []) @ arms es i"
  "thens (es @ fs) i = thens es i @ thens fs i" "thens [] i = []"
  "thens (\<lparr>ge_from = a, ge_to = b, ge_kind = k\<rparr> # es) i = (if a = i \<and> k = Edge_Then then [b] else []) @ thens es i"
  by (simp_all add: arms_def thens_def)

lemma edge_ok:
  "graph_ok c \<Longrightarrow> cm_base c \<le> a \<Longrightarrow> a < fresh c \<Longrightarrow> cm_base c \<le> b \<Longrightarrow> b < fresh c \<Longrightarrow> k \<in> {Edge_Then, Edge_Arm} \<Longrightarrow>
   graph_ok (graph_edge_to c a b k)"
  "slot_table_ok H (graph_edge_to c a b k) \<longleftrightarrow> slot_table_ok H c" "binds c' (graph_edge_to c a b k) \<longleftrightarrow> binds c' c"
  by (auto simp: graph_ok_def slot_table_ok_def binds_def)

lemma edge_adds: "adds n c' c \<Longrightarrow> fresh c' \<le> a \<Longrightarrow> adds n c' (graph_edge_to c a b k)"
  by (auto simp: adds_def)

text \<open>A use takes the slot its name has, a released one or a new one.\<close>

lemma use_result:
  assumes use: "use_slot c x = Return (s, c')" and ok: "slot_table_ok H c"
  shows "slot_of c' x = Some s" "binds c c'" "slot_table_ok H c'" "cm_nodes c' = cm_nodes c" "cm_edges c' = cm_edges c"
    "cm_base c' = cm_base c" "cm_next_binding c' \<le> cm_next_binding c + 1" "y \<noteq> x \<Longrightarrow> slot_of c' y = slot_of c y"
proof -
  consider (old) "cm_bindings c x = Some (Some s)" "c' = c"
    | (free) free where "cm_bindings c x = Some None" "cm_free_bindings c = s # free"
        "c' = c\<lparr>cm_bindings := (cm_bindings c)(x \<mapsto> Some s), cm_free_bindings := free\<rparr>"
    | (new) "cm_bindings c x = Some None" "s = cm_next_binding c"  "cm_free_bindings c = []"
        "c' = c\<lparr>cm_bindings := (cm_bindings c)(x \<mapsto> Some s), cm_next_binding := s + 1\<rparr>"
    using use by (auto simp: use_slot_def split: option.splits list.splits if_splits)
  then have "slot_of c' x = Some s \<and> binds c c' \<and> slot_table_ok H c' \<and> cm_nodes c' = cm_nodes c \<and>
      cm_edges c' = cm_edges c \<and> cm_base c' = cm_base c \<and> cm_next_binding c' \<le> cm_next_binding c + 1 \<and>
      (y \<noteq> x \<longrightarrow> slot_of c' y = slot_of c y)"
  proof cases
    case old
    then show ?thesis using ok by (simp add: slot_of_def)
  next
    case free
    have slots: "slot_of c' = (slot_of c)(x \<mapsto> s)" "slot_of c x = None"
      by (auto simp: free slot_of_def fun_eq_iff)
    have "s \<notin> ran (slot_of c)" using ok free(2) by (auto simp: slot_table_ok_def)
    then have "slot_table_ok H c'"
      using ok slots free(2) by (auto simp: slot_table_ok_def free(3) ran_def inj_on_def dom_def split: if_splits)
    moreover have "binds c c'" using slots by (auto simp: binds_def free map_le_def)
    ultimately show ?thesis using slots by (simp add: free)
  next
    case new
    have slots: "slot_of c' = (slot_of c)(x \<mapsto> s)" "slot_of c x = None"
      by (auto simp: new slot_of_def fun_eq_iff)
    have old: "s \<notin> ran (slot_of c)" "s \<notin> H" "ran (slot_of c) \<union> H \<subseteq> {..<s}" using ok new(2) by (auto simp: slot_table_ok_def)
    then have "slot_table_ok H c'"
      using ok slots new(2,3) by (auto simp: slot_table_ok_def new(4) ran_def inj_on_def dom_def split: if_splits)
    moreover have "binds c c'" using slots by (auto simp: binds_def new map_le_def)
    ultimately show ?thesis using slots by (simp add: new)
  qed
  then show "slot_of c' x = Some s" "binds c c'" "slot_table_ok H c'" "cm_nodes c' = cm_nodes c" "cm_edges c' = cm_edges c"
    "cm_base c' = cm_base c" "cm_next_binding c' \<le> cm_next_binding c + 1" "y \<noteq> x \<Longrightarrow> slot_of c' y = slot_of c y" by simp_all
qed

section \<open>Every program is laid out\<close>

abbreviation laid_in :: "compiler \<Rightarrow> do_node \<Rightarrow> u32 \<Rightarrow> bool" where
  "laid_in c n lo \<equiv> laid (kind_of c) (arms (cm_edges c)) (thens (cm_edges c)) n (slot_of c) lo"

definition emitted :: "u32 set \<Rightarrow> do_node \<Rightarrow> compiler \<Rightarrow> span \<Rightarrow> compiler \<Rightarrow> bool" where
  "emitted H n c sp c' \<longleftrightarrow>
     graph_ok c' \<and> slot_table_ok H c' \<and> cm_next_binding c' \<le> length (cm_nodes c') \<and>
     adds (nodes_of n) c c' \<and> binds c c' \<and>
     sp = \<lparr>sp_entry = fresh c, sp_exit = exit_of n (fresh c)\<rparr> \<and> thens (cm_edges c') (exit_of n (fresh c)) = [] \<and>
     free_names n \<subseteq> dom (slot_of c') \<and> (\<forall>y. y \<notin> free_names n \<longrightarrow> slot_of c' y = slot_of c y) \<and>
     laid_in c' n (fresh c)"

lemma laid_adds:
  assumes "laid_in c n lo" "adds m c c'" "binds c c'" "free_names n \<subseteq> dom (slot_of c)"
    and "cm_base c \<le> lo" "lo + nodes_of n \<le> fresh c"
  shows "laid_in c' n lo"
proof (rule laid_cong [OF assms(1)])
  show "agree (kind_of c) (arms (cm_edges c)) (thens (cm_edges c)) (kind_of c') (arms (cm_edges c')) (thens (cm_edges c'))
      lo (lo + nodes_of n) (exit_of n lo)"
    using assms(5,6) adds_kind [OF assms(2)] adds_edges [OF assms(2)] by (simp add: agree_def)
  show "slot_of c' x = slot_of c x" if "x \<in> free_names n" for x
    using that assms(4) binds_slot [OF assms(3)] by fastforce
qed

lemma laid_edge:
  assumes "laid_in c n lo" "a < lo \<or> (a = exit_of n lo \<and> k = Edge_Then)"
  shows "laid_in (graph_edge_to c a b k) n lo"
  by (rule laid_cong [OF assms(1)]) (use assms(2) in \<open>auto simp: agree_def\<close>)

lemma base_fresh: "cm_base c \<le> fresh c"
  by (simp add: fresh_def)

lemma emitted_leaf:
  assumes ok: "graph_ok c" "slot_table_ok H c" "cm_next_binding c \<le> length (cm_nodes c) + 1"
    and solo: "solo kind c = Return (sp, c')"
    and n: "nodes_of n = 1" "\<And>lo. exit_of n lo = lo" "free_names n \<subseteq> dom (slot_of c)"
      "\<And>K A X lo. K lo = kind \<Longrightarrow> A lo = [] \<Longrightarrow> laid K A X n (slot_of c) lo"
  shows "emitted H n c sp c'"
proof -
  obtain i where push: "graph_push c kind = Return (i, c')" and sp: "sp = \<lparr>sp_entry = i, sp_exit = i\<rparr>"
    using solo by (auto simp: solo_def)
  note r = push_result [OF push] and k = push_ok [OF push]
  have "arms (cm_edges c') (fresh c) = [] \<and> thens (cm_edges c') (fresh c) = []"
    using no_edges [OF ok(1), of "fresh c"] by (simp add: r(5))
  then show ?thesis
    unfolding emitted_def using ok k r sp n by (auto intro!: n(4))
qed

lemma emitted_arm:
  assumes ok: "graph_ok c" "slot_table_ok H c" "cm_next_binding c \<le> length (cm_nodes c)"
    and push: "graph_push c kind = Return (p, c1)" and d: "emitted H d c1 sp c2"
    and c': "one_arm p (sp, c2) = Return (sp', c')"
    and n: "nodes_of n = Suc (nodes_of d)" "\<And>lo. exit_of n lo = lo" "free_names n = free_names d"
      "\<And>K A X \<sigma> lo. laid K A X n \<sigma> lo \<longleftrightarrow> K lo = kind \<and> A lo = [lo + 1] \<and> laid K A X d \<sigma> (lo + 1) \<and> X (exit_of d (lo + 1)) = []"
  shows "emitted H n c sp' c'"
proof -
  note r = push_result [OF push] and k = push_ok [OF push]
  have e: "sp' = \<lparr>sp_entry = p, sp_exit = p\<rparr>" "c' = graph_edge_to c2 p (sp_entry sp) Edge_Arm"
    using c' by (simp_all add: one_arm_def)
  have lo: "fresh c1 = fresh c + 1" "cm_base c1 = cm_base c" using adds_fresh [OF r(2)] by simp_all
  have d': "graph_ok c2" "slot_table_ok H c2" "cm_next_binding c2 \<le> length (cm_nodes c2)" "adds (nodes_of d) c1 c2" "binds c1 c2"
    "sp_entry sp = fresh c + 1" "thens (cm_edges c2) (exit_of d (fresh c + 1)) = []"
    "free_names d \<subseteq> dom (slot_of c2)" "laid_in c2 d (fresh c + 1)" "\<forall>y. y \<notin> free_names d \<longrightarrow> slot_of c2 y = slot_of c1 y"
    using d lo by (simp_all add: emitted_def)
  have hi: "fresh c2 = fresh c + 1 + nodes_of d" "cm_base c2 = cm_base c" using adds_fresh [OF d'(4)] lo by simp_all
  have adds: "adds (nodes_of n) c c'"
    using adds_trans [OF r(2) d'(4)] unfolding e(2) by (intro edge_adds) (simp_all add: n(1) r(1))
  have none: "arms (cm_edges c2) (fresh c) = []" "thens (cm_edges c2) (fresh c) = []"
    using adds_edges [OF d'(4), of "fresh c"] no_edges [OF ok(1), of "fresh c"] lo r(5) by simp_all
  have kind: "kind_of c2 (fresh c) = kind"
    using adds_kind [OF d'(4), of "fresh c"] lo r(1,3) base_fresh [of c] by simp
  have "graph_ok c'"
    unfolding e(2) using d'(1,6) hi r(1) base_fresh [of c] nodes_children(2) [of d] by (intro edge_ok) simp_all
  moreover have "laid_in c' n (fresh c)"
    using laid_edge [OF d'(9), of "fresh c" Edge_Arm "fresh c + 1"] none kind d'(6,7) r(1) exit_range [where lo = "fresh c + 1" and n = d]
    by (simp add: n(4) e(2))
  ultimately show ?thesis
    unfolding emitted_def
    using d' e adds n(2,3) none r(1) k(1) binds_trans [OF k(4) d'(5)] by (simp add: edge_ok(2,3))
qed

lemma emitted_arms:
  assumes ok: "graph_ok c" "slot_table_ok H c" "cm_next_binding c \<le> length (cm_nodes c)"
    and push: "graph_push c kind = Return (p, c1)" and a: "emitted H a c1 left c2" and b: "emitted H b c2 right c3"
    and c': "two_arms p left (right, c3) = Return (sp', c')"
    and n: "nodes_of n = Suc (nodes_of a + nodes_of b)" "\<And>lo. exit_of n lo = lo" "free_names n = free_names a \<union> free_names b"
      "\<And>K A X \<sigma> lo. laid K A X n \<sigma> lo \<longleftrightarrow> K lo = kind \<and> A lo = [lo + 1, lo + 1 + nodes_of a] \<and>
        laid K A X a \<sigma> (lo + 1) \<and> X (exit_of a (lo + 1)) = [] \<and>
        laid K A X b \<sigma> (lo + 1 + nodes_of a) \<and> X (exit_of b (lo + 1 + nodes_of a)) = []"
  shows "emitted H n c sp' c'"
proof -
  note r = push_result [OF push] and k = push_ok [OF push]
  let ?m = "fresh c + 1 + nodes_of a"
  have e: "sp' = \<lparr>sp_entry = p, sp_exit = p\<rparr>"
    "c' = graph_edge_to (graph_edge_to c3 p (sp_entry left) Edge_Arm) p (sp_entry right) Edge_Arm"
    using c' by (simp_all add: two_arms_def)
  have lo: "fresh c1 = fresh c + 1" "cm_base c1 = cm_base c" using adds_fresh [OF r(2)] by simp_all
  have a': "graph_ok c2" "adds (nodes_of a) c1 c2" "binds c1 c2" "sp_entry left = fresh c + 1"
    "thens (cm_edges c2) (exit_of a (fresh c + 1)) = []" "free_names a \<subseteq> dom (slot_of c2)" "laid_in c2 a (fresh c + 1)"
    "\<forall>y. y \<notin> free_names a \<longrightarrow> slot_of c2 y = slot_of c1 y"
    using a lo by (simp_all add: emitted_def)
  have mid: "fresh c2 = ?m" "cm_base c2 = cm_base c" using adds_fresh [OF a'(2)] lo by simp_all
  have b': "graph_ok c3" "slot_table_ok H c3" "cm_next_binding c3 \<le> length (cm_nodes c3)" "adds (nodes_of b) c2 c3" "binds c2 c3"
    "sp_entry right = ?m" "thens (cm_edges c3) (exit_of b ?m) = []" "free_names b \<subseteq> dom (slot_of c3)" "laid_in c3 b ?m"
    "\<forall>y. y \<notin> free_names b \<longrightarrow> slot_of c3 y = slot_of c2 y"
    using b mid by (simp_all add: emitted_def)
  have hi: "fresh c3 = ?m + nodes_of b" "cm_base c3 = cm_base c" using adds_fresh [OF b'(4)] mid by simp_all
  have adds: "adds (nodes_of n) c c'"
    using adds_trans [OF adds_trans [OF r(2) a'(2)] b'(4)]
    unfolding e(2) by (intro edge_adds) (simp_all add: n(1) r(1))
  have ea: "exit_of a (fresh c + 1) < ?m" using exit_range(2) [of a "fresh c + 1"] by simp
  have none: "arms (cm_edges c3) (fresh c) = []" "thens (cm_edges c3) (fresh c) = []"
    "thens (cm_edges c3) (exit_of a (fresh c + 1)) = []"
    using adds_edges [OF adds_trans [OF a'(2) b'(4)], of "fresh c"] adds_edges [OF b'(4), of "exit_of a (fresh c + 1)"]
      no_edges [OF ok(1), of "fresh c"] lo mid r(5) a'(5) ea by simp_all
  have kind: "kind_of c3 (fresh c) = kind"
    using adds_kind [OF adds_trans [OF a'(2) b'(4)], of "fresh c"] lo r(1,3) base_fresh [of c] by simp
  have in3: "laid_in c3 a (fresh c + 1)"
    by (rule laid_adds [OF a'(7) b'(4,5) a'(6)]) (use mid base_fresh [of c] in simp_all)
  have "graph_ok c'"
    unfolding e(2) using b'(1,6) a'(4) hi r(1) base_fresh [of c] nodes_children(2) [of b] by (intro edge_ok) simp_all
  moreover have "laid_in c' n (fresh c)"
  proof -
    have "laid_in c' a (fresh c + 1)" "laid_in c' b ?m"
      unfolding e(2) by (intro laid_edge in3 b'(9); simp add: r(1))+
    then show ?thesis
      using none kind a'(4) b'(6,7) r(1) exit_range(1) [where lo = "fresh c + 1" and n = a] exit_range(1) [where lo = ?m and n = b]
      by (simp add: n(4) e(2))
  qed
  moreover have "free_names n \<subseteq> dom (slot_of c')"
    using a'(6) b'(5,8) by (auto simp: n(3) e(2) binds_def map_le_def dom_def)
  ultimately show ?thesis
    unfolding emitted_def
    using b' a'(8) e adds n(2,3) none r(1) k(1) binds_trans [OF binds_trans [OF k(4) a'(3)] b'(5)] by (simp add: edge_ok(2,3))
qed

text \<open>A binding: its slot is written by no other binding that its body uses.\<close>

lemma slot_shadow: "slot_of (c\<lparr>cm_bindings := (cm_bindings c)(x \<mapsto> None)\<rparr>) = (slot_of c)(x := None)"
  by (auto simp: slot_of_def fun_eq_iff)

lemma slots_shadow:
  assumes "slot_table_ok H c"
  shows "slot_table_ok (H \<union> {s. slot_of c x = Some s}) (c\<lparr>cm_bindings := (cm_bindings c)(x \<mapsto> None)\<rparr>)"
  using assms unfolding slot_table_ok_def slot_shadow
  by (auto simp: ran_def inj_on_def dom_def subset_iff)

text \<open>Closing a binding gives its slot back and restores the binding it shadowed.\<close>

definition closed :: "compiler \<Rightarrow> usize \<Rightarrow> string \<Rightarrow> u32 option option \<Rightarrow> compiler" where
  "closed c index x previous =
     (let d = c\<lparr>cm_bindings := (cm_bindings c)(x := previous)\<rparr> in
      case slot_of c x of
        Some t \<Rightarrow> d\<lparr>cm_nodes := (cm_nodes c)[index := (cm_nodes c ! index)\<lparr>gn_kind := G_Let t\<rparr>],
                   cm_free_bindings := t # cm_free_bindings c\<rparr>
      | None \<Rightarrow> d)"

lemma close_result:
  assumes "close_binding c index x previous val out = Return (sp, c')"
  shows "index < length (cm_nodes c)"
    "sp = \<lparr>sp_entry = gn_id (cm_nodes c ! index), sp_exit = gn_id (cm_nodes c ! index)\<rparr>"
    "c' = graph_edge_to (graph_edge_to (closed c index x previous) (gn_id (cm_nodes c ! index)) (sp_entry val) Edge_Arm)
       (gn_id (cm_nodes c ! index)) (sp_entry out) Edge_Arm"
proof -
  show "index < length (cm_nodes c)" using assms by (simp add: close_binding_def split: if_splits)
  have "(cm_bindings c)(x := None, x \<mapsto> p) = (cm_bindings c)(x \<mapsto> p)" for p by simp
  then show "sp = \<lparr>sp_entry = gn_id (cm_nodes c ! index), sp_exit = gn_id (cm_nodes c ! index)\<rparr>"
    "c' = graph_edge_to (graph_edge_to (closed c index x previous) (gn_id (cm_nodes c ! index)) (sp_entry val) Edge_Arm)
       (gn_id (cm_nodes c ! index)) (sp_entry out) Edge_Arm"
    using assms by (auto simp: close_binding_def closed_def slot_of_def Let_def split: if_splits option.splits)
qed

lemma closed_simps [simp]:
  "cm_edges (closed c index x previous) = cm_edges c" "cm_base (closed c index x previous) = cm_base c"
  "cm_next_binding (closed c index x previous) = cm_next_binding c"
  "length (cm_nodes (closed c index x previous)) = length (cm_nodes c)" "fresh (closed c index x previous) = fresh c"
  "cm_bindings (closed c index x previous) = (cm_bindings c)(x := previous)"
  by (simp_all add: closed_def fresh_def Let_def split: option.split)

lemma closed_slot:
  "slot_of (closed c index x (cm_bindings d x)) = (slot_of c)(x := slot_of d x)"
  by (auto simp: slot_of_def fun_eq_iff)

lemma closed_nodes:
  assumes "index < length (cm_nodes c)"
  shows "gn_id (cm_nodes (closed c index x previous) ! k) = gn_id (cm_nodes c ! k)"
    "i - cm_base c \<noteq> index \<Longrightarrow> kind_of (closed c index x previous) i = kind_of c i"
    "kind_of (closed c index x previous) (cm_base c + index) =
       (case slot_of c x of Some t \<Rightarrow> G_Let t | None \<Rightarrow> kind_of c (cm_base c + index))"
    "take index (cm_nodes (closed c index x previous)) = take index (cm_nodes c)"
  using assms by (auto simp: closed_def kind_of_def Let_def nth_list_update split: option.split)

lemma closed_slots:
  assumes "slot_table_ok (H \<union> {s. slot_of d x = Some s}) c" "slot_table_ok H d"
  shows "slot_table_ok H (closed c index x (cm_bindings d x))"
proof -
  let ?c = "closed c index x (cm_bindings d x)"
  let ?free = "(case slot_of c x of Some t \<Rightarrow> [t] | None \<Rightarrow> []) @ cm_free_bindings c"
  have free: "cm_free_bindings ?c = ?free" by (simp add: closed_def Let_def split: option.split)
  have slot: "slot_of ?c = (slot_of c)(x := slot_of d x)" by (rule closed_slot)
  have c: "distinct (cm_free_bindings c)" "set (cm_free_bindings c) \<inter> (ran (slot_of c) \<union> H \<union> {s. slot_of d x = Some s}) = {}"
    "ran (slot_of c) \<inter> (H \<union> {s. slot_of d x = Some s}) = {}" "inj_on (slot_of c) (dom (slot_of c))"
    "set (cm_free_bindings c) \<union> ran (slot_of c) \<union> H \<union> {s. slot_of d x = Some s} \<subseteq> {..<cm_next_binding c}"
    using assms(1) by (auto simp: slot_table_ok_def)
  have own: "t \<notin> set (cm_free_bindings c)" "t \<notin> H" "slot_of d x \<noteq> Some t" "\<And>y. slot_of c y = Some t \<Longrightarrow> y = x"
    if "slot_of c x = Some t" for t
    using that c(2-4) by (auto simp: ran_def inj_on_def dom_def)
  have ran: "ran (slot_of ?c) \<subseteq> ran (slot_of c) \<union> {s. slot_of d x = Some s}" by (auto simp: slot ran_def split: if_splits)
  have fresh: "t \<notin> ran (slot_of ?c)" if "slot_of c x = Some t" for t
    using own(3,4) [OF that] by (auto simp: slot ran_def split: if_splits)
  have outer: "s \<notin> H" if "slot_of d x = Some s" for s using assms(2) that by (auto simp: slot_table_ok_def ran_def)
  have below: "t < cm_next_binding c" if "slot_of c x = Some t" for t using c(5) that by (auto simp: ran_def)
  show ?thesis
    unfolding slot_table_ok_def free closed_simps
  proof (intro conjI)
    show "distinct ?free" using c(1) own(1) by (cases "slot_of c x") auto
    show "set ?free \<inter> (ran (slot_of ?c) \<union> H) = {}"
      using c(2) ran fresh own(2) by (cases "slot_of c x") auto
    show "ran (slot_of ?c) \<inter> H = {}" using c(3) ran outer by auto
    show "set ?free \<union> ran (slot_of ?c) \<union> H \<subseteq> {..<cm_next_binding c}"
      using c(5) ran below by (cases "slot_of c x") auto
    show "inj_on (slot_of ?c) (dom (slot_of ?c))"
    proof (rule inj_onI)
      fix y z assume y: "y \<in> dom (slot_of ?c)" "z \<in> dom (slot_of ?c)" "slot_of ?c y = slot_of ?c z"
      then obtain t where t: "slot_of ?c y = Some t" "slot_of ?c z = Some t" by auto
      have "t \<in> ran (slot_of c)" if "slot_of c w = Some t" for w using that by (auto simp: ran_def)
      then show "y = z"
        using t c(3,4) unfolding slot by (cases "y = x"; cases "z = x") (auto simp: inj_on_def dom_def)
    qed
  qed
qed

lemma emitted_let:
  assumes ok: "graph_ok c" "slot_table_ok H c" "cm_next_binding c \<le> length (cm_nodes c)"
    and push: "graph_push c G_Sequence = Return (p, c1)" and v: "emitted H v c1 val c2"
    and b: "emitted (H \<union> {s. slot_of c2 x = Some s}) b (c2\<lparr>cm_bindings := (cm_bindings c2)(x \<mapsto> None)\<rparr>) out c3"
    and c': "close_binding c3 (length (cm_nodes c)) x (cm_bindings c2 x) val out = Return (sp', c')"
  shows "emitted H (D_Let x v b) c sp' c'"
proof -
  note r = push_result [OF push] and k = push_ok [OF push] and e = close_result [OF c']
  let ?idx = "length (cm_nodes c)" and ?m = "fresh c + 1 + nodes_of v"
  let ?d = "closed c3 ?idx x (cm_bindings c2 x)"
  have lo: "fresh c1 = fresh c + 1" "cm_base c1 = cm_base c" using adds_fresh [OF r(2)] by simp_all
  have v': "slot_table_ok H c2" "adds (nodes_of v) c1 c2" "binds c1 c2" "sp_entry val = fresh c + 1"
    "thens (cm_edges c2) (exit_of v (fresh c + 1)) = []" "free_names v \<subseteq> dom (slot_of c2)" "laid_in c2 v (fresh c + 1)"
    "\<And>y. y \<notin> free_names v \<Longrightarrow> slot_of c2 y = slot_of c1 y"
    using v lo by (simp_all add: emitted_def)
  have mid: "fresh c2 = ?m" "cm_base c2 = cm_base c" using adds_fresh [OF v'(2)] lo by simp_all
  let ?c = "c2\<lparr>cm_bindings := (cm_bindings c2)(x \<mapsto> None)\<rparr>"
  have same: "fresh ?c = fresh c2" "adds m ?c c3 \<longleftrightarrow> adds m c2 c3" for m by (simp_all add: fresh_def adds_def)
  have b': "graph_ok c3" "cm_next_binding c3 \<le> length (cm_nodes c3)" "adds (nodes_of b) c2 c3" "binds ?c c3"
    "sp_entry out = ?m" "thens (cm_edges c3) (exit_of b ?m) = []" "free_names b \<subseteq> dom (slot_of c3)" "laid_in c3 b ?m"
    "\<And>y. y \<notin> free_names b \<Longrightarrow> slot_of c3 y = ((slot_of c2)(x := None)) y"
    and slots: "slot_table_ok (H \<union> {s. slot_of c2 x = Some s}) c3"
    using b mid same by (simp_all add: emitted_def slot_shadow)
  have hi: "fresh c3 = ?m + nodes_of b" "cm_base c3 = cm_base c" using adds_fresh [OF b'(3)] mid by simp_all
  have parent: "gn_id (cm_nodes c3 ! ?idx) = fresh c"
    using b'(1) e(1) hi by (simp add: graph_ok_def fresh_def)
  have c': "c' = graph_edge_to (graph_edge_to ?d (fresh c) (fresh c + 1) Edge_Arm) (fresh c) ?m Edge_Arm"
    using e(3) parent v'(4) b'(5) by simp
  have all: "adds (Suc (nodes_of v + nodes_of b)) c c3"
    using adds_trans [OF adds_trans [OF r(2) v'(2)] b'(3)] by simp
  have "graph_ok ?d" using b'(1) closed_nodes(1) [OF e(1)] by (simp add: graph_ok_def)
  then have graph: "graph_ok c'"
    unfolding c' using hi nodes_children(2) [of b] base_fresh [of c] by (intro edge_ok) simp_all
  have adds: "adds (nodes_of (D_Let x v b)) c c'"
  proof -
    obtain ns where "cm_nodes c3 = cm_nodes c @ ns" "length ns = Suc (nodes_of v + nodes_of b)" using all by (auto simp: adds_def)
    then have "cm_nodes ?d = cm_nodes c @ drop ?idx (cm_nodes ?d)"
      using closed_nodes(4) [OF e(1), of x "cm_bindings c2 x"] append_take_drop_id [of ?idx "cm_nodes ?d"] by simp
    then have "adds (nodes_of (D_Let x v b)) c ?d"
      using all by (auto simp: adds_def)
    then show ?thesis unfolding c' by (intro edge_adds) simp_all
  qed
  have slot: "slot_of c' = (slot_of c3)(x := slot_of c2 x)" by (simp add: c' closed_slot)
  have keep: "slot_of c3 y = Some t" if "slot_of c2 y = Some t" "y \<noteq> x" for y t
    using binds_slot [OF b'(4), of y t] that by (simp add: slot_shadow)
  have binds: "binds c c'"
  proof -
    have "dom (cm_bindings c3) = insert x (dom (cm_bindings c2))" using b'(4) by (simp add: binds_def)
    then have c3: "cm_bindings c3 y \<noteq> None \<longleftrightarrow> y = x \<or> cm_bindings c2 y \<noteq> None" for y by (metis domIff insert_iff)
    have "dom (cm_bindings c') = dom (cm_bindings c2)"
    proof (rule set_eqI)
      show "y \<in> dom (cm_bindings c') \<longleftrightarrow> y \<in> dom (cm_bindings c2)" for y
        using c3 [of y] by (cases "y = x") (simp_all add: c' domIff)
    qed
    then have "dom (cm_bindings c') = dom (cm_bindings c)" using v'(3) k(4) by (simp add: binds_def)
    moreover have "slot_of c' y = Some t" if "slot_of c y = Some t" for y t
      using that keep [of y t] binds_slot [OF v'(3), of y t] k(1) by (auto simp: slot)
    ultimately show ?thesis by (auto simp: binds_def map_le_def dom_def)
  qed
  have names: "free_names (D_Let x v b) \<subseteq> dom (slot_of c')"
    using v'(6) b'(7) keep by (fastforce simp: slot)
  have kinds: "kind_of c' i = kind_of c3 i" if "fresh c < i" for i
    using closed_nodes(2) [OF e(1), of i] that hi by (simp add: c' fresh_def)
  have at: "kind_of c' (fresh c) = (case slot_of c3 x of Some t \<Rightarrow> G_Let t | None \<Rightarrow> G_Sequence)"
    using closed_nodes(3) [OF e(1), of x "cm_bindings c2 x"] adds_kind [OF adds_trans [OF v'(2) b'(3)], of "fresh c"] lo hi r(1,3) base_fresh [of c]
    by (simp add: c' fresh_def cong: option.case_cong)
  have edges: "arms (cm_edges c') i = arms (cm_edges c3) i" if "i \<noteq> fresh c" for i using that by (simp add: c')
  have thens: "thens (cm_edges c') i = thens (cm_edges c3) i" for i by (simp add: c')
  have none: "arms (cm_edges c3) (fresh c) = []" "thens (cm_edges c3) (fresh c) = []"
    using adds_edges [OF adds_trans [OF v'(2) b'(3)], of "fresh c"] no_edges [OF ok(1), of "fresh c"] lo r(5) by simp_all
  have agree: "agree (kind_of c3) (arms (cm_edges c3)) (thens (cm_edges c3)) (kind_of c') (arms (cm_edges c')) (thens (cm_edges c'))
      l h z" if "fresh c < l" for l h z
    using that kinds edges thens by (simp add: agree_def)
  have in_v: "laid_in c' v (fresh c + 1)"
  proof (rule laid_cong [OF _ agree])
    show "laid (kind_of c3) (arms (cm_edges c3)) (thens (cm_edges c3)) v (slot_of c2) (fresh c + 1)"
      by (rule laid_cong [OF v'(7)]) (use adds_kind [OF b'(3)] adds_edges [OF b'(3)] mid base_fresh [of c] in \<open>auto simp: agree_def\<close>)
    show "slot_of c' y = slot_of c2 y" if "y \<in> free_names v" for y
      using that v'(6) keep by (cases "y = x") (auto simp: slot)
  qed simp
  have in_b: "laid (kind_of c') (arms (cm_edges c')) (thens (cm_edges c')) b (slot_of c3) ?m"
    by (rule laid_cong [OF b'(8) agree]) simp_all
  have let_ok: "laid_in c' (D_Let x v b) (fresh c)"
  proof (cases "x \<in> free_names b")
    case True
    then obtain t where t: "slot_of c3 x = Some t" using b'(7) by auto
    have "laid (kind_of c') (arms (cm_edges c')) (thens (cm_edges c')) b ((slot_of c')(x \<mapsto> t)) ?m"
      by (rule laid_cong [OF in_b]) (auto simp: slot t agree_def)
    moreover have "slot_of c' y \<noteq> Some t" if "y \<in> free_names b - {x}" for y
      using that t slots by (auto simp: slot slot_table_ok_def inj_on_def dom_def)
    ultimately show ?thesis
      using True in_v at t none v'(5) b'(6) thens adds_edges(2) [OF b'(3), of "exit_of v (fresh c + 1)"] mid
        exit_range [where lo = "fresh c + 1" and n = v]
      by (auto simp: c')
  next
    case False
    then have t: "slot_of c3 x = None" using b'(9) by simp
    have "laid_in c' b ?m"
      by (rule laid_cong [OF in_b]) (use False in \<open>auto simp: slot agree_def\<close>)
    then show ?thesis
      using False in_v at t none v'(5) b'(6) thens adds_edges(2) [OF b'(3), of "exit_of v (fresh c + 1)"] mid
        exit_range [where lo = "fresh c + 1" and n = v]
      by (auto simp: c')
  qed
  have others: "slot_of c' y = slot_of c y" if "y \<notin> free_names (D_Let x v b)" for y
    using that v'(8) [of y] b'(9) [of y] k(1) by (cases "y = x") (auto simp: slot)
  have "slot_table_ok H c'" "cm_next_binding c' \<le> length (cm_nodes c')"
    using closed_slots [OF slots v'(1)] b'(2) by (simp_all add: c' edge_ok(2))
  moreover have "thens (cm_edges c') (fresh c) = []" using none(2) thens [of "fresh c"] by simp
  moreover have "sp' = \<lparr>sp_entry = fresh c, sp_exit = fresh c\<rparr>" using e(2) parent by simp
  ultimately show ?thesis
    unfolding emitted_def using graph adds binds names others let_ok
    by (simp del: laid.simps free_names.simps nodes_of.simps)
qed

lemma emit_emitted:
  "graph_ok c \<Longrightarrow> slot_table_ok H c \<Longrightarrow> cm_next_binding c \<le> length (cm_nodes c) \<Longrightarrow> emit n c = Return (sp, c') \<Longrightarrow>
   emitted H n c sp c'"
proof (induction n arbitrary: c sp c' H)
  case (D_Use x)
  then obtain s c1 where use: "use_slot c x = Return (s, c1)" and solo: "solo (G_Load s) c1 = Return (sp, c')" by auto
  note u = use_result [OF use D_Use.prems(2)]
  have ok: "graph_ok c1" using D_Use.prems(1) u(4-6) by (simp add: graph_ok_def fresh_def)
  have "emitted H (D_Use x) c1 sp c'"
    by (rule emitted_leaf [OF ok u(3) _ solo]) (use u D_Use.prems(3) in \<open>auto simp: dom_def\<close>)
  moreover have "fresh c1 = fresh c" "adds m c1 c' \<longleftrightarrow> adds m c c'" for m
    using u(4-6) by (simp_all add: fresh_def adds_def)
  ultimately show ?case using binds_trans [OF u(2), of c'] u(8) by (simp add: emitted_def)
next
  case (D_AndThen d s)
  then obtain out c1 step c2 where emit: "emit d c = Return (out, c1)" and push: "graph_push c1 (G_Step s) = Return (step, c2)"
    and e: "sp = out\<lparr>sp_exit := step\<rparr>" "c' = graph_edge_to c2 (sp_exit out) step Edge_Then" by auto
  note d = D_AndThen.IH [OF D_AndThen.prems(1-3) emit, unfolded emitted_def]
  note r = push_result [OF push] and k = push_ok [OF push]
  let ?x = "exit_of d (fresh c)"
  have lo: "step = fresh c + nodes_of d" "fresh c2 = step + 1" "cm_base c2 = cm_base c" "sp_exit out = ?x"
    using d r(1) adds_fresh [OF r(2)] adds_fresh [of "nodes_of d" c c1] by auto
  have in2: "laid_in c2 d (fresh c)"
    by (rule laid_adds [OF _ r(2) k(4)]) (use d adds_fresh [of "nodes_of d" c c1] base_fresh [of c] in auto)
  have adds: "adds (nodes_of (D_AndThen d s)) c c'"
    unfolding e(2) using adds_trans [OF _ r(2), of "nodes_of d" c] d exit_range(1) [of "fresh c" d] lo(4)
    by (intro edge_adds) auto
  have none: "thens (cm_edges c2) ?x = []" "arms (cm_edges c2) step = []" "thens (cm_edges c2) step = []"
    using d no_edges [of c1 step] r(1,5) by simp_all
  have "graph_ok c'"
    unfolding e(2) using k(2) d lo base_fresh [of c] exit_range [where lo = "fresh c" and n = d] by (intro edge_ok) auto
  moreover have "laid_in c' d (fresh c)"
    unfolding e(2) using laid_edge [OF in2, of ?x Edge_Then] lo(4) by simp
  then have "laid_in c' (D_AndThen d s) (fresh c)"
    using none lo r(3) exit_range [where lo = "fresh c" and n = d] by (simp add: e(2))
  ultimately show ?case
    unfolding emitted_def
    using d adds none lo r k binds_trans [of c c1 c2] exit_range [where lo = "fresh c" and n = d]
    by (simp add: e edge_ok(2,3))
next
  case (D_OrElse d s)
  then obtain p c1 out c2 where p: "graph_push c (G_Branch (Branch_OrElse s)) = Return (p, c1)"
    and emit: "emit d c1 = Return (out, c2)" and arm: "one_arm p (out, c2) = Return (sp, c')" by auto
  note k = push_ok [OF p] and r = push_result [OF p]
  have "emitted H d c1 out c2"
    by (rule D_OrElse.IH [OF _ _ _ emit]) (use k D_OrElse.prems r(6,8) in auto)
  then show ?case by (rule emitted_arm [OF D_OrElse.prems(1-3) p _ arm]) auto
next
  case (D_Acting i d)
  then obtain p c1 out c2 where p: "graph_push c (G_Acting i) = Return (p, c1)"
    and emit: "emit d c1 = Return (out, c2)" and arm: "one_arm p (out, c2) = Return (sp, c')" by auto
  note k = push_ok [OF p] and r = push_result [OF p]
  have "emitted H d c1 out c2"
    by (rule D_Acting.IH [OF _ _ _ emit]) (use k D_Acting.prems r(6,8) in auto)
  then show ?case by (rule emitted_arm [OF D_Acting.prems(1-3) p _ arm]) auto
next
  case (D_Finally a b)
  then obtain p c1 left c2 right c3 where p: "graph_push c G_Finally = Return (p, c1)"
    and emit: "emit a c1 = Return (left, c2)" "emit b c2 = Return (right, c3)"
    and arms: "two_arms p left (right, c3) = Return (sp, c')" by auto
  note k = push_ok [OF p] and r = push_result [OF p]
  have a: "emitted H a c1 left c2"
    by (rule D_Finally.IH(1) [OF _ _ _ emit(1)]) (use k D_Finally.prems r(6,8) in auto)
  then have b: "emitted H b c2 right c3"
    by (intro D_Finally.IH(2) [OF _ _ _ emit(2)]) (simp_all add: emitted_def)
  show ?case by (rule emitted_arms [OF D_Finally.prems(1-3) p a b arms]) auto
next
  case (D_Both a b)
  then obtain p c1 left c2 right c3 where p: "graph_push c (G_Join Join_Both) = Return (p, c1)"
    and emit: "emit a c1 = Return (left, c2)" "emit b c2 = Return (right, c3)"
    and arms: "two_arms p left (right, c3) = Return (sp, c')" by auto
  note k = push_ok [OF p] and r = push_result [OF p]
  have a: "emitted H a c1 left c2"
    by (rule D_Both.IH(1) [OF _ _ _ emit(1)]) (use k D_Both.prems r(6,8) in auto)
  then have b: "emitted H b c2 right c3"
    by (intro D_Both.IH(2) [OF _ _ _ emit(2)]) (simp_all add: emitted_def)
  show ?case by (rule emitted_arms [OF D_Both.prems(1-3) p a b arms]) auto
next
  case (D_Race a b)
  then obtain p c1 left c2 right c3 where p: "graph_push c (G_Join Join_First) = Return (p, c1)"
    and emit: "emit a c1 = Return (left, c2)" "emit b c2 = Return (right, c3)"
    and arms: "two_arms p left (right, c3) = Return (sp, c')" by auto
  note k = push_ok [OF p] and r = push_result [OF p]
  have a: "emitted H a c1 left c2"
    by (rule D_Race.IH(1) [OF _ _ _ emit(1)]) (use k D_Race.prems r(6,8) in auto)
  then have b: "emitted H b c2 right c3"
    by (intro D_Race.IH(2) [OF _ _ _ emit(2)]) (simp_all add: emitted_def)
  show ?case by (rule emitted_arms [OF D_Race.prems(1-3) p a b arms]) auto
next
  case (D_Let x v b)
  then obtain p c1 val c2 out c3 where p: "graph_push c G_Sequence = Return (p, c1)"
    and emit: "emit v c1 = Return (val, c2)"
      "emit b (c2\<lparr>cm_bindings := (cm_bindings c2)(x \<mapsto> None)\<rparr>) = Return (out, c3)"
    and fin: "close_binding c3 (length (cm_nodes c)) x (cm_bindings c2 x) val out = Return (sp, c')" by auto
  note k = push_ok [OF p] and r = push_result [OF p]
  have v: "emitted H v c1 val c2"
    by (rule D_Let.IH(1) [OF _ _ _ emit(1)]) (use k D_Let.prems r(6,8) in auto)
  let ?c = "c2\<lparr>cm_bindings := (cm_bindings c2)(x \<mapsto> None)\<rparr>"
  have "graph_ok ?c" using v by (simp add: emitted_def graph_ok_def fresh_def)
  moreover have "slot_table_ok (H \<union> {s. slot_of c2 x = Some s}) ?c"
    using v by (intro slots_shadow) (simp add: emitted_def)
  ultimately have b: "emitted (H \<union> {s. slot_of c2 x = Some s}) b ?c out c3"
    using v by (intro D_Let.IH(2) [OF _ _ _ emit(2)]) (simp_all add: emitted_def)
  show ?case by (rule emitted_let [OF D_Let.prems(1-3) p v b fin])
qed (auto intro: emitted_leaf)

section \<open>Which programs are refused\<close>

text \<open>The first name, in the order of evaluation, that no enclosing binding introduces.\<close>

fun unbound :: "string set \<Rightarrow> do_node \<Rightarrow> string option" where
  "unbound S (D_Use x) = (if x \<in> S then None else Some x)"
| "unbound S (D_AndThen d _) = unbound S d"
| "unbound S (D_OrElse d _) = unbound S d"
| "unbound S (D_Acting _ d) = unbound S d"
| "unbound S (D_Finally a b) = (case unbound S a of None \<Rightarrow> unbound S b | Some x \<Rightarrow> Some x)"
| "unbound S (D_Both a b) = (case unbound S a of None \<Rightarrow> unbound S b | Some x \<Rightarrow> Some x)"
| "unbound S (D_Race a b) = (case unbound S a of None \<Rightarrow> unbound S b | Some x \<Rightarrow> Some x)"
| "unbound S (D_Let x a b) = (case unbound S a of None \<Rightarrow> unbound (insert x S) b | Some y \<Rightarrow> Some y)"
| "unbound S _ = None"

lemma unbound_None: "unbound S n = None \<longleftrightarrow> free_names n \<subseteq> S"
  by (induction S n rule: unbound.induct) (auto split: option.splits)

definition room :: "compiler \<Rightarrow> nat \<Rightarrow> bool" where
  "room c n \<longleftrightarrow> length (cm_nodes c) + n \<le> max_nodes \<and> fresh c + n \<le> Suc u32_max"

lemma push_total: "room c n \<Longrightarrow> 0 < n \<Longrightarrow> \<exists>c'. graph_push c kind = Return (fresh c, c') \<and> room c' (n - 1)"
  by (auto simp: room_def graph_push_def fresh_def checked_add_def)

lemma use_total:
  assumes "cm_next_binding c \<le> length (cm_nodes c)" "room c 1"
  shows "case cm_bindings c x of None \<Rightarrow> use_slot c x = Raise (CE_UnboundName x) | Some _ \<Rightarrow> \<exists>s c'. use_slot c x = Return (s, c')"
  using assms by (auto simp: use_slot_def room_def fresh_def u32_max_def max_nodes_def split: option.splits list.splits)

lemma room_adds: "adds m c c' \<Longrightarrow> room c (m + n) \<Longrightarrow> room c' n"
  by (auto simp: room_def adds_def fresh_def)

definition decided :: "(span \<times> compiler, compile_error) comp \<Rightarrow> string option \<Rightarrow> bool" where
  "decided r u = (case u of Some x \<Rightarrow> r = Raise (CE_UnboundName x) | None \<Rightarrow> \<exists>sp c'. r = Return (sp, c'))"

definition admits :: "compiler \<Rightarrow> nat \<Rightarrow> bool" where
  "admits c n \<longleftrightarrow> (\<exists>H. graph_ok c \<and> slot_table_ok H c) \<and> cm_next_binding c \<le> length (cm_nodes c) \<and> room c n"

lemma admits_push:
  assumes "admits c (Suc n)"
  shows "\<exists>c1. graph_push c kind = Return (fresh c, c1) \<and> admits c1 n \<and> dom (cm_bindings c1) = dom (cm_bindings c) \<and>
    length (cm_nodes c) < length (cm_nodes c1)"
proof -
  obtain c1 where c1: "graph_push c kind = Return (fresh c, c1)" "room c1 n"
    using push_total [of c "Suc n" kind] assms by (auto simp: admits_def)
  then show ?thesis
    using assms push_ok [OF c1(1)] push_result [OF c1(1)] by (auto simp: admits_def)
qed

lemma admits_emit:
  assumes "admits c (nodes_of n + m)" "emit n c = Return (sp, c')"
  shows "admits c' m" "dom (cm_bindings c') = dom (cm_bindings c)" "length (cm_nodes c) < length (cm_nodes c')"
proof -
  obtain H where "emitted H n c sp c'" using emit_emitted [OF _ _ _ assms(2)] assms(1) by (auto simp: admits_def)
  then show "admits c' m" "dom (cm_bindings c') = dom (cm_bindings c)" "length (cm_nodes c) < length (cm_nodes c')"
    using assms(1) room_adds [of "nodes_of n" c c' m] nodes_children(2) [of n]
    by (auto simp: emitted_def admits_def binds_def adds_def)
qed

lemma decided_None [simp]: "decided r None \<longleftrightarrow> (\<exists>sp c'. r = Return (sp, c'))"
  and decided_Some [simp]: "decided r (Some x) \<longleftrightarrow> r = Raise (CE_UnboundName x)"
  by (simp_all add: decided_def)

lemma total_solo: "admits c 1 \<Longrightarrow> decided (solo kind c) None"
  using admits_push [of c 0 kind] by (auto simp: solo_def)

lemma total_arm:
  assumes "admits c (Suc (nodes_of d))"
    and "\<And>c1. admits c1 (nodes_of d) \<Longrightarrow> decided (emit d c1) (unbound (dom (cm_bindings c1)) d)"
  shows "decided (bind_comp (graph_push c kind) (\<lambda>(p, c). bind_comp (emit d c) (one_arm p))) (unbound (dom (cm_bindings c)) d)"
proof -
  obtain c1 where c1: "graph_push c kind = Return (fresh c, c1)" "admits c1 (nodes_of d)" "dom (cm_bindings c1) = dom (cm_bindings c)"
    using admits_push [OF assms(1)] by blast
  show ?thesis
    using assms(2) [OF c1(2)] c1(1,3) by (cases "unbound (dom (cm_bindings c)) d") (auto simp: one_arm_def)
qed

lemma total_arms:
  assumes "admits c (Suc (nodes_of a + nodes_of b))"
    and "\<And>c1. admits c1 (nodes_of a) \<Longrightarrow> decided (emit a c1) (unbound (dom (cm_bindings c1)) a)"
    and "\<And>c1. admits c1 (nodes_of b) \<Longrightarrow> decided (emit b c1) (unbound (dom (cm_bindings c1)) b)"
  shows "decided (bind_comp (graph_push c kind) (\<lambda>(p, c). bind_comp (emit a c) (\<lambda>(left, c). bind_comp (emit b c) (two_arms p left))))
    (case unbound (dom (cm_bindings c)) a of None \<Rightarrow> unbound (dom (cm_bindings c)) b | Some x \<Rightarrow> Some x)"
proof -
  obtain c1 where c1: "graph_push c kind = Return (fresh c, c1)" "admits c1 (nodes_of a + nodes_of b)"
    "dom (cm_bindings c1) = dom (cm_bindings c)"
    using admits_push [OF assms(1)] by blast
  have "admits c1 (nodes_of a)" using c1(2) by (auto simp: admits_def room_def)
  note a = assms(2) [OF this]
  show ?thesis
  proof (cases "unbound (dom (cm_bindings c)) a")
    case (Some x)
    then show ?thesis using a c1 by simp
  next
    case None
    then obtain left c2 where e: "emit a c1 = Return (left, c2)" using a c1(3) by auto
    note c2 = admits_emit [OF c1(2) e]
    show ?thesis
      using None e c1(1,3) c2(2) assms(3) [OF c2(1)]
      by (cases "unbound (dom (cm_bindings c)) b") (auto simp: two_arms_def)
  qed
qed

lemma close_total: "index < length (cm_nodes c) \<Longrightarrow> \<exists>sp c'. close_binding c index x p val out = Return (sp, c')"
  by (auto simp: close_binding_def Let_def)

lemma total_let:
  assumes "admits c (Suc (nodes_of v + nodes_of b))"
    and "\<And>c1. admits c1 (nodes_of v) \<Longrightarrow> decided (emit v c1) (unbound (dom (cm_bindings c1)) v)"
    and "\<And>c1. admits c1 (nodes_of b) \<Longrightarrow> decided (emit b c1) (unbound (dom (cm_bindings c1)) b)"
  shows "decided (emit (D_Let x v b) c) (unbound (dom (cm_bindings c)) (D_Let x v b))"
proof -
  obtain c1 where c1: "graph_push c G_Sequence = Return (fresh c, c1)" "admits c1 (nodes_of v + nodes_of b)"
    "dom (cm_bindings c1) = dom (cm_bindings c)" "length (cm_nodes c) < length (cm_nodes c1)"
    using admits_push [OF assms(1)] by blast
  have "admits c1 (nodes_of v)" using c1(2) by (auto simp: admits_def room_def)
  note v = assms(2) [OF this]
  show ?thesis
  proof (cases "unbound (dom (cm_bindings c)) v")
    case (Some x)
    then show ?thesis using v c1 by simp
  next
    case None
    then obtain left c2 where e: "emit v c1 = Return (left, c2)" using v c1(3) by auto
    note c2 = admits_emit [OF c1(2) e]
    let ?c = "c2\<lparr>cm_bindings := (cm_bindings c2)(x \<mapsto> None)\<rparr>"
    have "admits ?c (nodes_of b + 0)"
      using c2(1) slots_shadow by (auto simp: admits_def room_def graph_ok_def fresh_def)
    note b = assms(3) [of ?c] and c3 = admits_emit [OF this]
    have more: "length (cm_nodes c) < length (cm_nodes c3)" if "emit b ?c = Return (out, c3)" for out c3
      using c3(3) [OF that] c1(4) c2(3) by simp
    show ?thesis
    proof (cases "unbound (insert x (dom (cm_bindings c))) b")
      case unbound: None
      then obtain out c3 where e': "emit b ?c = Return (out, c3)"
        using b \<open>admits ?c (nodes_of b + 0)\<close> c1(3) c2(2) by auto
      then show ?thesis
        using None unbound e c1(1,3) close_total [OF more [OF e'], of x "cm_bindings c2 x" left out] by simp
    next
      case (Some y)
      then show ?thesis
        using None e c1(1,3) c2(2) b \<open>admits ?c (nodes_of b + 0)\<close> by simp
    qed
  qed
qed

lemma emit_total: "admits c (nodes_of n) \<Longrightarrow> decided (emit n c) (unbound (dom (cm_bindings c)) n)"
proof (induction n arbitrary: c)
  case (D_Use x)
  have "case cm_bindings c x of None \<Rightarrow> use_slot c x = Raise (CE_UnboundName x) | Some _ \<Rightarrow> \<exists>s c'. use_slot c x = Return (s, c')"
    using D_Use by (intro use_total) (simp_all add: admits_def)
  then show ?case
  proof (cases "cm_bindings c x")
    case (Some u)
    then obtain s c1 where use: "use_slot c x = Return (s, c1)"
      using \<open>case cm_bindings c x of None \<Rightarrow> _ | Some _ \<Rightarrow> _\<close> by auto
    obtain H where H: "slot_table_ok H c" using D_Use by (auto simp: admits_def)
    have "room c1 1" using D_Use use_result [OF use H] by (simp add: admits_def room_def fresh_def)
    then have "\<exists>sp c'. solo (G_Load s) c1 = Return (sp, c')"
      using push_total [of c1 1 "G_Load s"] by (auto simp: solo_def)
    then show ?thesis using Some use by (auto simp: domIff)
  qed (auto simp: domIff)
next
  case (D_AndThen d s)
  have "admits c (nodes_of d)" using D_AndThen.prems by (auto simp: admits_def room_def)
  note d = D_AndThen.IH [OF this]
  show ?case
  proof (cases "unbound (dom (cm_bindings c)) d")
    case None
    then obtain out c1 where e: "emit d c = Return (out, c1)" using d by auto
    have "admits c1 1" using admits_emit [OF _ e, of 1] D_AndThen.prems by simp
    then show ?thesis using None e admits_push [of c1 0 "G_Step s"] by auto
  qed (use d in simp)
next
  case (D_OrElse d s)
  then show ?case using total_arm [of c d] by simp
next
  case (D_Acting i d)
  then show ?case using total_arm [of c d] by simp
next
  case (D_Finally a b)
  then show ?case using total_arms [of c a b] by simp
next
  case (D_Both a b)
  then show ?case using total_arms [of c a b] by simp
next
  case (D_Race a b)
  then show ?case using total_arms [of c a b] by simp
next
  case (D_Let x v b)
  then show ?case using total_let [of c v b x] by (simp del: emit.simps unbound.simps)
qed (use total_solo in auto)

section \<open>Admission\<close>

lemma preflight_loop_result:
  assumes "count \<le> max_nodes" "base + count \<le> Suc u32_max"
  shows "preflight_loop base count ns =
    (let total = count + sum_list (map nodes_of ns) in
     if total \<le> max_nodes \<and> base + total \<le> Suc u32_max then Ok total
     else if base + max_nodes \<le> Suc u32_max then Err (CE_TooLarge max_nodes) else Err CE_PositionExhausted)"
  using assms
proof (induction base count ns rule: preflight_loop.induct)
  case (2 base count n pending)
  let ?total = "count + sum_list (map nodes_of (n # pending))"
  have more: "count < ?total" using nodes_children(2) [of n] by simp
  have same: "count + 1 + sum_list (map nodes_of (do_children n @ pending)) = ?total"
    using nodes_children [of n] by simp
  consider "count = max_nodes" | "count < max_nodes" "u32_max < base + count" | "count < max_nodes" "base + count \<le> u32_max"
    using 2(2) by linarith
  then show ?case
  proof cases
    case 1
    then show ?thesis using 2(3) nodes_children(2) [of n] by (auto simp: Let_def)
  next
    case 2
    then show ?thesis using more by (simp add: checked_add_def Let_def) linarith
  next
    case 3
    then have "preflight_loop base count (n # pending) = preflight_loop base (count + 1) (do_children n @ pending)"
      by (simp add: checked_add_def)
    also have "\<dots> = (let total = count + 1 + sum_list (map nodes_of (do_children n @ pending)) in
        if total \<le> max_nodes \<and> base + total \<le> Suc u32_max then Ok total
        else if base + max_nodes \<le> Suc u32_max then Err (CE_TooLarge max_nodes) else Err CE_PositionExhausted)"
      using 3 2(1) by simp
    finally show ?thesis unfolding same .
  qed
qed simp

lemma preflight_result:
  assumes "base \<le> u32_max"
  shows "preflight n base =
    (if nodes_of n \<le> max_nodes \<and> base + nodes_of n \<le> Suc u32_max then Ok (nodes_of n)
     else if base + max_nodes \<le> Suc u32_max then Err (CE_TooLarge max_nodes) else Err CE_PositionExhausted)"
  using preflight_loop_result [of 0 base "[n]"] assms by (simp add: preflight_def Let_def)

lemma compiler_start:
  "graph_ok (compiler_with_base base)" "slot_table_ok {} (compiler_with_base base)" "dom (cm_bindings (compiler_with_base base)) = {}"
  "fresh (compiler_with_base base) = base" "cm_base (compiler_with_base base) = base"
proof -
  have "slot_of (compiler_with_base base) = Map.empty" by (auto simp: compiler_with_base_def slot_of_def)
  then show "slot_table_ok {} (compiler_with_base base)" by (simp add: slot_table_ok_def compiler_with_base_def)
qed (auto simp: compiler_with_base_def graph_ok_def fresh_def)

lemma admits_start:
  "nodes_of n \<le> max_nodes \<Longrightarrow> base + nodes_of n \<le> Suc u32_max \<Longrightarrow> admits (compiler_with_base base) (nodes_of n)"
  using compiler_start [of base] by (auto simp: admits_def room_def compiler_with_base_def)

text \<open>The graphs that programs compile to.\<close>

definition graph_of :: "do_node \<Rightarrow> u32 \<Rightarrow> execution_graph \<Rightarrow> bool" where
  "graph_of n base g \<longleftrightarrow>
     length (xg_nodes g) = nodes_of n \<and> (\<forall>k < nodes_of n. gn_id (xg_nodes g ! k) = base + k) \<and>
     (\<forall>e \<in> set (xg_edges g). base \<le> ge_from e \<and> ge_from e < base + nodes_of n \<and> base \<le> ge_to e \<and>
        ge_to e < base + nodes_of n \<and> ge_kind e \<in> {Edge_Then, Edge_Arm}) \<and>
     xg_root g = base \<and> thens (xg_edges g) (exit_of n base) = [] \<and>
     laid (\<lambda>i. gn_kind (xg_nodes g ! (i - base))) (arms (xg_edges g)) (thens (xg_edges g)) n Map.empty base"

lemma lower_result:
  assumes "nodes_of n \<le> max_nodes" "base + nodes_of n \<le> Suc u32_max"
  shows "case unbound {} n of
      Some x \<Rightarrow> lower n (compiler_with_base base) = Raise (CE_UnboundName x)
    | None \<Rightarrow> \<exists>sp c. lower n (compiler_with_base base) = Return (sp, c) \<and>
        (\<forall>h. graph_of n base \<lparr>xg_nodes = cm_nodes c, xg_edges = cm_edges c, xg_root = sp_entry sp, xg_hash = h\<rparr>)"
proof (cases "unbound {} n")
  case None
  let ?c = "compiler_with_base base"
  obtain sp c where e: "emit n ?c = Return (sp, c)"
    using emit_total [OF admits_start [OF assms]] None compiler_start(3) by auto
  have m: "emitted {} n ?c sp c"
    by (rule emit_emitted [OF compiler_start(1,2) _ e]) (simp add: compiler_with_base_def)
  have c: "cm_base c = base" "length (cm_nodes c) = nodes_of n" "fresh c = base + nodes_of n"
    using m by (auto simp: emitted_def adds_def compiler_with_base_def fresh_def)
  have slot: "slot_of c = Map.empty"
  proof -
    have "dom (slot_of c) \<subseteq> dom (cm_bindings c)" by (auto simp: slot_of_def split: option.splits)
    then show ?thesis using m compiler_start(3) by (simp add: emitted_def binds_def)
  qed
  have "kind_of c = (\<lambda>i. gn_kind (cm_nodes c ! (i - base)))" using c(1) by (simp add: kind_of_def fun_eq_iff)
  then have "graph_of n base \<lparr>xg_nodes = cm_nodes c, xg_edges = cm_edges c, xg_root = sp_entry sp, xg_hash = h\<rparr>" for h
    using m c slot compiler_start(4) [of base] by (simp add: emitted_def graph_of_def graph_ok_def)
  then show ?thesis using None e by (simp add: lower_emit)
next
  case (Some x)
  then show ?thesis using emit_total [OF admits_start [OF assms]] compiler_start(3) by (simp add: lower_emit)
qed

section \<open>Results\<close>

lemma compile_do_outcome:
  "case unbound {} n of
     Some x \<Rightarrow> compile_do hash n = (if max_nodes < nodes_of n then Raise (CE_TooLarge max_nodes) else Raise (CE_UnboundName x))
   | None \<Rightarrow>
       if max_nodes < nodes_of n then compile_do hash n = Raise (CE_TooLarge max_nodes)
       else \<exists>g. graph_of n 0 g \<and> xg_hash g = replicate 32 0 \<and>
         compile_do hash n =
           (case hash g of Err m \<Rightarrow> Raise (CE_GraphHash m) | Ok h \<Rightarrow> Return (g\<lparr>xg_hash := h\<rparr>))"
proof (cases "max_nodes < nodes_of n")
  case True
  then show ?thesis
    using preflight_result [of 0 n] by (simp add: compile_do_def u32_max_def max_nodes_def split: option.split)
next
  case False
  then have fits: "nodes_of n \<le> max_nodes" "0 + nodes_of n \<le> Suc u32_max" by (simp_all add: u32_max_def max_nodes_def)
  then have pre: "preflight n 0 = Ok (nodes_of n)" using preflight_result [of 0 n] by simp
  show ?thesis
  proof (cases "unbound {} n")
    case None
    then obtain sp c where c: "lower n (compiler_with_base 0) = Return (sp, c)"
      "\<And>h. graph_of n 0 \<lparr>xg_nodes = cm_nodes c, xg_edges = cm_edges c, xg_root = sp_entry sp, xg_hash = h\<rparr>"
      using lower_result [OF fits] by auto
    show ?thesis
      using None False pre c by
        (auto simp: compile_do_def Let_def intro!: exI [of _ "\<lparr>xg_nodes = cm_nodes c, xg_edges = cm_edges c, xg_root = sp_entry sp, xg_hash = replicate 32 0\<rparr>"])
  next
    case (Some x)
    then show ?thesis using False pre lower_result [OF fits] by (simp add: compile_do_def)
  qed
qed

lemma compile_do_graph:
  assumes "compile_do hash n = Return g"
  shows "graph_of n 0 g"
proof -
  have bound: "unbound {} n = None" "\<not> max_nodes < nodes_of n"
    using compile_do_outcome [of n hash] assms by (auto split: option.splits if_splits)
  then obtain g' where g': "graph_of n 0 g'"
    "compile_do hash n = (case hash g' of Err m \<Rightarrow> Raise (CE_GraphHash m) | Ok h \<Rightarrow> Return (g'\<lparr>xg_hash := h\<rparr>))"
    using compile_do_outcome [of n hash] by auto
  then obtain h where "g = g'\<lparr>xg_hash := h\<rparr>" using assms by (auto split: result.splits)
  then show ?thesis using g'(1) by (simp add: graph_of_def)
qed

lemma compile_do_at_outcome:
  assumes "base \<le> u32_max"
  shows "if max_nodes < nodes_of n \<or> Suc u32_max < base + nodes_of n
    then compile_do_at n base = Raise (if base + max_nodes \<le> Suc u32_max then CE_TooLarge max_nodes else CE_PositionExhausted)
    else case unbound {} n of
        Some x \<Rightarrow> compile_do_at n base = Raise (CE_UnboundName x)
      | None \<Rightarrow> \<exists>g. graph_of n base g \<and> xg_hash g = replicate 32 0 \<and> compile_do_at n base = Return g"
proof (cases "max_nodes < nodes_of n \<or> Suc u32_max < base + nodes_of n")
  case True
  then show ?thesis using preflight_result [OF assms, of n] by (auto simp: compile_do_at_def)
next
  case False
  then have fits: "nodes_of n \<le> max_nodes" "base + nodes_of n \<le> Suc u32_max" by simp_all
  then have pre: "preflight n base = Ok (nodes_of n)" using preflight_result [OF assms, of n] by simp
  show ?thesis
  proof (cases "unbound {} n")
    case None
    then obtain sp c where "lower n (compiler_with_base base) = Return (sp, c)"
      "\<And>h. graph_of n base \<lparr>xg_nodes = cm_nodes c, xg_edges = cm_edges c, xg_root = sp_entry sp, xg_hash = h\<rparr>"
      using lower_result [OF fits] by auto
    then show ?thesis
      using None False pre by
        (auto simp: compile_do_at_def intro!: exI [of _ "\<lparr>xg_nodes = cm_nodes c, xg_edges = cm_edges c, xg_root = sp_entry sp, xg_hash = replicate 32 0\<rparr>"])
  next
    case (Some x)
    then show ?thesis using False pre lower_result [OF fits] by (simp add: compile_do_at_def)
  qed
qed

text \<open>
  C8: what compiling returns. \<open>compile_do\<close> refuses a program of more than \<open>MAX_NODES\<close> nodes, then a
  program that uses a name no enclosing binding introduces, with the first such name in evaluation
  order. Every other program compiles to a graph with one node per node of the program, numbered in
  order, whose kinds, arms and continuations are those of the program; each use loads the slot of its
  binding, and a binding takes no slot that its body still reads for another name. Only the hash can
  fail then. \<open>compile_do_at\<close> does the same from a given base, without a hash, and also refuses
  programs whose positions would leave the range of a \<open>u32\<close>. No call panics.
\<close>

theorem compile_do_result:
  assumes "base \<le> u32_max"
  shows "(case unbound {} n of
     Some x \<Rightarrow> compile_do hash n = (if max_nodes < nodes_of n then Raise (CE_TooLarge max_nodes) else Raise (CE_UnboundName x))
   | None \<Rightarrow>
       if max_nodes < nodes_of n then compile_do hash n = Raise (CE_TooLarge max_nodes)
       else \<exists>g. graph_of n 0 g \<and> xg_hash g = replicate 32 0 \<and>
         compile_do hash n =
           (case hash g of Err m \<Rightarrow> Raise (CE_GraphHash m) | Ok h \<Rightarrow> Return (g\<lparr>xg_hash := h\<rparr>))) \<and>
   (if max_nodes < nodes_of n \<or> Suc u32_max < base + nodes_of n
    then compile_do_at n base = Raise (if base + max_nodes \<le> Suc u32_max then CE_TooLarge max_nodes else CE_PositionExhausted)
    else case unbound {} n of
        Some x \<Rightarrow> compile_do_at n base = Raise (CE_UnboundName x)
      | None \<Rightarrow> \<exists>g. graph_of n base g \<and> xg_hash g = replicate 32 0 \<and> compile_do_at n base = Return g)"
  using compile_do_outcome [of n hash] compile_do_at_outcome [OF assms, of n] by blast

definition demo_binds :: do_node where
  "demo_binds = D_OrElse (D_Let ''x'' (D_Pure V_Null) (D_AndThen (D_Use ''x'') (step_new ''next''))) (step_new ''recover'')"

theorem compile_do_result_witness:
  "(\<exists>g. graph_of demo_binds 7 g \<and> compile_do_at demo_binds 7 = Return g) \<and>
   compile_do_at demo_binds u32_max = Raise CE_PositionExhausted"
proof -
  have n: "unbound {} demo_binds = None" "nodes_of demo_binds = 5" by (simp_all add: demo_binds_def)
  show ?thesis
    using compile_do_result [of 7 demo_binds "\<lambda>_. Ok []"] compile_do_result [of u32_max demo_binds "\<lambda>_. Ok []"] n
    by (simp add: u32_max_def max_nodes_def) blast
qed

end
