(* ===== verification/Graph_Lowering.thy ===== *)
theory Graph_Lowering
  imports Graph_Layout Program_Image
begin

text \<open>
  From execution graphs to instruction images: \<open>xolotl-kernel/src/executor/image.rs\<close> and
  \<open>image/graph.rs\<close>. The cache of the resource analysis and the arena of appended fragments, both absent
  while a graph is lowered, are not fields of this model.
\<close>

section \<open>Programs of the executor\<close>

datatype transform =
    T_Field string | T_Index usize | T_Add int | T_LessThan int | T_Equal xvalue | T_Not | T_Length

datatype native_import =
    I_Vacant
  | I_Operation operation_template
  | I_Step step_ref "8 word list option"
  | I_Wait wait_spec
  | I_Scope path
  | I_Transform transform

definition import_wait :: "wait_spec \<Rightarrow> native_import" where
  "import_wait w =
     (case w of
        Wait_Signal p \<Rightarrow>
          I_Operation \<lparr>ot_target = p, ot_method = ''subscribe'', ot_method_id = None, ot_output = Out_Unary,
            ot_literal_input = None\<rparr>
      | Wait_Deadline t \<Rightarrow> I_Wait (Wait_Deadline t))"

type_synonym instruction = "(tainted_value, tainted_failure) node"

record machine_program =
  mp_nodes :: "instruction list"
  mp_imports :: "native_import list"
  mp_entry :: u32
  mp_bindings :: usize
  mp_id :: "8 word list"

definition machine_error :: "string \<Rightarrow> failure" where
  "machine_error message = failure_policy ''executor'' message"

fun fault_debug :: "fault \<Rightarrow> string" where
  "fault_debug Fault_Version = ''Version''"
| "fault_debug Fault_InvalidNode = ''InvalidNode''"
| "fault_debug Fault_InvalidImport = ''InvalidImport''"
| "fault_debug Fault_InvalidBinding = ''InvalidBinding''"
| "fault_debug Fault_MissingBinding = ''MissingBinding''"
| "fault_debug Fault_Tasks = ''Tasks''"
| "fault_debug Fault_Frames = ''Frames''"
| "fault_debug Fault_AnalysisCapacity = ''AnalysisCapacity''"
| "fault_debug Fault_Fuel = ''Fuel''"
| "fault_debug Fault_Iterations = ''Iterations''"
| "fault_debug Fault_Type = ''Type''"
| "fault_debug Fault_Cancelled = ''Cancelled''"
| "fault_debug Fault_StaleEvent = ''StaleEvent''"
| "fault_debug Fault_SequenceExhausted = ''SequenceExhausted''"
| "fault_debug Fault_ImageMismatch = ''ImageMismatch''"
| "fault_debug Fault_InvalidState = ''InvalidState''"
| "fault_debug Fault_Authority = ''Authority''"

definition program_image :: "machine_program \<Rightarrow> (tainted_value, tainted_failure) image" where
  "program_image p =
     \<lparr>img_version = image_version_1, img_id = mp_id p, img_nodes = mp_nodes p, img_entry = mp_entry p,
      img_bindings = mp_bindings p, img_imports = length (mp_imports p)\<rparr>"

definition add_import :: "machine_program \<Rightarrow> native_import \<Rightarrow> u32 \<times> machine_program" where
  "add_import p i = (length (mp_imports p) mod 2 ^ 32, p\<lparr>mp_imports := mp_imports p @ [i]\<rparr>)"

section \<open>Edges\<close>

record node_links =
  lk_next :: "u32 option"
  lk_arms :: "u32 option \<times> u32 option"

definition links_default :: node_links where
  "links_default = \<lparr>lk_next = None, lk_arms = (None, None)\<rparr>"

definition link_edge ::
  "(u32 \<rightharpoonup> u32) \<Rightarrow> u32 \<Rightarrow> node_links list \<Rightarrow> graph_edge \<Rightarrow> (node_links list, failure) result" where
  "link_edge ids base nodes e =
     bind_result (ok_or (machine_error ''dangling graph edge'') (ids (ge_from e))) (\<lambda>from.
     bind_result (ok_or (machine_error ''dangling graph edge'') (ids (ge_to e))) (\<lambda>dest.
       let source = from - base; l = nodes ! source in
       case ge_kind e of
         Edge_Then \<Rightarrow>
           if lk_next l \<noteq> None then Err (machine_error ''multiple continuations'')
           else Ok (nodes[source := l\<lparr>lk_next := Some dest\<rparr>])
       | Edge_Arm \<Rightarrow>
           (case lk_arms l of
              (None, b) \<Rightarrow> Ok (nodes[source := l\<lparr>lk_arms := (Some dest, b)\<rparr>])
            | (Some a, None) \<Rightarrow> Ok (nodes[source := l\<lparr>lk_arms := (Some a, Some dest)\<rparr>])
            | (Some _, Some _) \<Rightarrow> Err (machine_error ''too many graph arms''))
       | _ \<Rightarrow> Err (machine_error ''unsupported native graph edge'')))"

fun link_edges ::
  "(u32 \<rightharpoonup> u32) \<Rightarrow> u32 \<Rightarrow> node_links list \<Rightarrow> graph_edge list \<Rightarrow> (node_links list, failure) result" where
  "link_edges ids base nodes [] = Ok nodes"
| "link_edges ids base nodes (e # es) =
     bind_result (link_edge ids base nodes e) (\<lambda>nodes. link_edges ids base nodes es)"

definition index_edges ::
  "execution_graph \<Rightarrow> (u32 \<rightharpoonup> u32) \<Rightarrow> u32 \<Rightarrow> (node_links list, failure) result" where
  "index_edges g ids base = link_edges ids base (replicate (length (xg_nodes g)) links_default) (xg_edges g)"

section \<open>Nodes\<close>

definition first_arm :: "node_links \<Rightarrow> (u32, failure) result" where
  "first_arm l = ok_or (machine_error ''missing arm'') (fst (lk_arms l))"

definition both_arms :: "string \<Rightarrow> node_links \<Rightarrow> (u32 \<times> u32, failure) result" where
  "both_arms message l =
     (case lk_arms l of (Some a, Some b) \<Rightarrow> Ok (a, b) | _ \<Rightarrow> Err (machine_error message))"

fun takes_two :: "graph_kind \<Rightarrow> bool" where
  "takes_two (G_Join _) = True"
| "takes_two G_Finally = True"
| "takes_two (G_Let _) = True"
| "takes_two G_Sequence = True"
| "takes_two _ = False"

text \<open>\<open>recover\<close>: the address of the next request that is placed after the nodes of the graph.\<close>

fun lower_kind ::
  "usize \<Rightarrow> u32 \<Rightarrow> u64 \<Rightarrow> node_links \<Rightarrow> machine_program \<Rightarrow> graph_kind \<Rightarrow>
   ((tainted_value, tainted_failure) node_kind \<times> instruction list \<times> machine_program, failure) result" where
  "lower_kind max_bindings recover pos l p (G_Pure v) =
     Ok (N_Literal \<lparr>tv_value = v, tv_taint = taint_author\<rparr>, [], p)"
| "lower_kind max_bindings recover pos l p (G_Let slot) =
     bind_result (both_arms ''let requires value and body arms'' l) (\<lambda>(val, body).
       if min max_bindings u32_max \<le> slot then Err (machine_error ''binding capacity exceeded'')
       else Ok (N_Let slot val body, [], p\<lparr>mp_bindings := max (mp_bindings p) (slot + 1)\<rparr>))"
| "lower_kind max_bindings recover pos l p (G_Load slot) =
     (if min max_bindings u32_max \<le> slot then Err (machine_error ''binding capacity exceeded'')
      else Ok (N_Load slot, [], p\<lparr>mp_bindings := max (mp_bindings p) (slot + 1)\<rparr>))"
| "lower_kind max_bindings recover pos l p G_Sequence =
     bind_result (both_arms ''sequence requires two arms'' l) (\<lambda>(first, rest). Ok (N_Then first rest, [], p))"
| "lower_kind max_bindings recover pos l p (G_Fail f) = Ok (N_Fail (failure_pristine f), [], p)"
| "lower_kind max_bindings recover pos l p (G_Operation t) =
     (let (i, p) = add_import p (I_Operation t) in Ok (N_Request i, [], p))"
| "lower_kind max_bindings recover pos l p (G_Step s) =
     (let (i, p) = add_import p (I_Step s None) in Ok (N_Request i, [], p))"
| "lower_kind max_bindings recover pos l p (G_Wait w) =
     (let (i, p) = add_import p (import_wait w) in Ok (N_Request i, [], p))"
| "lower_kind max_bindings recover pos l p (G_Acting path) =
     (let (i, p) = add_import p (I_Scope path) in
      bind_result (first_arm l) (\<lambda>body. Ok (N_Scope i body, [], p)))"
| "lower_kind max_bindings recover pos l p (G_Branch (Branch_OrElse s)) =
     (let (i, p) = add_import p (I_Step s None) in
      bind_result (first_arm l) (\<lambda>body. Ok (N_Catch body recover, [node_new (N_Request i) pos], p)))"
| "lower_kind max_bindings recover pos l p G_Finally =
     bind_result (both_arms ''finally requires body and cleanup arms'' l) (\<lambda>(body, cleanup).
       Ok (N_Finally body cleanup, [], p))"
| "lower_kind max_bindings recover pos l p (G_Join j) =
     bind_result (both_arms ''join requires two arms'' l) (\<lambda>(left, right).
       Ok (N_Fork left right (case j of Join_Both \<Rightarrow> Join_All | Join_First \<Rightarrow> Join_Race), [], p))"

definition lower_node ::
  "usize \<Rightarrow> u32 \<Rightarrow> graph_node \<Rightarrow> node_links \<Rightarrow> machine_program \<Rightarrow> instruction list \<Rightarrow>
   (machine_program \<times> instruction list, failure) result" where
  "lower_node max_bindings recovers n l p extra =
     (if \<not> takes_two (gn_kind n) \<and> snd (lk_arms l) \<noteq> None then Err (machine_error ''unexpected extra arm'')
      else bind_result (lower_kind max_bindings (recovers + length extra) (gn_id n) l p (gn_kind n)) (\<lambda>(kind, more, p).
        Ok (p\<lparr>mp_nodes := mp_nodes p @ [\<lparr>nd_kind = kind, nd_next = lk_next l, nd_position = gn_id n\<rparr>]\<rparr>, extra @ more)))"

fun lower_nodes ::
  "usize \<Rightarrow> u32 \<Rightarrow> (graph_node \<times> node_links) list \<Rightarrow> machine_program \<Rightarrow> instruction list \<Rightarrow>
   (machine_program \<times> instruction list, failure) result" where
  "lower_nodes max_bindings recovers [] p extra = Ok (p, extra)"
| "lower_nodes max_bindings recovers ((n, l) # ns) p extra =
     bind_result (lower_node max_bindings recovers n l p extra) (\<lambda>(p, extra).
       lower_nodes max_bindings recovers ns p extra)"

fun is_branch :: "graph_kind \<Rightarrow> bool" where
  "is_branch (G_Branch _) = True"
| "is_branch _ = False"

definition graph_ids :: "graph_node list \<Rightarrow> u32 \<Rightarrow> u32 \<rightharpoonup> u32" where
  "graph_ids ns base = map_of (rev (zip (map gn_id ns) [base..<base + length ns]))"

definition lower_graph ::
  "machine_program \<Rightarrow> execution_graph \<Rightarrow> usize \<Rightarrow> usize \<Rightarrow> (u32 \<times> machine_program, failure) result" where
  "lower_graph p g max_instructions max_bindings =
     (let branches = length (filter (\<lambda>n. is_branch (gn_kind n)) (xg_nodes g));
          base = length (mp_nodes p)
      in
      if min max_instructions u32_max <
         saturating_add usize_max (saturating_add usize_max (length (xg_nodes g)) branches) base
      then Err (machine_error ''instruction capacity exceeded'')
      else if u32_max < base then Err (machine_error ''image too large'')
      else
        let ids = graph_ids (xg_nodes g) base in
        if card (dom ids) \<noteq> length (xg_nodes g) then Err (machine_error ''duplicate graph node'')
        else
          bind_result (index_edges g ids base) (\<lambda>links.
          bind_result (lower_nodes max_bindings (base + length (xg_nodes g)) (zip (xg_nodes g) links) p [])
            (\<lambda>(p, extra).
            let p = p\<lparr>mp_nodes := mp_nodes p @ extra\<rparr> in
            bind_result (map_err (\<lambda>f. machine_error (''invalid image: '' @ fault_debug f)) (validate (program_image p))) (\<lambda>_.
            bind_result (ok_or (machine_error ''dangling graph edge'') (ids (xg_root g))) (\<lambda>entry.
              Ok (entry, p))))))"

definition machine_lower ::
  "execution_graph \<Rightarrow> usize \<Rightarrow> usize \<Rightarrow> (machine_program, failure) result" where
  "machine_lower g max_instructions max_bindings =
     bind_result (lower_graph \<lparr>mp_nodes = [], mp_imports = [], mp_entry = 0, mp_bindings = 0, mp_id = xg_hash g\<rparr>
         g max_instructions max_bindings) (\<lambda>(entry, p). Ok (p\<lparr>mp_entry := entry\<rparr>))"

section \<open>Links of a compiled graph\<close>

text \<open>The arms and the continuation that \<open>index_edges\<close> finds for a node.\<close>

definition arms_of :: "u32 list \<Rightarrow> u32 option \<times> u32 option" where
  "arms_of xs = (get xs 0, get xs 1)"

definition shifted :: "u32 \<Rightarrow> u32 \<Rightarrow> u32 list \<Rightarrow> u32 list" where
  "shifted lo base xs = map (\<lambda>x. x - lo + base) xs"

definition links_at :: "graph_edge list \<Rightarrow> u32 \<Rightarrow> u32 \<Rightarrow> u32 \<Rightarrow> node_links" where
  "links_at es lo base k =
     \<lparr>lk_next = get (shifted lo base (thens es (lo + k))) 0, lk_arms = arms_of (shifted lo base (arms es (lo + k)))\<rparr>"

lemma graph_ids_at:
  assumes "\<And>k. k < length ns \<Longrightarrow> gn_id (ns ! k) = lo + k"
  shows "graph_ids ns base x = (if lo \<le> x \<and> x < lo + length ns then Some (x - lo + base) else None)"
    "card (dom (graph_ids ns base)) = length ns"
proof -
  have keys: "map gn_id ns = [lo..<lo + length ns]" using assms by (intro nth_equalityI) simp_all
  have dist: "distinct (map fst (zip [lo..<lo + length ns] [base..<base + length ns]))" by simp
  have eq: "graph_ids ns base = map_of (zip [lo..<lo + length ns] [base..<base + length ns])"
    unfolding graph_ids_def keys by (subst map_of_inject_set) (use dist in \<open>simp_all add: rev_map [symmetric]\<close>)
  show at: "graph_ids ns base x = (if lo \<le> x \<and> x < lo + length ns then Some (x - lo + base) else None)" for x
  proof (cases "lo \<le> x \<and> x < lo + length ns")
    case True
    then have "map_of (zip [lo..<lo + length ns] [base..<base + length ns]) ([lo..<lo + length ns] ! (x - lo)) =
        Some ([base..<base + length ns] ! (x - lo))" and k: "x - lo < length ns"
      by (intro map_of_zip_nth, auto)
    moreover have "[base..<base + length ns] ! (x - lo) = x - lo + base" "[lo..<lo + length ns] ! (x - lo) = x"
      using True k by (simp_all add: nth_upt)
    ultimately show ?thesis using True by (simp add: eq)
  next
    case False
    then show ?thesis by (auto simp: eq map_of_eq_None_iff dest: set_zip_leftD)
  qed
  have "dom (graph_ids ns base) = {lo..<lo + length ns}" using at by (auto simp: domIff split: if_splits)
  then show "card (dom (graph_ids ns base)) = length ns" by simp
qed

text \<open>At most two arms and one continuation for each node: then the links are those of the edges.\<close>

lemma link_edges_result:
  assumes ids: "\<And>x. lo \<le> x \<Longrightarrow> x < lo + m \<Longrightarrow> ids x = Some (x - lo + base)"
    and edges: "\<And>e. e \<in> set (past @ es) \<Longrightarrow> lo \<le> ge_from e \<and> ge_from e < lo + m \<and> lo \<le> ge_to e \<and> ge_to e < lo + m \<and>
      ge_kind e \<in> {Edge_Then, Edge_Arm}"
    and few: "\<And>k. k < m \<Longrightarrow> length (arms (past @ es) (lo + k)) \<le> 2 \<and> length (thens (past @ es) (lo + k)) \<le> 1"
  shows "link_edges ids base (map (links_at past lo base) [0..<m]) es = Ok (map (links_at (past @ es) lo base) [0..<m])"
  using edges few
proof (induction es arbitrary: past)
  case (Cons e es)
  let ?k = "ge_from e - lo"
  obtain a b kind where e: "e = \<lparr>ge_from = a, ge_to = b, ge_kind = kind\<rparr>" by (cases e)
  have r: "lo \<le> a" "a < lo + m" "lo \<le> b" "b < lo + m" "kind \<in> {Edge_Then, Edge_Arm}"
    using Cons.prems(1) [of e] e by auto
  have k: "a - lo < m" "a - lo + base - base = a - lo" "lo + (a - lo) = a" using r by simp_all
  have few: "length (arms (past @ e # es) a) \<le> 2" "length (thens (past @ e # es) a) \<le> 1"
    using Cons.prems(2) [of "a - lo"] k by simp_all
  have update: "(map (links_at past lo base) [0..<m])[a - lo := links_at (past @ [e]) lo base (a - lo)] =
      map (links_at (past @ [e]) lo base) [0..<m]"
  proof (rule nth_equalityI)
    fix j assume "j < length ((map (links_at past lo base) [0..<m])[a - lo := links_at (past @ [e]) lo base (a - lo)])"
    then show "(map (links_at past lo base) [0..<m])[a - lo := links_at (past @ [e]) lo base (a - lo)] ! j =
        map (links_at (past @ [e]) lo base) [0..<m] ! j"
      using r(1) by (cases "j = a - lo") (auto simp: links_at_def e)
  qed simp
  have "link_edge ids base (map (links_at past lo base) [0..<m]) e = Ok (map (links_at (past @ [e]) lo base) [0..<m])"
  proof (cases "kind = Edge_Then")
    case True
    then have "thens past a = []" using few(2) by (cases "thens past a") (simp_all add: e)
    then have "links_at (past @ [e]) lo base (a - lo) = (links_at past lo base (a - lo))\<lparr>lk_next := Some (b - lo + base)\<rparr>"
      "lk_next (links_at past lo base (a - lo)) = None"
      using True k by (simp_all add: links_at_def e shifted_def get_def)
    then show ?thesis
      using True k ids [of a] ids [of b] r update by (simp add: link_edge_def e Let_def)
  next
    case False
    then have arm: "kind = Edge_Arm" using r(5) by simp
    then have "arms past a = [] \<or> (\<exists>x. arms past a = [x])"
      using few(1) by (cases "arms past a"; cases "tl (arms past a)") (auto simp: e)
    then show ?thesis
    proof
      assume none: "arms past a = []"
      then have "links_at (past @ [e]) lo base (a - lo) = (links_at past lo base (a - lo))\<lparr>lk_arms := (Some (b - lo + base), None)\<rparr>"
        "lk_arms (links_at past lo base (a - lo)) = (None, None)"
        using arm k by (simp_all add: links_at_def e shifted_def get_def arms_of_def)
      then show ?thesis using arm k ids [of a] ids [of b] r update by (simp add: link_edge_def e Let_def)
    next
      assume "\<exists>x. arms past a = [x]"
      then obtain x where "arms past a = [x]" ..
      then have "links_at (past @ [e]) lo base (a - lo) =
          (links_at past lo base (a - lo))\<lparr>lk_arms := (Some (x - lo + base), Some (b - lo + base))\<rparr>"
        "lk_arms (links_at past lo base (a - lo)) = (Some (x - lo + base), None)"
        using arm k by (simp_all add: links_at_def e shifted_def get_def arms_of_def)
      then show ?thesis using arm k ids [of a] ids [of b] r update by (simp add: link_edge_def e Let_def)
    qed
  qed
  then show ?case using Cons.IH [of "past @ [e]"] Cons.prems by simp
qed simp

lemma links_start: "replicate m links_default = map (links_at [] lo base) [0..<m]"
  by (intro nth_equalityI) (simp_all add: links_default_def links_at_def shifted_def arms_of_def get_def)

section \<open>Arity of a compiled graph\<close>

fun arity :: "graph_kind \<Rightarrow> nat" where
  "arity (G_Join _) = 2"
| "arity G_Finally = 2"
| "arity (G_Let _) = 2"
| "arity G_Sequence = 2"
| "arity (G_Acting _) = 1"
| "arity (G_Branch _) = 1"
| "arity _ = 0"

lemma laid_arity:
  assumes "laid K A X n \<sigma> lo" "lo \<le> i" "i < lo + nodes_of n"
  shows "length (A i) = arity (K i) \<and> (i \<noteq> exit_of n lo \<longrightarrow> length (X i) \<le> 1)"
  using assms
proof (induction n arbitrary: lo \<sigma>)
  case (D_AndThen d s)
  show ?case
  proof (cases "i < lo + nodes_of d")
    case True
    then show ?thesis using D_AndThen.IH [of \<sigma> lo] D_AndThen.prems by (cases "i = exit_of d lo") auto
  next
    case False
    then have "i = lo + nodes_of d" using D_AndThen.prems(3) by simp
    then show ?thesis using D_AndThen.prems(1) by simp
  qed
next
  case (D_OrElse d s)
  then show ?case by (cases "i = lo"; cases "i = exit_of d (lo + 1)") auto
next
  case (D_Acting p d)
  then show ?case by (cases "i = lo"; cases "i = exit_of d (lo + 1)") auto
next
  case (D_Finally a b)
  then show ?case by (cases "i = lo"; cases "i < lo + 1 + nodes_of a"; cases "i = exit_of a (lo + 1)"; cases "i = exit_of b (lo + 1 + nodes_of a)") auto
next
  case (D_Both a b)
  then show ?case by (cases "i = lo"; cases "i < lo + 1 + nodes_of a"; cases "i = exit_of a (lo + 1)"; cases "i = exit_of b (lo + 1 + nodes_of a)") auto
next
  case (D_Race a b)
  then show ?case by (cases "i = lo"; cases "i < lo + 1 + nodes_of a"; cases "i = exit_of a (lo + 1)"; cases "i = exit_of b (lo + 1 + nodes_of a)") auto
next
  case (D_Let x a b)
  then show ?case by (cases "i = lo"; cases "i < lo + 1 + nodes_of a"; cases "i = exit_of a (lo + 1)"; cases "i = exit_of b (lo + 1 + nodes_of a)"; cases "x \<in> free_names b") auto
qed (auto simp: less_Suc_eq)

section \<open>Lowered nodes\<close>

text \<open>
  \<open>translated\<close>: the instruction for a node, given all imports, the requests behind the nodes (from
  address \<open>recovers\<close> on) and the number of bindings of the finished program.
\<close>

fun translated ::
  "native_import list \<Rightarrow> instruction list \<Rightarrow> usize \<Rightarrow> u32 \<Rightarrow> node_links \<Rightarrow> graph_kind \<Rightarrow>
   (tainted_value, tainted_failure) node_kind \<Rightarrow> bool" where
  "translated im ex b recovers l (G_Pure v) k \<longleftrightarrow> k = N_Literal \<lparr>tv_value = v, tv_taint = taint_author\<rparr>"
| "translated im ex b recovers l (G_Fail f) k \<longleftrightarrow> k = N_Fail (failure_pristine f)"
| "translated im ex b recovers l (G_Load slot) k \<longleftrightarrow> k = N_Load slot \<and> slot < b"
| "translated im ex b recovers l (G_Operation t) k \<longleftrightarrow> (\<exists>i. k = N_Request i \<and> get im i = Some (I_Operation t))"
| "translated im ex b recovers l (G_Step s) k \<longleftrightarrow> (\<exists>i. k = N_Request i \<and> get im i = Some (I_Step s None))"
| "translated im ex b recovers l (G_Wait w) k \<longleftrightarrow> (\<exists>i. k = N_Request i \<and> get im i = Some (import_wait w))"
| "translated im ex b recovers l (G_Acting p) k \<longleftrightarrow>
     (\<exists>i body. k = N_Scope i body \<and> fst (lk_arms l) = Some body \<and> get im i = Some (I_Scope p))"
| "translated im ex b recovers l (G_Branch (Branch_OrElse s)) k \<longleftrightarrow>
     (\<exists>i body j pos. k = N_Catch body (recovers + j) \<and> fst (lk_arms l) = Some body \<and>
        get ex j = Some (node_new (N_Request i) pos) \<and> get im i = Some (I_Step s None))"
| "translated im ex b recovers l G_Finally k \<longleftrightarrow> (\<exists>x y. k = N_Finally x y \<and> lk_arms l = (Some x, Some y))"
| "translated im ex b recovers l G_Sequence k \<longleftrightarrow> (\<exists>x y. k = N_Then x y \<and> lk_arms l = (Some x, Some y))"
| "translated im ex b recovers l (G_Let slot) k \<longleftrightarrow>
     (\<exists>x y. k = N_Let slot x y \<and> lk_arms l = (Some x, Some y) \<and> slot < b)"
| "translated im ex b recovers l (G_Join j) k \<longleftrightarrow>
     (\<exists>x y. k = N_Fork x y (case j of Join_Both \<Rightarrow> Join_All | Join_First \<Rightarrow> Join_Race) \<and> lk_arms l = (Some x, Some y))"

lemma get_append: "get xs i = Some x \<Longrightarrow> get (xs @ ys) i = Some x"
  by (auto simp: get_def nth_append split: if_splits)

lemma translated_mono:
  assumes "translated im ex b recovers l g k" "b \<le> b'"
  shows "translated (im @ im') (ex @ ex') b' recovers l g k"
proof (cases g)
  case (G_Branch x)
  moreover obtain s where "x = Branch_OrElse s" by (cases x)
  moreover from calculation assms(1) obtain i body j pos where "k = N_Catch body (recovers + j)" "fst (lk_arms l) = Some body"
    "get ex j = Some (node_new (N_Request i) pos)" "get im i = Some (I_Step s None)" by auto
  moreover note get_append [OF this(3)] get_append [OF this(4)]
  ultimately show ?thesis by auto
qed (use assms in \<open>auto simp: nth_append\<close>)

text \<open>A node whose arms fit its kind and whose slot fits the limit is lowered.\<close>

fun slots_in :: "graph_kind \<Rightarrow> u32 set" where
  "slots_in (G_Let s) = {s}"
| "slots_in (G_Load s) = {s}"
| "slots_in _ = {}"

definition arms_fit :: "graph_kind \<Rightarrow> node_links \<Rightarrow> bool" where
  "arms_fit g l \<longleftrightarrow> (\<exists>xs. length xs = arity g \<and> lk_arms l = arms_of xs)"

definition grows :: "machine_program \<Rightarrow> nat \<Rightarrow> usize \<Rightarrow> machine_program \<Rightarrow> bool" where
  "grows p k limit p' \<longleftrightarrow>
     (\<exists>im. mp_imports p' = mp_imports p @ im \<and> length im \<le> k) \<and> mp_bindings p \<le> mp_bindings p' \<and>
     mp_bindings p' \<le> max (mp_bindings p) limit \<and> mp_id p' = mp_id p \<and> mp_entry p' = mp_entry p"

lemma lower_kind_ok:
  assumes arms: "arms_fit g l" and slots: "\<forall>s \<in> slots_in g. s < min limit u32_max"
    and small: "length (mp_imports p) \<le> u32_max"
  shows "\<exists>k ex p'. lower_kind limit (recovers + length extra) pos l p g = Ok (k, ex, p') \<and> mp_nodes p' = mp_nodes p \<and>
    grows p 1 limit p' \<and> translated (mp_imports p') (extra @ ex) (mp_bindings p') recovers l g k \<and>
    length ex = (if is_branch g then 1 else 0)"
proof -
  obtain xs where xs: "length xs = arity g" "lk_arms l = arms_of xs" using arms by (auto simp: arms_fit_def)
  have two: "\<exists>x y. lk_arms l = (Some x, Some y)" if "arity g = 2"
    using xs that by (auto simp: arms_of_def get_def)
  have one: "\<exists>x. fst (lk_arms l) = Some x" if "arity g = 1"
    using xs that by (auto simp: arms_of_def get_def)
  have idx: "length (mp_imports p) mod 4294967296 = length (mp_imports p)" using small by (simp add: u32_max_def)
  have ins: "get (ys @ [y]) (length ys) = Some y" for ys :: "instruction list" and y by (simp add: get_def)
  have im: "get (ys @ [y]) (length ys) = Some y" for ys :: "native_import list" and y by (simp add: get_def)
  note defs = add_import_def idx first_arm_def both_arms_def grows_def ins im
  show ?thesis
  proof (cases g)
    case (G_Branch x)
    moreover obtain s where "x = Branch_OrElse s" by (cases x)
    moreover from calculation obtain body where "fst (lk_arms l) = Some body" using one by auto
    moreover have "translated (mp_imports p @ [I_Step s None]) (extra @ [node_new (N_Request (length (mp_imports p))) pos])
      (mp_bindings p) recovers l (G_Branch (Branch_OrElse s)) (N_Catch body (recovers + length extra))"
      unfolding translated.simps
      by (intro exI [of _ "length (mp_imports p)"] exI [of _ body] exI [of _ "length extra"] exI [of _ pos])
        (simp only: calculation ins im simp_thms)
    ultimately show ?thesis by (simp add: defs del: translated.simps)
  qed (use two one slots in \<open>auto simp: defs min_le_iff_disj\<close>)
qed


lemma lower_kind_full:
  assumes "arms_fit g l" "\<exists>s \<in> slots_in g. min limit u32_max \<le> s"
  shows "lower_kind limit recover pos l p g = Err (machine_error ''binding capacity exceeded'')"
proof -
  obtain xs where xs: "length xs = arity g" "lk_arms l = arms_of xs" using assms(1) by (auto simp: arms_fit_def)
  have "\<exists>x y. lk_arms l = (Some x, Some y)" if "arity g = 2"
    using xs that by (auto simp: arms_of_def get_def)
  then show ?thesis using assms(2) by (cases g) (auto simp: both_arms_def)
qed

lemma arms_fit_second: "arms_fit g l \<Longrightarrow> takes_two g \<or> snd (lk_arms l) = None"
  by (cases g) (auto simp: arms_fit_def arms_of_def get_def)

text \<open>\<open>recovery\<close>: a request behind the nodes of a graph, for a recovery step.\<close>

definition recovery :: "native_import list \<Rightarrow> instruction \<Rightarrow> bool" where
  "recovery im c \<longleftrightarrow> (\<exists>i pos. c = node_new (N_Request i) pos \<and> i < length im)"

lemma lower_kind_recovery:
  assumes "lower_kind limit recover pos l p g = Ok (k, ex, p')" "length (mp_imports p) \<le> u32_max" "c \<in> set ex"
  shows "recovery (mp_imports p') c"
proof -
  have "length (mp_imports p) mod 4294967296 = length (mp_imports p)" using assms(2) by (simp add: u32_max_def)
  then show ?thesis
    using assms(1,3) by (cases "(limit, recover, pos, l, p, g)" rule: lower_kind.cases)
      (auto simp: recovery_def node_new_def add_import_def both_arms_def first_arm_def ok_or_def split: if_splits option.splits prod.splits)
qed

definition code_for ::
  "machine_program \<Rightarrow> instruction list \<Rightarrow> u32 \<Rightarrow> (graph_node \<times> node_links) \<Rightarrow> instruction \<Rightarrow> bool" where
  "code_for p ex recovers = (\<lambda>(n, l) c.
     nd_next c = lk_next l \<and> nd_position c = gn_id n \<and>
     translated (mp_imports p) ex (mp_bindings p) recovers l (gn_kind n) (nd_kind c))"

lemma code_for_mono:
  assumes "code_for p ex recovers nl c" "grows p k limit p'"
  shows "code_for p' (ex @ ex') recovers nl c"
  using assms by (auto simp: code_for_def grows_def intro: translated_mono)

lemma grows_trans: "grows p j limit p' \<Longrightarrow> grows p' k limit p'' \<Longrightarrow> grows p (j + k) limit p''"
  by (auto simp: grows_def)

lemma grows_code: "grows p k limit (p'\<lparr>mp_nodes := xs\<rparr>) = grows p k limit p'" "grows (p\<lparr>mp_nodes := xs\<rparr>) k limit p' = grows p k limit p'"
  by (simp_all add: grows_def)

lemma lower_nodes_ok:
  assumes "\<forall>(n, l) \<in> set ns. arms_fit (gn_kind n) l \<and> (\<forall>s \<in> slots_in (gn_kind n). s < min limit u32_max)"
    and "length (mp_imports p) + length ns \<le> u32_max"
  shows "\<exists>code ex p'. lower_nodes limit recovers ns p extra = Ok (p', extra @ ex) \<and>
    mp_nodes p' = mp_nodes p @ code \<and> grows p (length ns) limit p' \<and>
    list_all2 (code_for p' (extra @ ex) recovers) ns code \<and>
    length ex = length (filter (\<lambda>(n, l). is_branch (gn_kind n)) ns) \<and> list_all (recovery (mp_imports p')) ex"
  using assms
proof (induction ns arbitrary: p extra)
  case (Cons nl ns)
  obtain n l where nl: "nl = (n, l)" by (cases nl)
  have fit: "arms_fit (gn_kind n) l" "\<forall>s \<in> slots_in (gn_kind n). s < min limit u32_max"
    and small: "length (mp_imports p) \<le> u32_max"
    using Cons.prems nl by simp_all
  obtain k ex p1 where k: "lower_kind limit (recovers + length extra) (gn_id n) l p (gn_kind n) = Ok (k, ex, p1)"
    and p1: "mp_nodes p1 = mp_nodes p" "grows p 1 limit p1"
      "translated (mp_imports p1) (extra @ ex) (mp_bindings p1) recovers l (gn_kind n) k"
      "length ex = (if is_branch (gn_kind n) then 1 else 0)"
    using lower_kind_ok [OF fit small, of recovers extra "gn_id n"] by blast
  define c where "c = (\<lparr>nd_kind = k, nd_next = lk_next l, nd_position = gn_id n\<rparr> :: instruction)"
  define p2 where "p2 = p1\<lparr>mp_nodes := mp_nodes p @ [c]\<rparr>"
  have im: "mp_imports p2 = mp_imports p1" by (simp add: p2_def)
  have step: "lower_node limit recovers n l p extra = Ok (p2, extra @ ex)"
    using k p1(1) arms_fit_second [OF fit(1)] by (auto simp: lower_node_def p2_def c_def)
  have "\<forall>(n, l) \<in> set ns. arms_fit (gn_kind n) l \<and> (\<forall>s \<in> slots_in (gn_kind n). s < min limit u32_max)"
    using Cons.prems(1) by auto
  moreover have "length (mp_imports p2) + length ns \<le> u32_max" using p1(2) Cons.prems(2) im by (auto simp: grows_def)
  ultimately obtain code ex' p' where rest: "lower_nodes limit recovers ns p2 (extra @ ex) = Ok (p', (extra @ ex) @ ex')"
    "mp_nodes p' = mp_nodes p2 @ code" "grows p2 (length ns) limit p'"
    "list_all2 (code_for p' ((extra @ ex) @ ex') recovers) ns code"
    "length ex' = length (filter (\<lambda>(n, l). is_branch (gn_kind n)) ns)" "list_all (recovery (mp_imports p')) ex'"
    using Cons.IH [of p2 "extra @ ex"] by blast
  have "code_for p2 (extra @ ex) recovers nl c" using p1(3) by (simp add: code_for_def nl c_def p2_def)
  then have "code_for p' ((extra @ ex) @ ex') recovers nl c" using rest(3) by (rule code_for_mono)
  moreover have "grows p (1 + length ns) limit p'"
    using grows_trans [OF p1(2)] rest(3) by (simp add: p2_def grows_code)
  moreover have "list_all (recovery (mp_imports p')) ex"
    using lower_kind_recovery [OF k small] rest(3) im
    by (fastforce simp: list_all_iff recovery_def grows_def)
  ultimately show ?case
    using step rest p1(4) nl
    by (intro exI [of _ "c # code"] exI [of _ "ex @ ex'"] exI [of _ p']) (simp add: p2_def)
qed (simp add: grows_def)

lemma lower_nodes_full:
  assumes "\<forall>(n, l) \<in> set ns. arms_fit (gn_kind n) l" "\<exists>(n, l) \<in> set ns. \<exists>s \<in> slots_in (gn_kind n). min limit u32_max \<le> s"
    and "length (mp_imports p) + length ns \<le> u32_max"
  shows "lower_nodes limit recovers ns p extra = Err (machine_error ''binding capacity exceeded'')"
  using assms
proof (induction ns arbitrary: p extra)
  case (Cons nl ns)
  obtain n l where nl: "nl = (n, l)" by (cases nl)
  have fit: "arms_fit (gn_kind n) l" and small: "length (mp_imports p) \<le> u32_max"
    using Cons.prems nl by simp_all
  show ?case
  proof (cases "\<exists>s \<in> slots_in (gn_kind n). min limit u32_max \<le> s")
    case True
    then show ?thesis
      using lower_kind_full [OF fit True] arms_fit_second [OF fit] by (auto simp: nl lower_node_def)
  next
    case False
    then have slots: "\<forall>s \<in> slots_in (gn_kind n). s < min limit u32_max" by (auto simp: not_le)
    then obtain k ex p1 where k: "lower_kind limit (recovers + length extra) (gn_id n) l p (gn_kind n) = Ok (k, ex, p1)"
      "grows p 1 limit p1"
      using lower_kind_ok [OF fit slots small, of recovers extra "gn_id n"] by blast
    moreover from this have "lower_nodes limit recovers ns (p1\<lparr>mp_nodes := xs\<rparr>) (extra @ ex) = Err (machine_error ''binding capacity exceeded'')" for xs
      using False Cons.prems nl by (intro Cons.IH) (auto simp: grows_def)
    ultimately show ?thesis using arms_fit_second [OF fit] by (auto simp: nl lower_node_def)
  qed
qed simp


section \<open>The image of a compiled program\<close>

definition kind_at :: "machine_program \<Rightarrow> u32 \<Rightarrow> (tainted_value, tainted_failure) node_kind option" where
  "kind_at p i = map_option nd_kind (get (mp_nodes p) i)"

definition next_at :: "machine_program \<Rightarrow> u32 \<Rightarrow> u32 option" where
  "next_at p i = Option.bind (get (mp_nodes p) i) nd_next"

definition requests :: "machine_program \<Rightarrow> u32 \<Rightarrow> native_import \<Rightarrow> bool" where
  "requests p i x \<longleftrightarrow> (\<exists>j. kind_at p i = Some (N_Request j) \<and> get (mp_imports p) j = Some x)"

text \<open>\<open>recoveries\<close>: the requests of an image that no node of the graph stands for.\<close>

fun recoveries :: "do_node \<Rightarrow> nat" where
  "recoveries (D_AndThen d _) = recoveries d"
| "recoveries (D_OrElse d _) = Suc (recoveries d)"
| "recoveries (D_Acting _ d) = recoveries d"
| "recoveries (D_Finally a b) = recoveries a + recoveries b"
| "recoveries (D_Both a b) = recoveries a + recoveries b"
| "recoveries (D_Race a b) = recoveries a + recoveries b"
| "recoveries (D_Let _ a b) = recoveries a + recoveries b"
| "recoveries _ = 0"

text \<open>\<open>coded p n \<sigma> lo\<close>: the instructions from address \<open>lo\<close> on are the code of the program \<open>n\<close>.\<close>

fun coded :: "machine_program \<Rightarrow> do_node \<Rightarrow> (string \<rightharpoonup> u32) \<Rightarrow> u32 \<Rightarrow> bool" where
  "coded p (D_Pure v) \<sigma> lo \<longleftrightarrow> kind_at p lo = Some (N_Literal \<lparr>tv_value = v, tv_taint = taint_author\<rparr>)"
| "coded p (D_Fail f) \<sigma> lo \<longleftrightarrow> kind_at p lo = Some (N_Fail (failure_pristine f))"
| "coded p (D_Op t) \<sigma> lo \<longleftrightarrow> requests p lo (I_Operation t)"
| "coded p (D_Wait w) \<sigma> lo \<longleftrightarrow> requests p lo (import_wait w)"
| "coded p (D_Use x) \<sigma> lo \<longleftrightarrow> (\<exists>s. \<sigma> x = Some s \<and> s < mp_bindings p \<and> kind_at p lo = Some (N_Load s))"
| "coded p (D_AndThen d s) \<sigma> lo \<longleftrightarrow>
     coded p d \<sigma> lo \<and> next_at p (exit_of d lo) = Some (lo + nodes_of d) \<and>
     requests p (lo + nodes_of d) (I_Step s None)"
| "coded p (D_OrElse d s) \<sigma> lo \<longleftrightarrow>
     (\<exists>r. kind_at p lo = Some (N_Catch (lo + 1) r) \<and> requests p r (I_Step s None) \<and> next_at p r = None) \<and>
     coded p d \<sigma> (lo + 1) \<and> next_at p (exit_of d (lo + 1)) = None"
| "coded p (D_Acting q d) \<sigma> lo \<longleftrightarrow>
     (\<exists>i. kind_at p lo = Some (N_Scope i (lo + 1)) \<and> get (mp_imports p) i = Some (I_Scope q)) \<and>
     coded p d \<sigma> (lo + 1) \<and> next_at p (exit_of d (lo + 1)) = None"
| "coded p (D_Finally a b) \<sigma> lo \<longleftrightarrow>
     kind_at p lo = Some (N_Finally (lo + 1) (lo + 1 + nodes_of a)) \<and>
     coded p a \<sigma> (lo + 1) \<and> next_at p (exit_of a (lo + 1)) = None \<and>
     coded p b \<sigma> (lo + 1 + nodes_of a) \<and> next_at p (exit_of b (lo + 1 + nodes_of a)) = None"
| "coded p (D_Both a b) \<sigma> lo \<longleftrightarrow>
     kind_at p lo = Some (N_Fork (lo + 1) (lo + 1 + nodes_of a) Join_All) \<and>
     coded p a \<sigma> (lo + 1) \<and> next_at p (exit_of a (lo + 1)) = None \<and>
     coded p b \<sigma> (lo + 1 + nodes_of a) \<and> next_at p (exit_of b (lo + 1 + nodes_of a)) = None"
| "coded p (D_Race a b) \<sigma> lo \<longleftrightarrow>
     kind_at p lo = Some (N_Fork (lo + 1) (lo + 1 + nodes_of a) Join_Race) \<and>
     coded p a \<sigma> (lo + 1) \<and> next_at p (exit_of a (lo + 1)) = None \<and>
     coded p b \<sigma> (lo + 1 + nodes_of a) \<and> next_at p (exit_of b (lo + 1 + nodes_of a)) = None"
| "coded p (D_Let x v b) \<sigma> lo \<longleftrightarrow>
     coded p v \<sigma> (lo + 1) \<and> next_at p (exit_of v (lo + 1)) = None \<and> next_at p (exit_of b (lo + 1 + nodes_of v)) = None \<and>
     (if x \<in> free_names b
      then \<exists>t. kind_at p lo = Some (N_Let t (lo + 1) (lo + 1 + nodes_of v)) \<and> t < mp_bindings p \<and>
             coded p b (\<sigma>(x \<mapsto> t)) (lo + 1 + nodes_of v) \<and> (\<forall>y \<in> free_names b - {x}. \<sigma> y \<noteq> Some t)
      else kind_at p lo = Some (N_Then (lo + 1) (lo + 1 + nodes_of v)) \<and> coded p b \<sigma> (lo + 1 + nodes_of v))"

text \<open>\<open>realises\<close>: the program has an instruction for every position, as the kinds, arms and continuations there say.\<close>

definition realises ::
  "machine_program \<Rightarrow> instruction list \<Rightarrow> nat \<Rightarrow> (u32 \<Rightarrow> graph_kind) \<Rightarrow> (u32 \<Rightarrow> u32 list) \<Rightarrow> (u32 \<Rightarrow> u32 list) \<Rightarrow> bool" where
  "realises p ex m K A X \<longleftrightarrow>
     m + length ex = length (mp_nodes p) \<and> (\<forall>j < length ex. mp_nodes p ! (m + j) = ex ! j) \<and>
     (\<forall>i < m. next_at p i = get (X i) 0 \<and>
        (\<exists>k. kind_at p i = Some k \<and>
          translated (mp_imports p) ex (mp_bindings p) m \<lparr>lk_next = get (X i) 0, lk_arms = arms_of (A i)\<rparr> (K i) k))"

lemma arms_of_simps [simp]:
  "arms_of [] = (None, None)" "arms_of [x] = (Some x, None)" "arms_of [x, y] = (Some x, Some y)"
  by (simp_all add: arms_of_def get_def)

lemma get_first [simp]: "get [] i = None" "get (x # xs) 0 = Some x"
  by (simp_all add: get_def)

lemma realises_next: "realises p ex m K A X \<Longrightarrow> i < m \<Longrightarrow> next_at p i = get (X i) 0"
  unfolding realises_def by blast

lemma realises_kind:
  "realises p ex m K A X \<Longrightarrow> i < m \<Longrightarrow> \<exists>k. kind_at p i = Some k \<and>
    translated (mp_imports p) ex (mp_bindings p) m \<lparr>lk_next = get (X i) 0, lk_arms = arms_of (A i)\<rparr> (K i) k"
  unfolding realises_def by blast

lemma realises_recovery:
  assumes "realises p ex m K A X" "get ex j = Some (node_new (N_Request i) pos)" "get (mp_imports p) i = Some x"
  shows "requests p (m + j) x \<and> next_at p (m + j) = None"
proof -
  have "get (mp_nodes p) (m + j) = Some (node_new (N_Request i) pos)" using assms(1,2) by (auto simp: realises_def)
  then have "kind_at p (m + j) = Some (N_Request i)" "next_at p (m + j) = None"
    by (simp_all add: kind_at_def next_at_def node_new_def del: get_Some_iff)
  then show ?thesis using assms(3) by (auto simp: requests_def)
qed

lemma laid_coded:
  assumes "realises p ex m K A X" "laid K A X n \<sigma> lo" "lo + nodes_of n \<le> m"
  shows "coded p n \<sigma> lo"
  using assms(2,3)
proof (induction n arbitrary: \<sigma> lo)
  case (D_AndThen d s)
  have "exit_of d lo < m" "lo + nodes_of d < m" using D_AndThen.prems exit_range(2) [of d lo] by simp_all
  note realises_next [OF assms(1) this(1)] realises_kind [OF assms(1) this(2)]
  then show ?case using D_AndThen by (auto simp: requests_def)
next
  case (D_OrElse d s)
  have r: "exit_of d (lo + 1) < m" "lo < m" using D_OrElse.prems exit_range(2) [of d "lo + 1"] by simp_all
  obtain i j pos where c: "kind_at p lo = Some (N_Catch (lo + 1) (m + j))" "get ex j = Some (node_new (N_Request i) pos)"
    "get (mp_imports p) i = Some (I_Step s None)"
    using realises_kind [OF assms(1) r(2)] D_OrElse.prems(1) by auto
  then show ?case
    using D_OrElse.IH [of \<sigma> "lo + 1"] D_OrElse.prems realises_next [OF assms(1) r(1)] realises_recovery [OF assms(1) c(2,3)]
    by auto
next
  case (D_Acting q d)
  have r: "exit_of d (lo + 1) < m" "lo < m" using D_Acting.prems exit_range(2) [of d "lo + 1"] by simp_all
  then show ?case using D_Acting realises_next [OF assms(1) r(1)] realises_kind [OF assms(1) r(2)] by auto
next
  case (D_Finally a b)
  have r: "exit_of a (lo + 1) < m" "exit_of b (lo + 1 + nodes_of a) < m" "lo < m"
    using D_Finally.prems exit_range(2) [of a "lo + 1"] exit_range(2) [of b "lo + 1 + nodes_of a"] by simp_all
  then show ?case using D_Finally realises_next [OF assms(1) r(1)] realises_next [OF assms(1) r(2)] realises_kind [OF assms(1) r(3)]
    by auto
next
  case (D_Both a b)
  have r: "exit_of a (lo + 1) < m" "exit_of b (lo + 1 + nodes_of a) < m" "lo < m"
    using D_Both.prems exit_range(2) [of a "lo + 1"] exit_range(2) [of b "lo + 1 + nodes_of a"] by simp_all
  then show ?case using D_Both realises_next [OF assms(1) r(1)] realises_next [OF assms(1) r(2)] realises_kind [OF assms(1) r(3)]
    by auto
next
  case (D_Race a b)
  have r: "exit_of a (lo + 1) < m" "exit_of b (lo + 1 + nodes_of a) < m" "lo < m"
    using D_Race.prems exit_range(2) [of a "lo + 1"] exit_range(2) [of b "lo + 1 + nodes_of a"] by simp_all
  then show ?case using D_Race realises_next [OF assms(1) r(1)] realises_next [OF assms(1) r(2)] realises_kind [OF assms(1) r(3)]
    by auto
next
  case (D_Let x a b)
  have r: "exit_of a (lo + 1) < m" "exit_of b (lo + 1 + nodes_of a) < m" "lo < m"
    using D_Let.prems exit_range(2) [of a "lo + 1"] exit_range(2) [of b "lo + 1 + nodes_of a"] by simp_all
  then show ?case using D_Let realises_next [OF assms(1) r(1)] realises_next [OF assms(1) r(2)] realises_kind [OF assms(1) r(3)]
    by (auto split: if_splits)
next
  case (D_Pure v)
  then show ?case using realises_kind [OF assms(1), of lo] by (auto simp: requests_def)
next
  case (D_Use x)
  then show ?case using realises_kind [OF assms(1), of lo] by (auto simp: requests_def)
next
  case (D_Fail e)
  then show ?case using realises_kind [OF assms(1), of lo] by (auto simp: requests_def)
next
  case (D_Wait w)
  then show ?case using realises_kind [OF assms(1), of lo] by (auto simp: requests_def)
next
  case (D_Op t)
  then show ?case using realises_kind [OF assms(1), of lo] by (auto simp: requests_def)
qed

lemma upt_one: "[lo..<Suc (lo + a)] = lo # [Suc lo..<Suc (lo + a)]"
  by (rule upt_conv_Cons) simp

lemma upt_two: "[lo..<Suc (lo + (a + b))] = lo # [Suc lo..<Suc (lo + a)] @ [Suc (lo + a)..<Suc (lo + (a + b))]"
  using upt_add_eq_append [of "Suc lo" "Suc (lo + a)" b] by (simp add: upt_one add.assoc del: upt_Suc)

lemma laid_branches:
  assumes "laid K A X n \<sigma> lo"
  shows "length (filter (\<lambda>i. is_branch (K i)) [lo..<lo + nodes_of n]) = recoveries n"
  using assms
proof (induction n arbitrary: \<sigma> lo)
  case (D_AndThen d s)
  then show ?case by auto
next
  case (D_OrElse d s)
  then show ?case using D_OrElse.IH [of \<sigma> "lo + 1"] by (simp add: upt_one del: upt_Suc)
next
  case (D_Acting q d)
  then show ?case using D_Acting.IH [of \<sigma> "lo + 1"] by (simp add: upt_one del: upt_Suc)
next
  case (D_Finally a b)
  then show ?case using D_Finally.IH(1) [of \<sigma> "lo + 1"] D_Finally.IH(2) [of _ "lo + 1 + nodes_of a"]
    by (auto simp: upt_two add.assoc simp del: upt_Suc split: if_splits)
next
  case (D_Both a b)
  then show ?case using D_Both.IH(1) [of \<sigma> "lo + 1"] D_Both.IH(2) [of _ "lo + 1 + nodes_of a"]
    by (auto simp: upt_two add.assoc simp del: upt_Suc split: if_splits)
next
  case (D_Race a b)
  then show ?case using D_Race.IH(1) [of \<sigma> "lo + 1"] D_Race.IH(2) [of _ "lo + 1 + nodes_of a"]
    by (auto simp: upt_two add.assoc simp del: upt_Suc split: if_splits)
next
  case (D_Let x a b)
  then show ?case using D_Let.IH(1) [of \<sigma> "lo + 1"] D_Let.IH(2) [of _ "lo + 1 + nodes_of a"]
    by (auto simp: upt_two add.assoc simp del: upt_Suc split: if_splits)
qed (auto simp: upt_rec)


lemma arms_range:
  "(\<And>e. e \<in> set es \<Longrightarrow> ge_to e < m) \<Longrightarrow> x \<in> set (arms es i) \<Longrightarrow> x < m"
  "(\<And>e. e \<in> set es \<Longrightarrow> ge_to e < m) \<Longrightarrow> x \<in> set (thens es i) \<Longrightarrow> x < m"
  by (auto simp: arms_def thens_def)

lemma get_in_set: "get xs i = Some x \<Longrightarrow> x \<in> set xs"
  by auto

lemma translated_closed:
  assumes "translated im ex b recovers l g k" "\<And>x. fst (lk_arms l) = Some x \<Longrightarrow> x < N" "\<And>x. snd (lk_arms l) = Some x \<Longrightarrow> x < N"
    and "recovers + length ex \<le> N"
  shows "list_all (\<lambda>i. i < N) (kind_nodes k)" "list_all (\<lambda>i. i < length im) (kind_imports k)" "list_all (\<lambda>i. i < b) (kind_bindings k)"
  using assms by (cases "(im, ex, b, recovers, l, g, k)" rule: translated.cases; fastforce)+

text \<open>The links of the nodes of a compiled graph.\<close>

definition graph_links :: "execution_graph \<Rightarrow> node_links list" where
  "graph_links g = map (links_at (xg_edges g) 0 0) [0..<length (xg_nodes g)]"

lemma links_at_zero: "links_at es 0 0 i = \<lparr>lk_next = get (thens es i) 0, lk_arms = arms_of (arms es i)\<rparr>"
  by (simp add: links_at_def shifted_def)

lemma graph_of_links:
  assumes "graph_of n 0 g"
  shows "index_edges g (graph_ids (xg_nodes g) 0) 0 = Ok (graph_links g)"
    "i < nodes_of n \<Longrightarrow> arms_fit (gn_kind (xg_nodes g ! i)) (links_at (xg_edges g) 0 0 i)"
proof -
  have len: "length (xg_nodes g) = nodes_of n" and ids: "\<And>k. k < length (xg_nodes g) \<Longrightarrow> gn_id (xg_nodes g ! k) = 0 + k"
    and edges: "\<And>e. e \<in> set (xg_edges g) \<Longrightarrow> ge_from e < nodes_of n \<and> ge_to e < nodes_of n \<and> ge_kind e \<in> {Edge_Then, Edge_Arm}"
    and exit: "thens (xg_edges g) (exit_of n 0) = []"
    and laid: "laid (\<lambda>i. gn_kind (xg_nodes g ! i)) (arms (xg_edges g)) (thens (xg_edges g)) n Map.empty 0"
    using assms by (auto simp: graph_of_def)
  have arity: "length (arms (xg_edges g) i) = arity (gn_kind (xg_nodes g ! i)) \<and> length (thens (xg_edges g) i) \<le> 1"
    if "i < nodes_of n" for i
    using laid_arity [OF laid, of i] that exit by (cases "i = exit_of n 0") auto
  have two: "arity k \<le> 2" for k by (cases k) simp_all
  show "index_edges g (graph_ids (xg_nodes g) 0) 0 = Ok (graph_links g)"
    unfolding index_edges_def graph_links_def len links_start [of _ 0 0]
    using link_edges_result [of 0 "nodes_of n" "graph_ids (xg_nodes g) 0" 0 "[]" "xg_edges g"]
      graph_ids_at(1) [OF ids] len edges arity two by simp
  show "arms_fit (gn_kind (xg_nodes g ! i)) (links_at (xg_edges g) 0 0 i)" if "i < nodes_of n"
    using arity [OF that] by (auto simp: arms_fit_def links_at_zero)
qed


definition slot_overflow :: "execution_graph \<Rightarrow> usize \<Rightarrow> bool" where
  "slot_overflow g limit \<longleftrightarrow> (\<exists>m \<in> set (xg_nodes g). \<exists>s \<in> slots_in (gn_kind m). min limit u32_max \<le> s)"

definition runs :: "machine_program \<Rightarrow> do_node \<Rightarrow> bool" where
  "runs p n \<longleftrightarrow>
     validate (program_image p) = Ok () \<and> mp_entry p = 0 \<and> length (mp_nodes p) = nodes_of n + recoveries n \<and>
     coded p n Map.empty 0 \<and> next_at p (exit_of n 0) = None"

definition program_start :: "8 word list \<Rightarrow> machine_program" where
  "program_start h = \<lparr>mp_nodes = [], mp_imports = [], mp_entry = 0, mp_bindings = 0, mp_id = h\<rparr>"

lemma lower_nodes_runs:
  assumes g: "graph_of n 0 g" and low: "lower_nodes limit (nodes_of n) (zip (xg_nodes g) (graph_links g)) (program_start h) [] = Ok (p', ex)"
    and code: "mp_nodes p' = code" "list_all2 (code_for p' ex (nodes_of n)) (zip (xg_nodes g) (graph_links g)) code"
    and ex: "length ex = recoveries n" "list_all (recovery (mp_imports p')) ex" and entry: "mp_entry p' = 0"
  shows "runs (p'\<lparr>mp_nodes := code @ ex\<rparr>) n"
proof -
  let ?p = "p'\<lparr>mp_nodes := code @ ex\<rparr>" and ?N = "nodes_of n + recoveries n"
  have len: "length (xg_nodes g) = nodes_of n" "length code = nodes_of n"
    using g list_all2_lengthD [OF code(2)] by (simp_all add: graph_of_def graph_links_def)
  have edges: "\<And>e. e \<in> set (xg_edges g) \<Longrightarrow> ge_to e < nodes_of n" and exit: "thens (xg_edges g) (exit_of n 0) = []"
    and laid: "laid (\<lambda>i. gn_kind (xg_nodes g ! i)) (arms (xg_edges g)) (thens (xg_edges g)) n Map.empty 0"
    using g by (auto simp: graph_of_def)
  have at: "nd_next (code ! i) = get (thens (xg_edges g) i) 0"
    "translated (mp_imports p') ex (mp_bindings p') (nodes_of n) (links_at (xg_edges g) 0 0 i) (gn_kind (xg_nodes g ! i)) (nd_kind (code ! i))"
    if "i < nodes_of n" for i
    using list_all2_nthD [OF code(2), of i] that len by (simp_all add: code_for_def graph_links_def links_at_zero)
  have r: "realises ?p ex (nodes_of n) (\<lambda>i. gn_kind (xg_nodes g ! i)) (arms (xg_edges g)) (thens (xg_edges g))"
    using at len by (auto simp: realises_def next_at_def kind_at_def get_def nth_append links_at_zero)
  have coded: "coded ?p n Map.empty 0" using laid_coded [OF r laid] by simp
  have last: "next_at ?p (exit_of n 0) = None"
    using realises_next [OF r, of "exit_of n 0"] exit_range(2) [of n 0] exit by simp
  have closed: "node_closed ?N (length (mp_imports p')) (mp_bindings p') c" if c: "c \<in> set code" for c
  proof -
    obtain i where i: "i < nodes_of n" "c = code ! i" using c len by (auto simp: in_set_conv_nth)
    have "x < ?N" if "nd_next c = Some x" for x
      using get_in_set [of "thens (xg_edges g) i" 0 x] arms_range(2) [of "xg_edges g" "nodes_of n" x i, OF edges] that at(1) [OF i(1)] i(2) by force
    moreover have "x < ?N" if "fst (lk_arms (links_at (xg_edges g) 0 0 i)) = Some x \<or> snd (lk_arms (links_at (xg_edges g) 0 0 i)) = Some x" for x
      using get_in_set [of "arms (xg_edges g) i" 0 x] get_in_set [of "arms (xg_edges g) i" 1 x] arms_range(1) [of "xg_edges g" "nodes_of n" x i, OF edges] that
      by (fastforce simp: links_at_zero arms_of_def simp del: get_Some_iff)
    ultimately show ?thesis
      using translated_closed [OF at(2) [OF i(1)], of ?N] i(2) ex(1)
      by (auto simp: node_closed_def node_targets_def list_all_iff split: option.splits)
  qed
  have "node_closed ?N (length (mp_imports p')) (mp_bindings p') c" if "c \<in> set ex" for c
    using ex(2) that by (auto simp: list_all_iff recovery_def node_closed_def node_targets_def node_new_def)
  with closed have "image_closed (program_image ?p)"
    using len ex(1) entry nodes_children(2) [of n] by (auto simp: image_closed_def program_image_def)
  then show ?thesis using coded last len ex(1) entry by (simp add: runs_def validate_Ok_iff)
qed


lemma graph_of_branches:
  assumes "graph_of n 0 g"
  shows "length (filter (\<lambda>m. is_branch (gn_kind m)) (xg_nodes g)) = recoveries n"
proof -
  have "xg_nodes g = map ((!) (xg_nodes g)) [0..<nodes_of n]"
    using assms map_nth [of "xg_nodes g"] by (simp add: graph_of_def)
  then have "length (filter (\<lambda>m. is_branch (gn_kind m)) (xg_nodes g)) =
      length (filter (\<lambda>i. is_branch (gn_kind (xg_nodes g ! i))) [0..<nodes_of n])"
    by (metis (mono_tags, lifting) comp_apply filter_cong filter_map length_map)
  moreover have "laid (\<lambda>i. gn_kind (xg_nodes g ! i)) (arms (xg_edges g)) (thens (xg_edges g)) n Map.empty 0"
    using assms by (simp add: graph_of_def)
  ultimately show ?thesis using laid_branches by fastforce
qed

lemma zip_links:
  assumes "graph_of n 0 g"
  shows "\<forall>(m, l) \<in> set (zip (xg_nodes g) (graph_links g)). arms_fit (gn_kind m) l"
    "length (zip (xg_nodes g) (graph_links g)) = nodes_of n"
    "map fst (zip (xg_nodes g) (graph_links g)) = xg_nodes g"
  using assms graph_of_links(2) [OF assms] by (auto simp: graph_of_def graph_links_def in_set_zip)

lemma bind_result_assoc: "bind_result (bind_result r f) h = bind_result r (\<lambda>x. bind_result (f x) h)"
  by (cases r) simp_all

lemma machine_lower_result:
  assumes g: "graph_of n 0 g"
  shows "if min max_instructions u32_max < nodes_of n + recoveries n
    then machine_lower g max_instructions max_bindings = Err (machine_error ''instruction capacity exceeded'')
    else if slot_overflow g max_bindings
    then machine_lower g max_instructions max_bindings = Err (machine_error ''binding capacity exceeded'')
    else \<exists>p. machine_lower g max_instructions max_bindings = Ok p \<and> runs p n \<and> mp_id p = xg_hash g \<and> mp_bindings p \<le> max_bindings"
proof (cases "min max_instructions u32_max < nodes_of n + recoveries n")
  case True
  have len: "length (xg_nodes g) = nodes_of n" using g by (simp add: graph_of_def)
  have "min max_instructions u32_max < saturating_add usize_max (saturating_add usize_max (nodes_of n) (recoveries n)) 0"
    using True by (auto simp: saturating_add_def usize_max_def u32_max_def)
  then show ?thesis using True len graph_of_branches [OF g] by (simp add: machine_lower_def lower_graph_def Let_def)
next
  case False
  let ?ns = "zip (xg_nodes g) (graph_links g)" and ?p0 = "program_start (xg_hash g)"
  have len: "length (xg_nodes g) = nodes_of n" using g by (simp add: graph_of_def)
  have ids: "\<And>k. k < length (xg_nodes g) \<Longrightarrow> gn_id (xg_nodes g ! k) = 0 + k" and root: "xg_root g = 0"
    using g by (auto simp: graph_of_def)
  have fits: "\<not> min max_instructions u32_max < saturating_add usize_max (saturating_add usize_max (nodes_of n) (recoveries n)) 0"
    using False by (auto simp: saturating_add_def usize_max_def u32_max_def)
  have small: "length (mp_imports ?p0) + length ?ns \<le> u32_max" using False zip_links(2) [OF g] by (simp add: program_start_def)
  have mem: "(\<exists>(m, l) \<in> set ?ns. \<exists>s \<in> slots_in (gn_kind m). min max_bindings u32_max \<le> s) \<longleftrightarrow> slot_overflow g max_bindings"
  proof -
    have "slot_overflow g max_bindings \<longleftrightarrow> (\<exists>m \<in> fst ` set ?ns. \<exists>s \<in> slots_in (gn_kind m). min max_bindings u32_max \<le> s)"
      using zip_links(3) [OF g] unfolding slot_overflow_def by (metis set_map)
    then show ?thesis by (simp add: case_prod_beta)
  qed
  have empty: "mp_nodes ?p0 = []" by (simp add: program_start_def)
  have unfold: "machine_lower g max_instructions max_bindings =
      bind_result (lower_nodes max_bindings (nodes_of n) ?ns ?p0 []) (\<lambda>(p, extra).
        bind_result (map_err (\<lambda>f. machine_error (''invalid image: '' @ fault_debug f)) (validate (program_image (p\<lparr>mp_nodes := mp_nodes p @ extra\<rparr>)))) (\<lambda>_.
          Ok (p\<lparr>mp_nodes := mp_nodes p @ extra, mp_entry := 0\<rparr>)))"
    using empty fits len graph_of_branches [OF g] graph_of_links(1) [OF g] graph_ids_at [OF ids, of 0] root nodes_children(2) [of n]
    by (simp add: machine_lower_def lower_graph_def Let_def program_start_def [symmetric] bind_result_assoc case_prod_beta')
  show ?thesis
  proof (cases "slot_overflow g max_bindings")
    case True
    then show ?thesis
      using lower_nodes_full [OF zip_links(1) [OF g] _ small, of max_bindings "nodes_of n" "[]"] mem False unfold by simp
  next
    case no: False
    then have "\<forall>(m, l) \<in> set ?ns. arms_fit (gn_kind m) l \<and> (\<forall>s \<in> slots_in (gn_kind m). s < min max_bindings u32_max)"
      using zip_links(1) [OF g] mem by (auto simp: not_le)
    from lower_nodes_ok [OF this small, of "nodes_of n" "[]"] obtain code ex p' where
      p': "lower_nodes max_bindings (nodes_of n) ?ns ?p0 [] = Ok (p', ex)" "mp_nodes p' = code" "grows ?p0 (length ?ns) max_bindings p'"
        "list_all2 (code_for p' ex (nodes_of n)) ?ns code"
        "length ex = length (filter (\<lambda>(n, l). is_branch (gn_kind n)) ?ns)" "list_all (recovery (mp_imports p')) ex"
      by (auto simp: program_start_def)
    have "length (filter (\<lambda>(n, l). is_branch (gn_kind n)) ?ns) = length (filter (\<lambda>m. is_branch (gn_kind m)) (map fst ?ns))"
      by (simp add: filter_map comp_def case_prod_beta')
    then have count: "length ex = recoveries n" using p'(5) zip_links(3) [OF g] graph_of_branches [OF g] by simp
    have kept: "mp_entry p' = 0" "mp_id p' = xg_hash g" "mp_bindings p' \<le> max_bindings"
      using p'(3) by (simp_all add: grows_def program_start_def)
    have "runs (p'\<lparr>mp_nodes := code @ ex\<rparr>) n" by (rule lower_nodes_runs [OF g p'(1,2,4) count p'(6) kept(1)])
    moreover have "machine_lower g max_instructions max_bindings = Ok (p'\<lparr>mp_nodes := code @ ex, mp_entry := 0\<rparr>)"
      using calculation unfold p'(1,2) by (simp add: runs_def)
    moreover have "p'\<lparr>mp_nodes := code @ ex, mp_entry := 0\<rparr> = p'\<lparr>mp_nodes := code @ ex\<rparr>" using kept(1) by (cases p') simp
    ultimately have "machine_lower g max_instructions max_bindings = Ok (p'\<lparr>mp_nodes := code @ ex\<rparr>)"
      "runs (p'\<lparr>mp_nodes := code @ ex\<rparr>) n" by metis+
    then show ?thesis using False no kept(2,3) by (intro if_split [THEN iffD2]) auto
  qed
qed


section \<open>From programs to images\<close>

text \<open>
  C7: a native program from its source to its image. When \<open>compile_do\<close> returns a graph, lowering that
  graph for an executor with room for \<open>max_instructions\<close> instructions and \<open>max_bindings\<close> bindings per
  task is decided by those two limits alone: no dangling edge, missing arm or invalid image can be
  reported. With room for both the result is an image that \<open>validate\<close> admits, one instruction per
  node of the program and one more per recovery step, that is instruction by instruction the code of
  the program.
\<close>

theorem native_programs_link:
  assumes "compile_do hash n = Return g"
  shows "if min max_instructions u32_max < nodes_of n + recoveries n
    then machine_lower g max_instructions max_bindings = Err (machine_error ''instruction capacity exceeded'')
    else if slot_overflow g max_bindings
    then machine_lower g max_instructions max_bindings = Err (machine_error ''binding capacity exceeded'')
    else \<exists>p. machine_lower g max_instructions max_bindings = Ok p \<and> mp_id p = xg_hash g \<and> mp_bindings p \<le> max_bindings \<and>
      validate (program_image p) = Ok () \<and> mp_entry p = 0 \<and> length (mp_nodes p) = nodes_of n + recoveries n \<and>
      coded p n Map.empty 0 \<and> next_at p (exit_of n 0) = None"
proof -
  have "graph_of n 0 g" by (rule compile_do_graph [OF assms])
  from machine_lower_result [OF this, of max_instructions max_bindings] show ?thesis
    unfolding runs_def by (auto split: if_splits)
qed


lemma demo_graph:
  "\<exists>g. compile_do (\<lambda>_. Ok [1]) demo_binds = Return g \<and> \<not> slot_overflow g 1"
  by (simp add: demo_binds_def compile_do_def preflight_def lower_def compiler_with_base_def graph_push_def leaf_def
      graph_edge_to_def use_slot_def close_binding_def step_new_def max_nodes_def checked_add_def u32_max_def Let_def
      slot_overflow_def)

theorem native_programs_link_witness:
  "\<exists>g p. compile_do (\<lambda>_. Ok [1]) demo_binds = Return g \<and> machine_lower g 6 1 = Ok p \<and>
     validate (program_image p) = Ok () \<and> length (mp_nodes p) = 6"
proof -
  obtain g where g: "compile_do (\<lambda>_. Ok [1]) demo_binds = Return g" "\<not> slot_overflow g 1" using demo_graph by blast
  have "nodes_of demo_binds = 5" "recoveries demo_binds = 1" by (simp_all add: demo_binds_def)
  then show ?thesis using native_programs_link [OF g(1), of 6 1] g by (auto simp: u32_max_def)
qed

end
