(* ===== verification/Spec2Isabelle.thy ===== *)
theory Spec2Isabelle
  imports Stream_Channel Linking Resource_Bounds Fault_Causes Grant_Laws Collection_Contract Graph_Lowering
begin

text \<open>
  A verification library for Xolotl, a capability-based runtime for agent programs. It covers the
  execution core (\<open>src/crates/xolotl-core\<close>), the vocabulary of authority and of values that the rest of
  the system is built on (\<open>src/crates/xolotl-types\<close>), and the way of a native program from its source
  to an instruction image (\<open>src/crates/xolotl-graph\<close> and \<open>executor/image.rs\<close> of
  \<open>src/crates/xolotl-kernel\<close>).

  \<^bold>\<open>The program.\<close> A program is a validated array of instructions, an \<^emph>\<open>image\<close>. An \<open>Execution\<close> runs
  it cooperatively: a fixed array of tasks, one pool of continuation frames shared by all of them,
  a fixed number of binding slots per task. It performs no I/O. When an instruction needs the
  outside world, \<open>advance\<close> returns a request with a fresh ticket, and the host answers with
  \<open>complete\<close>. Imports of a program are linked to \<^emph>\<open>handles\<close>, entries of a per-process table that can
  be derived with fewer rights, released and revoked. Above that level authority is written as
  capability literals and grants over resource paths. Authors write programs as trees of combinators;
  the compiler turns a tree into an execution graph, and the executor lowers the graph to an image,
  asks the analysis how much storage it needs, and runs it.

  \<^bold>\<open>Shared theories.\<close> \<open>Xolotl_Prelude\<close> has results, computations that return, raise or panic, and
  integer bounds. \<open>Rust_Text\<close>, \<open>Rust_Numbers\<close> and \<open>Rust_Search\<close> model the parts of the Rust standard
  library the sources call: string splitting and trimming, the parsing of \<open>i64\<close> and \<open>f64\<close>, and binary
  search. Strings are their UTF-8 bytes, floats their bit patterns. \<open>usize\<close> is 64 bits wide.
  \<open>Refinement\<close> has the locale of an object that answers every sequence of calls as its specification
  does; the collections and their iterators and builders are instances of it.

  \<^bold>\<open>Programs and storage.\<close>
  \<^item> \<open>Program_Image\<close> (\<open>program.rs\<close>, \<open>program/indices.rs\<close>): instructions, validation, traversal and
    rewriting of the addresses they contain. Validation accepts exactly the closed images.
  \<^item> \<open>Stream_Channel\<close> (\<open>stream.rs\<close>): the bounded ring-buffer channel, shown to answer every sequence
    of calls as a bounded queue does.
  \<^item> \<open>Frame_Pool\<close> (\<open>frame.rs\<close>): linked stacks with a free list in one array, shown to behave as
    independent lists under any interleaving of pushes and pops.

  \<^bold>\<open>The machine.\<close> \<open>Machine\<close> and \<open>Scheduler\<close> translate \<open>machine.rs\<close> and \<open>machine/references.rs\<close>:
  tasks, suspended images, host events (\<open>complete\<close>), each kind of frame and instruction
  (\<open>transition\<close>) and the round-robin scheduler (\<open>advance\<close>). A \<open>&mut self\<close> method that can fail is a
  function to an outcome and the changed state; an index out of range is the outcome \<open>Panic\<close>. The
  \<open>Values\<close> trait, which the host implements, is the record \<open>vals\<close>, an argument everywhere, with no
  assumption on its functions. \<open>Machine_Invariant\<close>, \<open>Machine_Safety\<close>, \<open>Machine_Steps\<close> and
  \<open>Machine_Runs\<close> prove that every step keeps the state invariant \<open>exec_inv\<close>; \<open>Machine_Storage\<close> adds
  construction, suspension and growth of the storage; \<open>Machine_Host\<close> defines the executions a host
  can reach. \<open>Machine_Contract\<close> states the results: no call panics, tickets are never reused, an
  answer is taken at most once, a bounded number of rounds passes between host actions once a
  limit applies, a waiting machine waits for a pending request, a \<open>Finally\<close> is entered and left
  through its cleanup as long as the task is given steps and its frame limit is not lowered,
  cancellation marks exactly a subtree, and suspension is transparent. \<open>Fault_Causes\<close> gives the cause
  of every fault a step can raise. The fuel of
  \<open>advance_loop\<close> is the \<open>fuel\<close> argument of the source. \<open>meets_root\<close>, the parent walk of
  \<open>cancel_tree\<close>, has no bound in the source; it is a partial function, proved to end on every
  execution that satisfies the invariant.

  \<^bold>\<open>Resource analysis.\<close> \<open>Analysis\<close> (\<open>analysis.rs\<close>) translates the depth-first search over an image that
  reports how many tasks and frames a run needs; the search is a partial function, proved to return.
  \<open>Task_Shapes\<close> abstracts a run to the positions and stacks of its tasks, and \<open>Resource_Bounds\<close> shows
  that storage of the reported size is enough for every run whose host answers with results and
  scopes.

  \<^bold>\<open>Handles.\<close> \<open>Authority\<close> translates \<open>authority.rs\<close> and \<open>authority/slot.rs\<close>; \<open>Authority_Invariant\<close>
  has the invariant of a table and the effect of each operation; \<open>Authority_Contract\<close> the results:
  rights only shrink along derivations, revocation reaches all descendants at once and for good
  although slots are reused, and release ends one key only.

  \<^bold>\<open>Linking.\<close> \<open>Linking\<close> (\<open>link.rs\<close> and \<open>advance_linked\<close>) joins the two: requests of a linked program
  reach the host only while the bound handle authorizes the bound method.

  \<^bold>\<open>Paths, capabilities and grants.\<close>
  \<^item> \<open>Path_Syntax\<close>, \<open>Path_Laws\<close> (\<open>path.rs\<close>, \<open>path/identifier.rs\<close>, \<open>path/namespace.rs\<close>): identifiers
    scanned in fragments, paths, their canonical text and its parser, which are inverse to each
    other.
  \<^item> \<open>Path_Glob\<close>: the iterative wildcard matcher against the recursive meaning of patterns, and
    soundness of pattern subsumption.
  \<^item> \<open>Value_Data\<close> (\<open>value.rs\<close>, \<open>value/resident.rs\<close>): the variants of values, which predicates read.
  \<^item> \<open>Provenance\<close> (\<open>failure.rs\<close>, \<open>taint.rs\<close>, \<open>taint/value.rs\<close>, \<open>taint/failure.rs\<close>): failures, and the labels
    that values and failures carry.
  \<^item> \<open>Capability\<close>, \<open>Capability_Literals\<close> (\<open>cap.rs\<close>): literals, predicates and coverage; printing and
    parsing.
  \<^item> \<open>Attenuation\<close>: the locale of attenuation orders, its instance for capabilities, and the one
    case in which coverage is not sound.
  \<^item> \<open>Grant\<close>, \<open>Grant_Laws\<close> (\<open>grant.rs\<close>): method selections, rights, selectors, constraints, expiry.

  \<^bold>\<open>Collections.\<close> \<open>Avl_Index\<close>, \<open>Value_List\<close>, \<open>Value_Map\<close> and \<open>Value_Assembly\<close> translate
  \<open>value/collection\<close>: the balanced index with cached heights, lengths and key summaries, sequences,
  maps, iteration, builders and conversions. \<open>Collection_Contract\<close> shows that they answer every
  sequence of calls as lists and finite maps do, publish what they accepted, and stay within their
  cached fields. A map converted from a \<open>BTreeMap\<close> is modelled from the ordered list of its entries.

  \<^bold>\<open>Native programs.\<close>
  \<^item> \<open>Do_Program\<close> (\<open>do_.rs\<close>): the program tree, its combinators, the walks over it and the binding of
    process-local paths.
  \<^item> \<open>Graph_Compile\<close> (\<open>graph.rs\<close>, \<open>compile.rs\<close>): execution graphs and the compiler with its explicit stack
    of frames and its allocation of lexical slots, shown equal to a recursion over the program. The
    content hash, computed by BLAKE3 over JSON, is a parameter.
  \<^item> \<open>Graph_Layout\<close>: what the compiler returns, error by error, and the layout of the graph of a program.
  \<^item> \<open>Graph_Lowering\<close> (\<open>executor/image.rs\<close>, \<open>executor/image/graph.rs\<close>): from graphs to images. A compiled
    program lowers to a valid image that is the code of the program, or meets one of two limits.

  \<^bold>\<open>Not modelled.\<close> Diagnostic texts, \<open>serde\<close> forms and hashing of the modelled types. Allocation
  failure, and the sharing and iterative release of trees, which no operation observes. The arena in
  which the executor appends the images of dynamically loaded steps. The rest of the kernel, which
  drives the machine asynchronously against drivers, shares budgets through atomics and reads the
  wall clock; the storage, transport, console, federation and daemon crates, most of which are
  asynchronous input and output around the components modelled here.
\<close>

end
